(* ===== verification/Yeto_Prelude.thy ===== *)
theory Yeto_Prelude
  imports Main "HOL-Library.AList" "HOL-Library.Char_ord" "HOL-Library.List_Lexorder"
    "HOL-Library.Word" "HOL-Library.Multiset"
begin

text \<open>
  The shared base of the development: Python dictionaries as insertion-ordered association
  lists, results of functions that may raise as a sum type, the splitting of byte strings,
  a total order on sorted association lists, and the lemma collections the component
  theories use.

  A Python \<open>dict\<close> is an association list with distinct keys.  \<open>AList.update\<close> keeps the
  position of an existing key and appends a new one, and \<open>AList.delete\<close> removes a key:
  this is exactly the iteration order of a Python dictionary.  A function that may raise
  has a result of type \<open>'e + 'a\<close>, where \<open>Inl\<close> is the exception.
\<close>

named_theorems dict_simps \<open>lookups after updates of dictionaries\<close>
named_theorems result_simps \<open>inversion of the result monad\<close>

section \<open>Dictionaries\<close>

type_synonym ('k, 'v) dict = "('k \<times> 'v) list"

abbreviation dict_get :: "('k, 'v) dict \<Rightarrow> 'k \<Rightarrow> 'v option" where
  "dict_get \<equiv> map_of"

abbreviation dict_set :: "'k \<Rightarrow> 'v \<Rightarrow> ('k, 'v) dict \<Rightarrow> ('k, 'v) dict" where
  "dict_set \<equiv> AList.update"

abbreviation dict_pop :: "'k \<Rightarrow> ('k, 'v) dict \<Rightarrow> ('k, 'v) dict" where
  "dict_pop \<equiv> AList.delete"

definition dict_ok :: "('k, 'v) dict \<Rightarrow> bool" where
  "dict_ok d \<longleftrightarrow> distinct (map fst d)"

definition dict_pop_all :: "'k list \<Rightarrow> ('k, 'v) dict \<Rightarrow> ('k, 'v) dict" where
  "dict_pop_all ks d = fold dict_pop ks d"

definition dict_set_all :: "'k list \<Rightarrow> 'v \<Rightarrow> ('k, 'v) dict \<Rightarrow> ('k, 'v) dict" where
  "dict_set_all ks v d = fold (\<lambda>k. dict_set k v) ks d"

lemma dict_get_set [dict_simps, simp]:
  "dict_get (dict_set k v d) k' = (if k = k' then Some v else dict_get d k')"
  by (simp add: update_conv')

lemma dict_get_pop [dict_simps, simp]:
  "dict_get (dict_pop k d) k' = (if k = k' then None else dict_get d k')"
  by (simp add: delete_conv')

lemma dict_get_pop_all [dict_simps, simp]:
  "dict_get (dict_pop_all ks d) k = (if k \<in> set ks then None else dict_get d k)"
  unfolding dict_pop_all_def by (induction ks arbitrary: d) auto

lemma dict_get_set_all [dict_simps, simp]:
  "dict_get (dict_set_all ks v d) k = (if k \<in> set ks then Some v else dict_get d k)"
  unfolding dict_set_all_def by (induction ks arbitrary: d) auto

lemma dict_ok_Nil [simp]: "dict_ok []"
  by (simp add: dict_ok_def)

lemma dict_ok_set [simp]: "dict_ok d \<Longrightarrow> dict_ok (dict_set k v d)"
  by (simp add: dict_ok_def distinct_update)

lemma dict_ok_pop [simp]: "dict_ok d \<Longrightarrow> dict_ok (dict_pop k d)"
  by (simp add: dict_ok_def distinct_delete)

lemma dict_ok_pop_all [simp]: "dict_ok d \<Longrightarrow> dict_ok (dict_pop_all ks d)"
  unfolding dict_pop_all_def by (induction ks arbitrary: d) auto

lemma dict_ok_set_all [simp]: "dict_ok d \<Longrightarrow> dict_ok (dict_set_all ks v d)"
  unfolding dict_set_all_def by (induction ks arbitrary: d) auto

lemma set_dict_set: "set (dict_set k v d) \<subseteq> insert (k, v) (set d)"
  by (induction d) auto

lemma in_dict_set: "x \<in> set (dict_set k v d) \<Longrightarrow> x = (k, v) \<or> x \<in> set d"
  using set_dict_set [of k v d] by auto

lemma dict_item_get: "dict_ok d \<Longrightarrow> (k, v) \<in> set d \<longleftrightarrow> dict_get d k = Some v"
  by (simp add: dict_ok_def)

lemma dict_key_get: "k \<in> set (map fst d) \<longleftrightarrow> dict_get d k \<noteq> None"
  by (simp add: map_of_eq_None_iff)

lemma dict_key_image: "k \<in> fst ` set d \<longleftrightarrow> dict_get d k \<noteq> None"
  by (metis dict_key_get set_map)

section \<open>Results of functions that may raise\<close>

definition rbind :: "'e + 'a \<Rightarrow> ('a \<Rightarrow> 'e + 'b) \<Rightarrow> 'e + 'b" where
  "rbind m f = (case m of Inl e \<Rightarrow> Inl e | Inr x \<Rightarrow> f x)"

fun rfold :: "('x \<Rightarrow> 's \<Rightarrow> 'e + 's) \<Rightarrow> 'x list \<Rightarrow> 's \<Rightarrow> 'e + 's" where
  "rfold f [] s = Inr s"
| "rfold f (x # xs) s = rbind (f x s) (rfold f xs)"

fun rmap :: "('x \<Rightarrow> 'e + 'y) \<Rightarrow> 'x list \<Rightarrow> 'e + 'y list" where
  "rmap f [] = Inr []"
| "rmap f (x # xs) = rbind (f x) (\<lambda>y. rbind (rmap f xs) (\<lambda>ys. Inr (y # ys)))"

definition rwhen :: "bool \<Rightarrow> ('s \<Rightarrow> 'e + 's) \<Rightarrow> 's \<Rightarrow> 'e + 's" where
  "rwhen c f s = (if c then f s else Inr s)"

lemma rbind_simps [simp]: "rbind (Inl e) f = Inl e" "rbind (Inr x) f = f x"
  by (simp_all add: rbind_def)

lemma rbind_Inr_iff [result_simps]: "rbind m f = Inr y \<longleftrightarrow> (\<exists>x. m = Inr x \<and> f x = Inr y)"
  by (cases m) auto

lemma rbind_Inl_iff [result_simps]:
  "rbind m f = Inl e \<longleftrightarrow> m = Inl e \<or> (\<exists>x. m = Inr x \<and> f x = Inl e)"
  by (cases m) auto

lemma rfold_append: "rfold f (xs @ ys) s = rbind (rfold f xs s) (rfold f ys)"
proof (induction xs arbitrary: s)
  case (Cons x xs)
  then show ?case by (cases "f x s") auto
qed simp

lemma rfold_invariant:
  assumes "rfold f xs s = Inr t" and "I s"
    and "\<And>x s t. x \<in> set xs \<Longrightarrow> I s \<Longrightarrow> f x s = Inr t \<Longrightarrow> I t"
  shows "I t"
  using assms
proof (induction xs arbitrary: s)
  case (Cons x xs)
  from Cons.prems(1) obtain u where u: "f x s = Inr u" "rfold f xs u = Inr t"
    by (auto simp: rbind_Inr_iff)
  have "I u" using Cons.prems(2,3) u(1) by (meson list.set_intros(1))
  then show ?case using Cons.IH u(2) Cons.prems(3) by (meson list.set_intros(2))
qed simp

lemma rmap_length: "rmap f xs = Inr ys \<Longrightarrow> length ys = length xs"
  by (induction xs arbitrary: ys) (auto simp: rbind_Inr_iff)

lemma rmap_Inr_iff: "rmap f xs = Inr ys \<longleftrightarrow> list_all2 (\<lambda>x y. f x = Inr y) xs ys"
proof (induction xs arbitrary: ys)
  case (Cons x xs)
  then show ?case by (cases ys) (auto simp: rbind_Inr_iff)
qed auto

lemma list_all2_in_right: "list_all2 R xs ys \<Longrightarrow> y \<in> set ys \<Longrightarrow> \<exists>x \<in> set xs. R x y"
  by (induction rule: list_all2_induct) auto

lemma rmap_total: "\<forall>x \<in> set xs. \<exists>y. f x = Inr y \<Longrightarrow> \<exists>ys. rmap f xs = Inr ys"
proof (induction xs)
  case (Cons x xs)
  then obtain y ys where "f x = Inr y" "rmap f xs = Inr ys" by auto
  then show ?case by simp
qed simp

section \<open>Splitting byte strings\<close>

type_synonym byte = "8 word"
type_synonym bytes = "byte list"

text \<open>Python's \<open>split\<close> on a one-element separator: there is always at least one part.\<close>

fun split_on :: "'a \<Rightarrow> 'a list \<Rightarrow> 'a list list" where
  "split_on sep [] = [[]]"
| "split_on sep (x # xs) =
     (if x = sep then [] # split_on sep xs
      else (case split_on sep xs of [] \<Rightarrow> [[x]] | p # ps \<Rightarrow> (x # p) # ps))"

lemma split_on_not_Nil [simp]: "split_on sep xs \<noteq> []"
  by (cases xs) (auto split: list.splits)

lemma split_on_no_sep: "sep \<notin> set xs \<Longrightarrow> split_on sep xs = [xs]"
  by (induction xs) auto

lemma split_on_append: "sep \<notin> set xs \<Longrightarrow> split_on sep (xs @ sep # ys) = xs # split_on sep ys"
  by (induction xs) auto

lemma sep_append_inject:
  assumes "x \<notin> set xs" and "x \<notin> set xs'"
  shows "xs @ x # ys = xs' @ x # ys' \<longleftrightarrow> xs = xs' \<and> ys = ys'"
  using assms
proof (induction xs arbitrary: xs')
  case Nil
  then show ?case by (cases xs') auto
next
  case (Cons a xs)
  then show ?case by (cases xs') auto
qed

section \<open>Sorted lists of keys\<close>

text \<open>The entries of a dictionary in key order: \<open>sorted(d.items())\<close> for distinct keys.\<close>

definition items_sorted :: "('k::linorder, 'v) dict \<Rightarrow> ('k \<times> 'v) list" where
  "items_sorted d = sort_key fst d"

lemma set_items_sorted [simp]: "set (items_sorted d) = set d"
  by (simp add: items_sorted_def)

lemma dict_ok_items_sorted [simp]: "dict_ok (items_sorted d) = dict_ok d"
proof -
  have "mset (map fst (sort_key fst d)) = mset (map fst d)" by simp
  then show ?thesis
    unfolding dict_ok_def items_sorted_def by (metis mset_eq_imp_distinct_iff)
qed

lemma dict_get_items_sorted [simp]: "dict_ok d \<Longrightarrow> dict_get (items_sorted d) = dict_get d"
proof (rule ext)
  fix k assume ok: "dict_ok d"
  show "dict_get (items_sorted d) k = dict_get d k"
  proof (cases "dict_get d k")
    case None
    then have "k \<notin> fst ` set (items_sorted d)" by (simp add: map_of_eq_None_iff)
    then have "dict_get (items_sorted d) k = None" by (simp add: map_of_eq_None_iff del: set_items_sorted)
    then show ?thesis using None by simp
  next
    case (Some v)
    then have "(k, v) \<in> set (items_sorted d)" using ok by (simp add: dict_item_get)
    then show ?thesis using ok Some dict_item_get [of "items_sorted d" k v] by simp
  qed
qed

lemma sort_eq_mset: "mset xs = mset ys \<Longrightarrow> sort xs = sort (ys :: 'a::linorder list)"
  by (metis properties_for_sort sorted_sort mset_sort)

section \<open>Decimal numbers\<close>

definition digit_char :: "nat \<Rightarrow> char" where
  "digit_char d = char_of (48 + d)"

definition digit_val :: "char \<Rightarrow> nat option" where
  "digit_val c = (let n = of_char c :: nat in if 48 \<le> n \<and> n \<le> 57 then Some (n - 48) else None)"

fun show_nat :: "nat \<Rightarrow> string" where
  "show_nat n = (if n < 10 then [digit_char n] else show_nat (n div 10) @ [digit_char (n mod 10)])"

declare show_nat.simps [simp del]

definition show_int :: "int \<Rightarrow> string" where
  "show_int i = (if i < 0 then ''-'' @ show_nat (nat (- i)) else show_nat (nat i))"

fun read_digits :: "nat \<Rightarrow> string \<Rightarrow> nat option" where
  "read_digits acc [] = Some acc"
| "read_digits acc (c # cs) =
     (case digit_val c of None \<Rightarrow> None | Some d \<Rightarrow> read_digits (10 * acc + d) cs)"

definition read_nat :: "string \<Rightarrow> nat option" where
  "read_nat s = (if s = [] then None else read_digits 0 s)"

lemma digit_val_digit_char [simp]: "d < 10 \<Longrightarrow> digit_val (digit_char d) = Some d"
  by (simp add: digit_val_def digit_char_def)

lemma read_digits_append:
  "read_digits acc (xs @ ys) = (case read_digits acc xs of None \<Rightarrow> None | Some n \<Rightarrow> read_digits n ys)"
  by (induction xs arbitrary: acc) (auto split: option.splits)

lemma read_digits_show_nat: "read_digits 0 (show_nat n) = Some n"
proof (induction n rule: show_nat.induct)
  case (1 n)
  show ?case
  proof (cases "n < 10")
    case True
    then show ?thesis by (simp add: show_nat.simps [of n])
  next
    case False
    then have "read_digits 0 (show_nat (n div 10)) = Some (n div 10)" using 1 by simp
    then show ?thesis using False by (simp add: show_nat.simps [of n] read_digits_append)
  qed
qed

lemma show_nat_not_Nil [simp]: "show_nat n \<noteq> []"
  by (subst show_nat.simps) simp

lemma read_nat_show_nat [simp]: "read_nat (show_nat n) = Some n"
  by (simp add: read_nat_def read_digits_show_nat)

lemma show_nat_inject [simp]: "show_nat m = show_nat n \<longleftrightarrow> m = n"
  by (metis option.inject read_nat_show_nat)

section \<open>Ordered maps\<close>

text \<open>A Rust \<open>BTreeMap\<close>: an association list in ascending order of its keys.\<close>

fun bt_insert :: "'k::linorder \<Rightarrow> 'v \<Rightarrow> ('k, 'v) dict \<Rightarrow> ('k, 'v) dict" where
  "bt_insert k v [] = [(k, v)]"
| "bt_insert k v ((k', v') # d) =
     (if k < k' then (k, v) # (k', v') # d
      else if k = k' then (k, v) # d
      else (k', v') # bt_insert k v d)"

definition bt_ok :: "('k::linorder, 'v) dict \<Rightarrow> bool" where
  "bt_ok d \<longleftrightarrow> sorted_wrt (<) (map fst d)"

lemma bt_get_insert [simp]: "dict_get (bt_insert k v d) k' = (if k = k' then Some v else dict_get d k')"
  by (induction d) auto

lemma fst_bt_insert: "fst ` set (bt_insert k v d) = insert k (fst ` set d)"
proof (induction d)
  case (Cons a d)
  then show ?case by (cases a) (simp add: insert_commute)
qed simp

lemma bt_ok_insert [simp]: "bt_ok d \<Longrightarrow> bt_ok (bt_insert k v d)"
proof (induction d)
  case (Cons a d)
  then show ?case using fst_bt_insert [of k v d]
    by (cases a) (fastforce simp: bt_ok_def)
qed (simp add: bt_ok_def)

lemma bt_ok_delete [simp]: "bt_ok d \<Longrightarrow> bt_ok (dict_pop k d)"
  by (induction d) (auto simp: bt_ok_def delete_keys)

lemma bt_ok_dict: "bt_ok d \<Longrightarrow> dict_ok d"
  unfolding bt_ok_def dict_ok_def using strict_sorted_iff by blast

end
