(* ===== verification/Journal.thy ===== *)
theory Journal
  imports Yeto_Prelude
begin

text \<open>
  The durable reconfiguration journal (\<open>src/yeto/rl/engine/journal.py\<close>): the append-only
  line file with its torn-tail rule, the single-writer object with its sequence numbers,
  the durable compare-and-swap of the epochs file, and the \<open>pool_*\<close> records.

  The JSON text codec is an argument of the definitions: \<open>loads\<close> is \<open>None\<close> where
  \<open>json.loads\<close> raises \<open>ValueError\<close> or gives something that is not an object.  The clocks
  of a record (\<open>wall_time\<close>, \<open>monotonic\<close>) are never read back and are left out.  The
  locale \<open>journaled\<close> is the contract between the journal and a component that keeps its
  state by replaying its own records.
\<close>

section \<open>Errors, entries, epochs\<close>

datatype journal_error =
    JournalCorrupt nat
  | JournalCorruptPool "string option"
  | JournalLocked
  | JournalClosed
  | EpochsChanged
  | EpochConflict int int
  | EpochBackwards
  | PoolLegacy
  | PoolNoIsland
  | PoolUnknownKind string
  | PoolNeedsIsland string
  | PoolEpochBackwards int int
  | MembershipEpochBackwards

record 'r entry =
  e_seq :: "int option"
  e_body :: 'r

record epoch_state =
  config_epoch :: int
  config_id :: "string option"
  fork_membership_epoch :: int
  members :: "string list"
  last_tx_id :: "string option"

definition initial_epochs :: epoch_state where
  "initial_epochs = \<lparr>config_epoch = 0, config_id = None, fork_membership_epoch = 0,
     members = [], last_tx_id = None\<rparr>"

text \<open>
  \<open>EpochState.to_dict\<close> followed by \<open>from_dict\<close>: what a reader gets back from the epochs
  file.  Both directions sort the members.
\<close>

definition epochs_to_dict :: "epoch_state \<Rightarrow> epoch_state" where
  "epochs_to_dict e = e\<lparr>members := sort (members e)\<rparr>"

definition epochs_from_dict :: "epoch_state \<Rightarrow> epoch_state" where
  "epochs_from_dict raw = raw\<lparr>members := sort (members raw)\<rparr>"

section \<open>The line file\<close>

definition newline :: byte where
  "newline = 10"

fun parse_lines_from ::
    "(bytes \<Rightarrow> 'r entry option) \<Rightarrow> nat \<Rightarrow> bytes list \<Rightarrow> 'r entry list \<Rightarrow> nat \<Rightarrow>
     journal_error + 'r entry list \<times> nat" where
  "parse_lines_from loads index [] records valid = Inr (records, valid)"
| "parse_lines_from loads index [line] records valid =
     (if line = [] then Inr (records, valid)
      else (case loads line of None \<Rightarrow> Inr (records, valid) | Some r \<Rightarrow> Inr (records, valid)))"
| "parse_lines_from loads index (line # line' # rest) records valid =
     (case loads line of
        None \<Rightarrow> Inl (JournalCorrupt (index + 1))
      | Some r \<Rightarrow> parse_lines_from loads (index + 1) (line' # rest)
                   (records @ [r]) (valid + length line + 1))"

definition parse_lines ::
    "(bytes \<Rightarrow> 'r entry option) \<Rightarrow> bytes \<Rightarrow> journal_error + 'r entry list \<times> nat" where
  "parse_lines loads data = parse_lines_from loads 0 (split_on newline data) [] 0"

section \<open>The journal object\<close>

text \<open>
  The state directory as the process sees it: the bytes of \<open>journal.jsonl\<close>, the epochs
  file (\<open>None\<close>: no such file), and whether another process holds the writer lock.
\<close>

record disk =
  journal_file :: "bytes option"
  epochs_file :: "epoch_state option"
  lock_held :: bool

record 'r journal =
  j_records :: "'r entry list"
  j_seq :: int
  j_epochs :: epoch_state
  j_open :: bool

definition read_journal ::
    "(bytes \<Rightarrow> 'r entry option) \<Rightarrow> disk \<Rightarrow> journal_error + 'r entry list" where
  "read_journal loads d =
     (case journal_file d of
        None \<Rightarrow> Inr []
      | Some data \<Rightarrow> rbind (parse_lines loads data) (\<lambda>(records, valid). Inr records))"

definition read_epochs :: "disk \<Rightarrow> epoch_state" where
  "read_epochs d =
     (case epochs_file d of None \<Rightarrow> initial_epochs | Some raw \<Rightarrow> epochs_from_dict raw)"

definition max_seq :: "'r entry list \<Rightarrow> int" where
  "max_seq rs = (case rs of [] \<Rightarrow> 0
     | _ \<Rightarrow> Max (set (map (\<lambda>r. case e_seq r of None \<Rightarrow> 0 | Some n \<Rightarrow> n) rs)))"

definition journal_init ::
    "(bytes \<Rightarrow> 'r entry option) \<Rightarrow> disk \<Rightarrow> journal_error + 'r journal \<times> disk" where
  "journal_init loads d =
     (if lock_held d then Inl JournalLocked
      else (let data = (case journal_file d of None \<Rightarrow> [] | Some b \<Rightarrow> b) in
        rbind (parse_lines loads data) (\<lambda>(records, valid).
          Inr (\<lparr>j_records = records, j_seq = max_seq records, j_epochs = read_epochs d,
                 j_open = True\<rparr>,
               d\<lparr>journal_file := Some (if valid \<noteq> length data then take valid data else data),
                  lock_held := True\<rparr>))))"

definition journal_close :: "'r journal \<Rightarrow> disk \<Rightarrow> 'r journal \<times> disk" where
  "journal_close j d =
     (if j_open j then (j\<lparr>j_open := False\<rparr>, d\<lparr>lock_held := False\<rparr>) else (j, d))"

text \<open>
  The in-memory half of \<open>Journal.append\<close>: the next sequence number and the new record.
\<close>

definition next_entry :: "'r \<Rightarrow> 'r journal \<Rightarrow> 'r entry" where
  "next_entry body j = \<lparr>e_seq = Some (j_seq j + 1), e_body = body\<rparr>"

definition journal_push :: "'r \<Rightarrow> 'r journal \<Rightarrow> 'r journal" where
  "journal_push body j =
     j\<lparr>j_seq := j_seq j + 1, j_records := j_records j @ [next_entry body j]\<rparr>"

definition journal_append ::
    "('r entry \<Rightarrow> bytes) \<Rightarrow> 'r \<Rightarrow> 'r journal \<Rightarrow> disk \<Rightarrow> journal_error + 'r journal \<times> disk" where
  "journal_append dumps body j d =
     (if \<not> j_open j then Inl JournalClosed
      else (let old = (case journal_file d of None \<Rightarrow> [] | Some b \<Rightarrow> b)
        in Inr (journal_push body j,
                d\<lparr>journal_file := Some (old @ dumps (next_entry body j) @ [newline])\<rparr>)))"

definition compare_and_swap ::
    "int \<Rightarrow> int option \<Rightarrow> epoch_state \<Rightarrow> 'r journal \<Rightarrow> disk \<Rightarrow>
     journal_error + 'r journal \<times> disk" where
  "compare_and_swap expected_config expected_fork new j d =
     (let current = read_epochs d in
      if current \<noteq> j_epochs j then Inl EpochsChanged
      else if config_epoch current \<noteq> expected_config
              \<or> (case expected_fork of None \<Rightarrow> False
                  | Some f \<Rightarrow> fork_membership_epoch current \<noteq> f)
        then Inl (EpochConflict (config_epoch current) (fork_membership_epoch current))
      else if config_epoch new < config_epoch current then Inl EpochBackwards
      else Inr (j\<lparr>j_epochs := new\<rparr>, d\<lparr>epochs_file := Some (epochs_to_dict new)\<rparr>))"

section \<open>Pool records\<close>

record pool_body =
  p_kind :: string
  tx_kind :: "string option"
  island_id :: "string option"
  p_pool_epoch :: "int option"
  p_membership_epoch :: "int option"

record pool_state =
  pool_epoch :: "int option"
  pool_members :: "string list"
  membership_epoch :: "int option"

text \<open>The replay of one record; the members are kept as a list without duplicates.\<close>

definition replay_pool1 ::
    "pool_body \<Rightarrow> pool_state \<Rightarrow> journal_error + pool_state" where
  "replay_pool1 r s =
     (if p_kind r \<noteq> ''pool'' then Inr s
      else rbind
        (if tx_kind r = Some ''pool_join''
           then (case island_id r of None \<Rightarrow> Inl PoolNoIsland
                 | Some i \<Rightarrow> Inr (s\<lparr>pool_members := List.insert i (pool_members s)\<rparr>))
         else if tx_kind r = Some ''pool_leave''
           then (case island_id r of None \<Rightarrow> Inl PoolNoIsland
                 | Some i \<Rightarrow> Inr (s\<lparr>pool_members := removeAll i (pool_members s)\<rparr>))
         else if tx_kind r \<noteq> Some ''pool_epoch'' then Inl (JournalCorruptPool (tx_kind r))
         else Inr s)
        (\<lambda>s. Inr (s\<lparr>pool_epoch := (if p_pool_epoch r \<noteq> None then p_pool_epoch r else pool_epoch s),
           membership_epoch := (if p_membership_epoch r \<noteq> None then p_membership_epoch r
                                else membership_epoch s)\<rparr>)))"

definition empty_pool :: pool_state where
  "empty_pool = \<lparr>pool_epoch = None, pool_members = [], membership_epoch = None\<rparr>"

definition replay_pool :: "bool \<Rightarrow> pool_body list \<Rightarrow> journal_error + pool_state" where
  "replay_pool legacy records =
     (if legacy then Inr empty_pool
      else rbind (rfold replay_pool1 records empty_pool)
             (\<lambda>s. Inr (s\<lparr>pool_members := sort (pool_members s)\<rparr>)))"

definition pool_tx_kinds :: "string list" where
  "pool_tx_kinds = [''pool_join'', ''pool_leave'', ''pool_epoch'']"

text \<open>\<open>append_pool_event\<close>; the guards in the order of the source.\<close>

definition append_pool_event ::
    "(pool_body entry \<Rightarrow> bytes) \<Rightarrow> bool \<Rightarrow> string \<Rightarrow> int \<Rightarrow> string option \<Rightarrow> int option \<Rightarrow>
     pool_body journal \<Rightarrow> disk \<Rightarrow> journal_error + pool_body journal \<times> disk" where
  "append_pool_event dumps legacy tx pe island me j d =
     (if legacy then Inl PoolLegacy
      else if tx \<notin> set pool_tx_kinds then Inl (PoolUnknownKind tx)
      else if tx \<in> {''pool_join'', ''pool_leave''} \<and> (island = None \<or> island = Some []) then
        Inl (PoolNeedsIsland tx)
      else rbind (replay_pool False (map e_body (j_records j))) (\<lambda>current.
        case (case pool_epoch current of None \<Rightarrow> None
              | Some e \<Rightarrow> if pe < e then Some (PoolEpochBackwards e pe) else None) of
          Some err \<Rightarrow> Inl err
        | None \<Rightarrow>
            (if (case (me, membership_epoch current) of
                   (Some m, Some c) \<Rightarrow> m < c | _ \<Rightarrow> False)
             then Inl MembershipEpochBackwards
             else journal_append dumps
               \<lparr>p_kind = ''pool'', tx_kind = Some tx, island_id = island, p_pool_epoch = Some pe,
                p_membership_epoch = me\<rparr> j d)))"


section \<open>The contract of a state kept by replay\<close>

text \<open>
  A component that keeps its state by replaying its own records: \<open>commit\<close> appends one
  record and applies it.  Everything such a component does after opening is a sequence of
  commits, so a reader that replays the log from the empty state gets the live state.
\<close>

locale journaled =
  fixes replay :: "'r \<Rightarrow> 's \<Rightarrow> 'e + 's"
    and empty :: 's
    and commit :: "'r \<Rightarrow> 'j \<Rightarrow> 'e + 'j"
    and mem :: "'j \<Rightarrow> 's"
    and log :: "'j \<Rightarrow> 'r list"
  assumes commit_replays: "commit r j = Inr j' \<Longrightarrow> replay r (mem j) = Inr (mem j')"
    and commit_logs: "commit r j = Inr j' \<Longrightarrow> log j' = log j @ [r]"
begin

definition in_sync :: "'j \<Rightarrow> bool" where
  "in_sync j \<longleftrightarrow> rfold replay (log j) empty = Inr (mem j)"

definition extends :: "'j \<Rightarrow> 'j \<Rightarrow> bool" where
  "extends j j' \<longleftrightarrow> (\<exists>rs. log j' = log j @ rs \<and> rfold replay rs (mem j) = Inr (mem j'))"

lemma extends_refl [intro, simp]: "extends j j"
  by (auto simp: extends_def)

lemma extends_trans [trans]: "extends a b \<Longrightarrow> extends b c \<Longrightarrow> extends a c"
  unfolding extends_def by (force simp: rfold_append)

lemma commit_extends: "commit r j = Inr j' \<Longrightarrow> extends j j'"
  unfolding extends_def using commit_replays commit_logs by force

lemma extends_in_sync: "extends j j' \<Longrightarrow> in_sync j \<Longrightarrow> in_sync j'"
  unfolding extends_def in_sync_def by (auto simp: rfold_append)

lemma fold_extends:
  assumes "rfold f xs j = Inr j'"
    and "\<And>x j j'. x \<in> set xs \<Longrightarrow> f x j = Inr j' \<Longrightarrow> extends j j'"
  shows "extends j j'"
  using assms
proof (induction xs arbitrary: j)
  case (Cons x xs)
  from Cons.prems(1) obtain u where u: "f x j = Inr u" "rfold f xs u = Inr j'"
    by (auto simp: rbind_Inr_iff)
  have "extends j u" using Cons.prems(2) u(1) by (meson list.set_intros(1))
  moreover have "extends u j'" using Cons.IH u(2) Cons.prems(2) by (meson list.set_intros(2))
  ultimately show ?case by (rule extends_trans)
qed simp

end

section \<open>Lemmas of the line file\<close>

text \<open>
  What the journal relies on of the JSON codec: a dumped record loads back, and a dumped
  line holds no newline (\<open>json.dumps\<close> escapes it).
\<close>

definition codec_ok :: "('r entry \<Rightarrow> bytes) \<Rightarrow> (bytes \<Rightarrow> 'r entry option) \<Rightarrow> bool" where
  "codec_ok dumps loads \<longleftrightarrow> (\<forall>r. loads (dumps r) = Some r \<and> newline \<notin> set (dumps r))"

definition encode_lines :: "('r entry \<Rightarrow> bytes) \<Rightarrow> 'r entry list \<Rightarrow> bytes" where
  "encode_lines dumps rs = concat (map (\<lambda>r. dumps r @ [newline]) rs)"

lemma encode_lines_simps [simp]:
  "encode_lines dumps [] = []"
  "encode_lines dumps (r # rs) = dumps r @ newline # encode_lines dumps rs"
  "encode_lines dumps (rs @ rs') = encode_lines dumps rs @ encode_lines dumps rs'"
  by (simp_all add: encode_lines_def)

lemma parse_lines_from_encode:
  assumes codec: "codec_ok dumps loads" and tail: "newline \<notin> set tail"
  shows "parse_lines_from loads i (split_on newline (encode_lines dumps rs @ tail)) acc v
         = Inr (acc @ rs, v + length (encode_lines dumps rs))"
proof (induction rs arbitrary: i acc v)
  case Nil
  have "split_on newline tail = [tail]" using tail by (rule split_on_no_sep)
  then show ?case by (simp split: option.splits)
next
  case (Cons r rs)
  let ?rest = "encode_lines dumps rs @ tail"
  have "split_on newline (dumps r @ newline # ?rest) = dumps r # split_on newline ?rest"
    using codec by (intro split_on_append) (simp add: codec_ok_def)
  moreover obtain l ls where "split_on newline ?rest = l # ls"
    by (cases "split_on newline ?rest") auto
  ultimately show ?case
    using codec Cons.IH [of "i + 1" "acc @ [r]" "v + length (dumps r) + 1"]
    by (simp add: codec_ok_def)
qed

lemma parse_lines_encode:
  assumes "codec_ok dumps loads" and "newline \<notin> set tail"
  shows "parse_lines loads (encode_lines dumps rs @ tail)
         = Inr (rs, length (encode_lines dumps rs))"
  unfolding parse_lines_def using parse_lines_from_encode [OF assms, of 0 rs "[]" 0] by simp

section \<open>The journal invariant\<close>

definition journal_ok :: "('r entry \<Rightarrow> bytes) \<Rightarrow> 'r journal \<Rightarrow> disk \<Rightarrow> bool" where
  "journal_ok dumps j d \<longleftrightarrow>
     journal_file d = Some (encode_lines dumps (j_records j))
     \<and> j_seq j = max_seq (j_records j) \<and> j_epochs j = read_epochs d
     \<and> j_open j = lock_held d"

lemma max_seq_Nil [simp]: "max_seq [] = 0"
  by (simp add: max_seq_def)

lemma max_seq_single [simp]: "max_seq [r] = (case e_seq r of None \<Rightarrow> 0 | Some n \<Rightarrow> n)"
  by (simp add: max_seq_def)

lemma max_seq_push: "max_seq (rs @ [r]) = (case e_seq r of None \<Rightarrow> max 0 (max_seq rs)
    | Some n \<Rightarrow> if rs = [] then n else max n (max_seq rs))"
proof (cases rs)
  case (Cons a list)
  then show ?thesis
    by (cases "e_seq r") (auto simp: max_seq_def max.commute insert_commute max.left_commute)
qed (auto simp: max_seq_def split: option.splits)

lemma entry_seq_le_max: "r \<in> set rs \<Longrightarrow> e_seq r = Some n \<Longrightarrow> n \<le> max_seq rs"
  unfolding max_seq_def by (cases rs) (auto intro!: Max_ge rev_image_eqI)

lemma journal_append_ok:
  assumes ok: "journal_ok dumps j d" and app: "journal_append dumps body j d = Inr (j', d')"
  shows "journal_ok dumps j' d'"
proof -
  have "max_seq (j_records j @ [next_entry body j]) = j_seq j + 1"
    using ok by (cases "j_records j = []") (auto simp: max_seq_push next_entry_def journal_ok_def)
  then show ?thesis using assms
    by (auto simp: journal_append_def journal_ok_def journal_push_def read_epochs_def
        Let_def split: if_splits)
qed

lemma journal_init_torn:
  assumes codec: "codec_ok dumps loads" and tail: "newline \<notin> set tail"
    and fl: "journal_file d = Some (encode_lines dumps rs @ tail)" and free: "\<not> lock_held d"
  shows "\<exists>j d'. journal_init loads d = Inr (j, d') \<and> journal_ok dumps j d' \<and> j_records j = rs"
proof -
  have "parse_lines loads (encode_lines dumps rs @ tail)
        = Inr (rs, length (encode_lines dumps rs))"
    using codec tail by (rule parse_lines_encode)
  then show ?thesis using fl free
    by (auto simp: journal_init_def journal_ok_def read_epochs_def Let_def)
qed

text \<open>
  C7. A crash during \<open>Journal.append\<close> may leave any prefix of the new bytes on disk.  The
  next \<open>Journal\<close> opens without error and holds exactly the records of the calls that
  returned before, and the new record if and only if all of its bytes, newline included,
  reached the disk.  The file is again in step with the object.
\<close>

theorem journal_crash_recovery:
  assumes codec: "codec_ok dumps loads" and ok: "journal_ok dumps j d"
    and app: "journal_append dumps body j d = Inr (j', d')"
    and fl': "journal_file d' = Some data"
    and n: "length (encode_lines dumps (j_records j)) \<le> n" "n \<le> length data"
  shows "\<exists>j2 d2. journal_init loads (d'\<lparr>journal_file := Some (take n data), lock_held := False\<rparr>)
             = Inr (j2, d2)
           \<and> journal_ok dumps j2 d2
           \<and> j_records j2 = (if n = length data then j_records j' else j_records j)"
proof -
  let ?old = "encode_lines dumps (j_records j)" and ?r = "next_entry body j"
  let ?d = "d'\<lparr>journal_file := Some (take n data), lock_held := False\<rparr>"
  have data: "data = ?old @ dumps ?r @ [newline]" and j': "j' = journal_push body j"
    using ok app fl' by (auto simp: journal_append_def journal_ok_def split: if_splits)
  show ?thesis
  proof (cases "n = length data")
    case True
    then have "journal_file ?d = Some (encode_lines dumps (j_records j') @ [])"
      using data j' by (simp add: journal_push_def)
    from journal_init_torn [OF codec _ this] True show ?thesis by simp
  next
    case False
    let ?tail = "take (n - length ?old) (dumps ?r)"
    have "newline \<notin> set ?tail"
      using codec by (auto simp: codec_ok_def dest: in_set_takeD)
    moreover have "journal_file ?d = Some (?old @ ?tail)"
      using data n False by simp
    ultimately show ?thesis using journal_init_torn [OF codec, of ?tail ?d "j_records j"] False
      by simp
  qed
qed

text \<open>A concrete codec for the witness: a record with no body, its number in unary.\<close>

definition unary_dumps :: "unit entry \<Rightarrow> bytes" where
  "unary_dumps r = (case e_seq r of None \<Rightarrow> []
     | Some i \<Rightarrow> replicate (Suc (if 0 \<le> i then 2 * nat i else 2 * nat (- i) + 1)) 1)"

definition unary_loads :: "bytes \<Rightarrow> unit entry option" where
  "unary_loads b = Some \<lparr>e_seq = (if b = [] then None
       else let k = length b - 1 in
         Some (if even k then int (k div 2) else - int (k div 2))), e_body = ()\<rparr>"

lemma unary_codec: "codec_ok unary_dumps unary_loads"
proof -
  have "unary_loads (unary_dumps r) = Some r" for r
    by (cases r; cases "e_seq r") (auto simp: unary_dumps_def unary_loads_def)
  moreover have "newline \<notin> set (unary_dumps r)" for r
    by (cases "e_seq r") (auto simp: unary_dumps_def newline_def)
  ultimately show ?thesis by (simp add: codec_ok_def)
qed

definition empty_disk :: disk where
  "empty_disk = \<lparr>journal_file = Some [], epochs_file = None, lock_held = True\<rparr>"

definition empty_journal :: "'r journal" where
  "empty_journal = \<lparr>j_records = [], j_seq = 0, j_epochs = initial_epochs, j_open = True\<rparr>"

lemma journal_ok_empty: "journal_ok dumps empty_journal empty_disk"
  by (simp add: journal_ok_def empty_journal_def empty_disk_def max_seq_def read_epochs_def)

theorem journal_crash_recovery_witness:
  "\<exists>j2 d2. journal_init unary_loads (empty_disk\<lparr>journal_file := Some [1, 1], lock_held := False\<rparr>)
       = Inr (j2, d2)
     \<and> journal_ok unary_dumps j2 d2 \<and> j_records j2 = ([] :: unit entry list)"
proof -
  let ?j = "empty_journal :: unit journal"
  let ?d = "empty_disk\<lparr>journal_file := Some [1, 1, 1, newline]\<rparr>"
  have app: "journal_append unary_dumps () ?j empty_disk = Inr (journal_push () ?j, ?d)"
    by (simp add: journal_append_def empty_journal_def empty_disk_def next_entry_def
        unary_dumps_def numeral_2_eq_2)
  have "\<exists>j2 d2. journal_init unary_loads
       (?d\<lparr>journal_file := Some (take 2 [1, 1, 1, newline]), lock_held := False\<rparr>) = Inr (j2, d2)
     \<and> journal_ok unary_dumps j2 d2
     \<and> j_records j2 = (if 2 = length [1, 1, 1, newline] then j_records (journal_push () ?j)
                        else j_records ?j)"
    by (rule journal_crash_recovery [OF unary_codec journal_ok_empty app])
      (simp_all add: empty_journal_def)
  then show ?thesis by (simp add: empty_journal_def empty_disk_def numeral_2_eq_2)
qed

text \<open>
  Closing and opening again gives back the same records, the same sequence counter and
  the same epochs; a second writer is refused while the journal is open.
\<close>

theorem journal_reopen:
  assumes codec: "codec_ok dumps loads" and ok: "journal_ok dumps j d" and op: "j_open j"
  shows "journal_init loads d = Inl JournalLocked
     \<and> (case journal_close j d of (jc, dc) \<Rightarrow> \<exists>d'. journal_init loads dc = Inr (j, d') \<and> d' = d)"
proof -
  have "parse_lines loads (encode_lines dumps (j_records j) @ [])
        = Inr (j_records j, length (encode_lines dumps (j_records j)))"
    by (rule parse_lines_encode [OF codec]) simp
  then show ?thesis using ok op
    by (simp add: journal_ok_def journal_init_def journal_close_def read_epochs_def)
qed

theorem journal_reopen_witness:
  "journal_init unary_loads empty_disk = Inl JournalLocked
   \<and> (case journal_close (empty_journal :: unit journal) empty_disk of (jc, dc) \<Rightarrow>
        \<exists>d'. journal_init unary_loads dc = Inr (empty_journal, d') \<and> d' = empty_disk)"
  by (rule journal_reopen [OF unary_codec journal_ok_empty]) (simp add: empty_journal_def)

section \<open>The durable compare-and-swap\<close>

lemma sorted_members_roundtrip:
  "sorted (members e) \<Longrightarrow> epochs_from_dict (epochs_to_dict e) = e"
  by (simp add: epochs_from_dict_def epochs_to_dict_def sorted_sort_id)

lemma compare_and_swap_succeeds:
  assumes "j_epochs j = read_epochs d"
  shows "(\<exists>r. compare_and_swap ec ef new j d = Inr r) \<longleftrightarrow>
      config_epoch (read_epochs d) = ec
      \<and> (ef = None \<or> ef = Some (fork_membership_epoch (read_epochs d)))
      \<and> ec \<le> config_epoch new"
  using assms by (cases ef) (auto simp: compare_and_swap_def Let_def)

lemma compare_and_swap_result:
  assumes ok: "journal_ok dumps j d" and srt: "sorted (members new)"
    and cas: "compare_and_swap ec ef new j d = Inr (j', d')"
  shows "journal_ok dumps j' d' \<and> read_epochs d' = new \<and> j_records j' = j_records j"
proof -
  have j': "j' = j\<lparr>j_epochs := new\<rparr>" "d' = d\<lparr>epochs_file := Some (epochs_to_dict new)\<rparr>"
    using cas by (auto simp: compare_and_swap_def Let_def split: if_splits)
  then have "read_epochs d' = new" using srt
    by (simp add: read_epochs_def sorted_members_roundtrip)
  then show ?thesis using ok j' by (auto simp: journal_ok_def)
qed

lemma compare_and_swap_stale:
  assumes "journal_ok dumps j d" and "ec < config_epoch (read_epochs d)"
  shows "compare_and_swap ec ef new j d
    = Inl (EpochConflict (config_epoch (read_epochs d)) (fork_membership_epoch (read_epochs d)))"
  using assms by (simp add: journal_ok_def compare_and_swap_def Let_def)

text \<open>
  \<open>Journal.compare_and_swap\<close> with sorted members: it succeeds exactly when the expected
  epochs are the durable ones and the configuration epoch does not go back; then every
  reader sees the new state, the journal stays in step with the file, and a second swap
  with the same expectation is refused once the epoch moved on.
\<close>

theorem compare_and_swap_commits:
  assumes ok: "journal_ok dumps j d" and srt: "sorted (members new)"
  shows "((\<exists>r. compare_and_swap ec ef new j d = Inr r) \<longleftrightarrow>
      config_epoch (read_epochs d) = ec
      \<and> (ef = None \<or> ef = Some (fork_membership_epoch (read_epochs d)))
      \<and> ec \<le> config_epoch new)
    \<and> (\<forall>j' d'. compare_and_swap ec ef new j d = Inr (j', d') \<longrightarrow>
      journal_ok dumps j' d' \<and> read_epochs d' = new \<and> j_records j' = j_records j
      \<and> (\<forall>ef' new'. ec < config_epoch new \<longrightarrow>
          compare_and_swap ec ef' new' j' d'
            = Inl (EpochConflict (config_epoch new) (fork_membership_epoch new))))"
proof -
  have same: "j_epochs j = read_epochs d" using ok by (simp add: journal_ok_def)
  show ?thesis
    using compare_and_swap_succeeds [OF same] compare_and_swap_result [OF assms]
      compare_and_swap_stale by metis
qed

theorem compare_and_swap_commits_witness:
  "\<exists>r. compare_and_swap 0 None (initial_epochs\<lparr>config_epoch := 1\<rparr>)
         (empty_journal :: unit journal) empty_disk = Inr r"
  using compare_and_swap_commits [OF journal_ok_empty [where dumps = unary_dumps],
      where new = "initial_epochs\<lparr>config_epoch := 1\<rparr>" and ec = 0 and ef = None]
  by (simp add: initial_epochs_def read_epochs_def empty_disk_def)

section \<open>The pool records\<close>

definition pool_set :: "pool_state \<Rightarrow> string set" where
  "pool_set s = set (pool_members s)"

lemma replay_pool_snoc:
  assumes "replay_pool False rs = Inr s"
  shows "replay_pool False (rs @ [r]) =
     rbind (rbind (rfold replay_pool1 rs empty_pool) (replay_pool1 r))
       (\<lambda>s. Inr (s\<lparr>pool_members := sort (pool_members s)\<rparr>))"
  by (cases "rfold replay_pool1 rs empty_pool"; cases "replay_pool1 r (projr (rfold replay_pool1 rs empty_pool))")
    (auto simp: replay_pool_def rfold_append)

text \<open>
  A \<open>pool_*\<close> record that \<open>append_pool_event\<close> accepts moves the replayed pool exactly as
  its kind says: a join adds the island, a leave removes it, and neither epoch ever goes
  backwards.
\<close>

theorem append_pool_event_moves:
  assumes cur: "replay_pool False (map e_body (j_records j)) = Inr s"
    and app: "append_pool_event dumps legacy tx pe island me j d = Inr (j', d')"
  shows "\<exists>s'. replay_pool False (map e_body (j_records j')) = Inr s'
     \<and> pool_set s' = (if tx = ''pool_join'' then insert (the island) (pool_set s)
                       else if tx = ''pool_leave'' then pool_set s - {the island}
                       else pool_set s)
     \<and> pool_epoch s' = Some pe
     \<and> (\<forall>e. pool_epoch s = Some e \<longrightarrow> e \<le> pe)
     \<and> membership_epoch s' = (if me = None then membership_epoch s else me)
     \<and> (\<forall>m c. me = Some m \<longrightarrow> membership_epoch s = Some c \<longrightarrow> c \<le> m)"
proof -
  let ?b = "\<lparr>p_kind = ''pool'', tx_kind = Some tx, island_id = island, p_pool_epoch = Some pe,
             p_membership_epoch = me\<rparr>"
  obtain u where u: "rfold replay_pool1 (map e_body (j_records j)) empty_pool = Inr u"
    and s: "s = u\<lparr>pool_members := sort (pool_members u)\<rparr>"
    using cur by (auto simp: replay_pool_def rbind_Inr_iff)
  have guards: "tx \<in> set pool_tx_kinds"
      "tx \<in> {''pool_join'', ''pool_leave''} \<Longrightarrow> island \<noteq> None"
      "\<forall>e. pool_epoch s = Some e \<longrightarrow> e \<le> pe"
      "\<forall>m c. me = Some m \<longrightarrow> membership_epoch s = Some c \<longrightarrow> c \<le> m"
    and rec: "map e_body (j_records j') = map e_body (j_records j) @ [?b]"
    using app cur
    by (auto simp: append_pool_event_def journal_append_def journal_push_def next_entry_def
        Let_def split: if_splits option.splits)
  have "replay_pool False (map e_body (j_records j')) =
     rbind (replay_pool1 ?b u) (\<lambda>s. Inr (s\<lparr>pool_members := sort (pool_members s)\<rparr>))"
    unfolding rec replay_pool_snoc [OF cur] by (simp add: u)
  then show ?thesis using guards s
    by (auto simp: replay_pool1_def pool_set_def pool_tx_kinds_def split: option.splits)
qed

definition pool_example_dumps :: "pool_body entry \<Rightarrow> bytes" where
  "pool_example_dumps r = []"

theorem append_pool_event_moves_witness:
  "\<exists>s'. replay_pool False (map e_body (j_records (journal_push
        \<lparr>p_kind = ''pool'', tx_kind = Some ''pool_join'', island_id = Some ''i0'',
         p_pool_epoch = Some 1, p_membership_epoch = None\<rparr> empty_journal))) = Inr s'
     \<and> pool_set s' = {''i0''} \<and> pool_epoch s' = Some 1"
proof -
  have cur: "replay_pool False (map e_body (j_records (empty_journal :: pool_body journal)))
      = Inr empty_pool"
    by (simp add: replay_pool_def empty_journal_def empty_pool_def)
  have app: "append_pool_event pool_example_dumps False ''pool_join'' 1 (Some ''i0'') None
      empty_journal empty_disk = Inr (journal_push
        \<lparr>p_kind = ''pool'', tx_kind = Some ''pool_join'', island_id = Some ''i0'',
         p_pool_epoch = Some 1, p_membership_epoch = None\<rparr> empty_journal,
        empty_disk\<lparr>journal_file := Some [newline]\<rparr>)"
    by (simp add: append_pool_event_def pool_tx_kinds_def cur empty_pool_def journal_append_def
        empty_disk_def pool_example_dumps_def) (simp add: empty_journal_def)
  show ?thesis using append_pool_event_moves [OF cur app] by (auto simp: pool_set_def empty_pool_def)
qed

end
