(* ===== verification/Batch_Ledger.thy ===== *)
theory Batch_Ledger
  imports Journal
begin

text \<open>
  The group / batch / update ledger (\<open>src/yeto/rl/engine/ledger.py\<close>): every batch moves
  \<open>prepared\<close>, \<open>optimizer_applied\<close>, \<open>outer_recorded\<close>, or ends as \<open>discarded\<close> or
  \<open>superseded\<close>; every transition is one journal record, and the object's state is what
  the replay of its records gives.  The theory models the records, the replay, every
  transition and query, and the ledger calls of one driver round, and shows that a restart
  rebuilds the state, that a group is trained at most once in a run of rounds, and that a
  restart never falls behind a recorded round.

  SHA-256 is an argument (\<open>sha\<close>) of the definitions that use it.
\<close>

section \<open>Data\<close>

datatype lstate = LPrepared | LOptimizerApplied | LOuterRecorded | LDiscarded | LSuperseded

datatype dval = DInt int | DStr string | DBool bool

type_synonym detail = "(string, dval) dict"
type_synonym cursor = "(string, int) dict"

record batch =
  b_rollout_id :: int
  b_attempt :: int
  b_hash :: string
  b_group_ids :: "string list"
  b_policy_token :: string
  b_state :: lstate
  b_filtered :: detail
  b_data_cursor :: "cursor option"

datatype ledger_record =
    RPrepared int int string "string list" string int "cursor option"
  | ROptimizerApplied int int string detail
  | ROuterRecorded int int string detail
  | RDiscarded int int string
  | RSuperseded int int int
  | RFiltered int "int option" "string list" detail
  | REngineDiscarded int int int string
  | RCarriedOverReport int int bool "int option" "int option"
  | RCarriedOver int "string list" string

datatype ledger_error =
    AlreadyTrained int "string list" int
  | AlreadyInState int lstate
  | NeverPrepared int
  | NotAllowed int lstate lstate
  | BehindRecorded int "int list"
  | NotCarried "string list"
  | ReplayKeyError int
  | LedgerClosed

record mem =
  m_batches :: "(int, batch) dict"
  m_consumed :: "(string, int) dict"
  m_carried :: "(string, int \<times> string) dict"
  m_last_report :: "int option \<times> int option"
  m_engine_discarded :: "(int, int) dict"

definition empty_mem :: mem where
  "empty_mem = \<lparr>m_batches = [], m_consumed = [], m_carried = [], m_last_report = (None, None),
     m_engine_discarded = []\<rparr>"

record ledger =
  l_mem :: mem
  l_journal :: "ledger_record journal"

text \<open>What the engine hands over: one group, and one rollout's batch.\<close>

record group =
  g_id :: string
  g_sample_ids :: "string list"
  g_filtered_samples :: "int option"

record rollout_batch =
  rb_rollout_id :: int
  rb_groups :: "group list"
  rb_data_cursor :: "cursor option"
  rb_filtered :: "int option"
  rb_aborted_in_flight :: "int option"
  rb_abort_mechanism :: "string option"
  rb_carried_over :: "int option"
  rb_buffer_length :: "int option"

section \<open>The batch hash\<close>

definition nul :: char where "nul = CHR 0x00"
definition soh :: char where "soh = CHR 0x01"

definition hash_input :: "string list \<Rightarrow> string list \<Rightarrow> string" where
  "hash_input group_ids sample_ids =
     ''yeto-rl-batch-v1'' @ [nul] @ concat (map (\<lambda>g. g @ [nul]) (sort group_ids))
     @ [soh] @ concat (map (\<lambda>s. s @ [nul]) (sort sample_ids))"

definition batch_hash :: "(string \<Rightarrow> string) \<Rightarrow> string list \<Rightarrow> string list \<Rightarrow> string" where
  "batch_hash sha group_ids sample_ids = sha (hash_input group_ids sample_ids)"

section \<open>Replay\<close>

definition set_state :: "int \<Rightarrow> lstate \<Rightarrow> mem \<Rightarrow> ledger_error + mem" where
  "set_state rid st m =
     (case dict_get (m_batches m) rid of
        None \<Rightarrow> Inl (ReplayKeyError rid)
      | Some b \<Rightarrow> Inr (m\<lparr>m_batches := dict_set rid (b\<lparr>b_state := st\<rparr>) (m_batches m)\<rparr>))"

definition groups_of :: "mem \<Rightarrow> int \<Rightarrow> string list" where
  "groups_of m rid = (case dict_get (m_batches m) rid of None \<Rightarrow> [] | Some b \<Rightarrow> b_group_ids b)"

text \<open>A cursor counts as reported only when it is not empty (\<open>if cursor\<close>).\<close>

definition given_cursor :: "cursor option \<Rightarrow> cursor option" where
  "given_cursor c = (case c of None \<Rightarrow> None | Some d \<Rightarrow> if d = [] then None else Some d)"

fun replay :: "ledger_record \<Rightarrow> mem \<Rightarrow> ledger_error + mem" where
  "replay (RPrepared rid att h gids token samples cur) m =
     Inr (m\<lparr>m_batches := dict_set rid
              \<lparr>b_rollout_id = rid, b_attempt = att, b_hash = h, b_group_ids = gids,
               b_policy_token = token, b_state = LPrepared, b_filtered = [],
               b_data_cursor = given_cursor cur\<rparr> (m_batches m),
            m_carried := dict_pop_all gids (m_carried m)\<rparr>)"
| "replay (RSuperseded rid att start) m =
     rbind (set_state rid LSuperseded m)
       (\<lambda>m'. Inr (m'\<lparr>m_consumed := dict_pop_all (groups_of m rid) (m_consumed m')\<rparr>))"
| "replay (ROptimizerApplied rid att h flds) m =
     rbind (set_state rid LOptimizerApplied m)
       (\<lambda>m'. Inr (m'\<lparr>m_consumed := dict_set_all (groups_of m rid) rid (m_consumed m')\<rparr>))"
| "replay (ROuterRecorded rid att h flds) m = set_state rid LOuterRecorded m"
| "replay (RDiscarded rid att err) m = set_state rid LDiscarded m"
| "replay (RFiltered rid att gids detail) m =
     Inr (m\<lparr>m_batches := (case dict_get (m_batches m) rid of
                None \<Rightarrow> m_batches m
              | Some b \<Rightarrow> dict_set rid (b\<lparr>b_filtered := detail\<rparr>) (m_batches m)),
            m_carried := dict_pop_all gids (m_carried m)\<rparr>)"
| "replay (REngineDiscarded rid att n mechanism) m =
     Inr (m\<lparr>m_engine_discarded := dict_set rid n (m_engine_discarded m)\<rparr>)"
| "replay (RCarriedOverReport rid att reported carried len) m =
     Inr (m\<lparr>m_last_report := (carried, len)\<rparr>)"
| "replay (RCarriedOver rid gids token) m =
     Inr (m\<lparr>m_carried := dict_set_all gids (rid, token) (m_carried m)\<rparr>)"

text \<open>\<open>self._journal.append(...)\<close> and \<open>self._replay(self._journal.records[-1])\<close>.\<close>

definition commit :: "ledger_record \<Rightarrow> ledger \<Rightarrow> ledger_error + ledger" where
  "commit r L =
     (if \<not> j_open (l_journal L) then Inl LedgerClosed
      else rbind (replay r (l_mem L))
        (\<lambda>m. Inr \<lparr>l_mem = m, l_journal = journal_push r (l_journal L)\<rparr>))"

definition open_ledger :: "ledger_record journal \<Rightarrow> ledger_error + ledger" where
  "open_ledger j =
     rbind (rfold replay (map e_body (j_records j)) empty_mem)
       (\<lambda>m. Inr \<lparr>l_mem = m, l_journal = j\<rparr>)"

definition ledger_close :: "ledger \<Rightarrow> disk \<Rightarrow> ledger \<times> disk" where
  "ledger_close L d = (case journal_close (l_journal L) d of (j, d') \<Rightarrow> (L\<lparr>l_journal := j\<rparr>, d'))"

section \<open>Queries\<close>

definition get_batch :: "ledger \<Rightarrow> int \<Rightarrow> batch option" where
  "get_batch L rid = dict_get (m_batches (l_mem L)) rid"

definition ledger_state :: "ledger \<Rightarrow> int \<Rightarrow> lstate option" where
  "ledger_state L rid = map_option b_state (get_batch L rid)"

definition batch_view :: "ledger \<Rightarrow> int \<Rightarrow> (batch \<times> int) option" where
  "batch_view L rid = map_option
     (\<lambda>b. (b, case dict_get (m_engine_discarded (l_mem L)) (b_rollout_id b) of
                 None \<Rightarrow> 0 | Some n \<Rightarrow> n)) (get_batch L rid)"

definition open_carried_over :: "ledger \<Rightarrow> (string, int \<times> string) dict" where
  "open_carried_over L = m_carried (l_mem L)"

definition restart_cursor :: "ledger \<Rightarrow> int \<Rightarrow> cursor option" where
  "restart_cursor L start =
     (if start \<le> 0 then None
      else (case get_batch L (start - 1) of
              None \<Rightarrow> None
            | Some b \<Rightarrow> if b_state b \<noteq> LOuterRecorded then None else b_data_cursor b))"

definition next_rollout_id :: "ledger \<Rightarrow> int" where
  "next_rollout_id L =
     (let done = map fst (filter (\<lambda>(r, b). b_state b \<in> {LOptimizerApplied, LOuterRecorded})
                   (m_batches (l_mem L)))
      in if done = [] then 0 else Max (set done) + 1)"

definition unconsumed :: "ledger \<Rightarrow> int list" where
  "unconsumed L = sort (map fst (filter (\<lambda>(r, b). b_state b = LPrepared) (m_batches (l_mem L))))"

record cut_summary =
  cs_ready_unconsumed :: int
  cs_ready_group_ids :: "string list"
  cs_carried_over :: int
  cs_carried_group_ids :: "string list"
  cs_engine_discarded :: int
  cs_engine_carried_over :: "int option"
  cs_engine_buffer_length :: "int option"
  cs_last_rollout_id :: "int option"
  cs_last_state :: "lstate option"

definition ledger_cut_summary :: "ledger \<Rightarrow> cut_summary" where
  "ledger_cut_summary L =
     (let m = l_mem L;
          ready = concat (map (groups_of m) (unconsumed L));
          last = (if m_batches m = [] then None else Some (Max (set (map fst (m_batches m)))))
      in \<lparr>cs_ready_unconsumed = int (length ready), cs_ready_group_ids = sort ready,
          cs_carried_over = int (length (m_carried m)),
          cs_carried_group_ids = sort (map fst (m_carried m)),
          cs_engine_discarded = sum_list (map snd (m_engine_discarded m)),
          cs_engine_carried_over = fst (m_last_report m),
          cs_engine_buffer_length = snd (m_last_report m),
          cs_last_rollout_id = last,
          cs_last_state = (case last of None \<Rightarrow> None | Some r \<Rightarrow> ledger_state L r)\<rparr>)"

section \<open>Transitions\<close>

definition batch_group_ids :: "rollout_batch \<Rightarrow> string list" where
  "batch_group_ids rb = map g_id (rb_groups rb)"

definition batch_sample_ids :: "rollout_batch \<Rightarrow> string list" where
  "batch_sample_ids rb =
     concat (map (\<lambda>g. map (\<lambda>s. g_id g @ ''/'' @ s) (g_sample_ids g)) (rb_groups rb))"

definition filter_detail :: "rollout_batch \<Rightarrow> detail" where
  "filter_detail rb =
     (case rb_filtered rb of None \<Rightarrow> []
      | Some n \<Rightarrow>
         [(''groups'', DInt n),
          (''mechanism'', DStr ''rollout_meta_hook.record_trained_groups''),
          (''reason'', DStr (''completed groups not trained this round: dynamic-filter drops ''
             @ ''and over-sampling surplus (not returned to the buffer)''))])
     @ (if list_ex (\<lambda>g. g_filtered_samples g \<noteq> None) (rb_groups rb)
        then [(''samples'', DInt (sum_list (map (\<lambda>g. case g_filtered_samples g of
                 None \<Rightarrow> 0 | Some n \<Rightarrow> n) (rb_groups rb)))),
              (''sample_mechanism'', DStr ''spec sample filter'')]
        else [])"

definition already_trained :: "ledger \<Rightarrow> rollout_batch \<Rightarrow> string list" where
  "already_trained L rb =
     sort (filter (\<lambda>g. dict_get (m_consumed (l_mem L)) g \<noteq> None) (batch_group_ids rb))"

definition abort_mechanism :: "rollout_batch \<Rightarrow> string" where
  "abort_mechanism rb =
     (case rb_abort_mechanism rb of
        Some mech \<Rightarrow> if mech = [] then ''engine abort (mechanism not reported)'' else mech
      | None \<Rightarrow> ''engine abort (mechanism not reported)'')"

text \<open>The records that \<open>prepare\<close> writes once its two guards have passed.\<close>

definition prepare_commits ::
    "(string \<Rightarrow> string) \<Rightarrow> rollout_batch \<Rightarrow> string \<Rightarrow> int \<Rightarrow> ledger \<Rightarrow> ledger_error + ledger" where
  "prepare_commits sha rb token attempt L =
     (let rid = rb_rollout_id rb; gids = batch_group_ids rb; sids = batch_sample_ids rb in
      rbind (commit (RPrepared rid attempt (batch_hash sha gids sids) gids token
               (int (length sids)) (given_cursor (rb_data_cursor rb))) L) (\<lambda>L.
      rbind (rwhen (filter_detail rb \<noteq> [])
               (commit (RFiltered rid (Some attempt) [] (filter_detail rb))) L) (\<lambda>L.
      rbind (case rb_aborted_in_flight rb of
               None \<Rightarrow> Inr L
             | Some n \<Rightarrow> rwhen (n \<noteq> 0)
                 (commit (REngineDiscarded rid attempt n (abort_mechanism rb))) L) (\<lambda>L.
      commit (RCarriedOverReport rid attempt (rb_carried_over rb \<noteq> None) (rb_carried_over rb)
                (rb_buffer_length rb)) L))))"

definition prepare ::
    "(string \<Rightarrow> string) \<Rightarrow> rollout_batch \<Rightarrow> string \<Rightarrow> ledger \<Rightarrow> ledger_error + string \<times> ledger" where
  "prepare sha rb token L =
     (let rid = rb_rollout_id rb; twice = already_trained L rb; previous = get_batch L rid in
      case twice of
        g # _ \<Rightarrow> Inl (AlreadyTrained rid twice (the (dict_get (m_consumed (l_mem L)) g)))
      | [] \<Rightarrow>
         (case previous of
            Some b \<Rightarrow>
              if b_state b \<notin> {LPrepared, LDiscarded, LSuperseded} then Inl (AlreadyInState rid (b_state b))
              else rbind (prepare_commits sha rb token (b_attempt b + 1) L)
                     (\<lambda>L. Inr (batch_hash sha (batch_group_ids rb) (batch_sample_ids rb), L))
          | None \<Rightarrow> rbind (prepare_commits sha rb token 0 L)
                     (\<lambda>L. Inr (batch_hash sha (batch_group_ids rb) (batch_sample_ids rb), L))))"

fun state_order :: "lstate \<Rightarrow> nat option" where
  "state_order LPrepared = Some 0"
| "state_order LOptimizerApplied = Some 1"
| "state_order LOuterRecorded = Some 2"
| "state_order LDiscarded = None"
| "state_order LSuperseded = None"

definition advance_record :: "lstate \<Rightarrow> int \<Rightarrow> batch \<Rightarrow> detail \<Rightarrow> ledger_record" where
  "advance_record to rid b flds =
     (if to = LOptimizerApplied then ROptimizerApplied rid (b_attempt b) (b_hash b) flds
      else ROuterRecorded rid (b_attempt b) (b_hash b) flds)"

text \<open>\<open>_advance\<close>; its two callers pass \<open>optimizer_applied\<close> or \<open>outer_recorded\<close>.\<close>

definition advance :: "int \<Rightarrow> lstate \<Rightarrow> detail \<Rightarrow> ledger \<Rightarrow> ledger_error + ledger" where
  "advance rid to flds L =
     (case get_batch L rid of
        None \<Rightarrow> Inl (NeverPrepared rid)
      | Some b \<Rightarrow>
         if b_state b = to then Inr L
         else (case (state_order (b_state b), state_order to) of
                 (Some old, Some new) \<Rightarrow>
                   if new \<noteq> old + 1 then Inl (NotAllowed rid (b_state b) to)
                   else commit (advance_record to rid b flds) L
               | _ \<Rightarrow> Inl (NotAllowed rid (b_state b) to)))"

definition optimizer_applied :: "int \<Rightarrow> detail \<Rightarrow> ledger \<Rightarrow> ledger_error + ledger" where
  "optimizer_applied rid flds L = advance rid LOptimizerApplied flds L"

definition outer_recorded :: "int \<Rightarrow> detail \<Rightarrow> ledger \<Rightarrow> ledger_error + ledger" where
  "outer_recorded rid flds L = advance rid LOuterRecorded flds L"

definition discard :: "int \<Rightarrow> string \<Rightarrow> ledger \<Rightarrow> ledger_error + ledger" where
  "discard rid err L =
     (case get_batch L rid of
        None \<Rightarrow> Inr L
      | Some b \<Rightarrow> if b_state b \<noteq> LPrepared then Inr L
                  else commit (RDiscarded rid (b_attempt b) err) L)"

definition rebase_ahead :: "int \<Rightarrow> int \<Rightarrow> ledger \<times> int list \<Rightarrow> ledger_error + ledger \<times> int list" where
  "rebase_ahead start rid = (\<lambda>(L, dropped).
     case get_batch L rid of
       None \<Rightarrow> Inl (ReplayKeyError rid)
     | Some b \<Rightarrow>
        if b_state b = LOptimizerApplied then
          rbind (commit (RSuperseded rid (b_attempt b) start) L) (\<lambda>L. Inr (L, dropped @ [rid]))
        else if b_state b = LPrepared then
          rbind (discard rid (''restart at rollout '' @ show_int start) L) (\<lambda>L. Inr (L, dropped))
        else Inr (L, dropped))"

definition rebase_below :: "int \<Rightarrow> int \<Rightarrow> ledger \<Rightarrow> ledger_error + ledger" where
  "rebase_below start rid L =
     (if ledger_state L rid = Some LOptimizerApplied
      then advance rid LOuterRecorded [(''recovered'', DBool True), (''restart_rollout_id'', DInt start)] L
      else Inr L)"

definition keys_where :: "(int \<Rightarrow> bool) \<Rightarrow> ledger \<Rightarrow> int list" where
  "keys_where P L = sort (filter P (map fst (m_batches (l_mem L))))"

definition rebase :: "int \<Rightarrow> ledger \<Rightarrow> ledger_error + int list \<times> ledger" where
  "rebase start L =
     (let ahead = keys_where (\<lambda>r. start \<le> r) L;
          recorded = filter (\<lambda>r. ledger_state L r = Some LOuterRecorded) ahead
      in if recorded \<noteq> [] then Inl (BehindRecorded start recorded)
         else rbind (rfold (rebase_ahead start) ahead (L, [])) (\<lambda>(L, dropped).
              rbind (rfold (rebase_below start) (keys_where (\<lambda>r. r < start) L) L) (\<lambda>L.
              Inr (dropped, L))))"

definition carried_over :: "int \<Rightarrow> string list \<Rightarrow> string \<Rightarrow> ledger \<Rightarrow> ledger_error + ledger" where
  "carried_over rid gids token L = commit (RCarriedOver rid (sort gids) token) L"

definition filter_carried :: "string list \<Rightarrow> string \<Rightarrow> string \<Rightarrow> ledger \<Rightarrow> ledger_error + ledger" where
  "filter_carried gids reason mechanism L =
     (let ids = sort gids; unknown = filter (\<lambda>g. dict_get (m_carried (l_mem L)) g = None) ids
      in if unknown \<noteq> [] then Inl (NotCarried unknown)
         else commit (RFiltered (-1) None ids
                [(''reason'', DStr reason), (''mechanism'', DStr mechanism)]) L)"

text \<open>
  The ledger calls of one driver round (\<open>IslandDriver.run_round\<close> and \<open>_train_round\<close>): the
  batch is prepared; the round then fails before the optimizer step, after it, or returns
  from the sync boundary; or the process is killed right after \<open>prepare\<close>.
\<close>

datatype round_outcome = FailedBeforeStep string | FailedAfterStep | Recorded | Killed

definition run_round ::
    "(string \<Rightarrow> string) \<Rightarrow> rollout_batch \<Rightarrow> string \<Rightarrow> detail \<Rightarrow> round_outcome \<Rightarrow> ledger \<Rightarrow>
     ledger_error + ledger" where
  "run_round sha rb token flds out L =
     (let rid = rb_rollout_id rb in
      rbind (prepare sha rb token L) (\<lambda>(h, L).
      case out of
        Killed \<Rightarrow> Inr L
      | FailedBeforeStep err \<Rightarrow>
          if ledger_state L rid = Some LPrepared then discard rid err L else Inr L
      | FailedAfterStep \<Rightarrow> optimizer_applied rid flds L
      | Recorded \<Rightarrow>
          rbind (optimizer_applied rid flds L) (\<lambda>L.
          outer_recorded rid [(''next_policy_version'', DInt (rid + 1))] L)))"

text \<open>A new process: the ledger is opened from the journal and aligned with the restart point.\<close>

definition restart_at :: "int \<Rightarrow> ledger \<Rightarrow> ledger_error + ledger" where
  "restart_at start L =
     rbind (open_ledger (l_journal L)) (\<lambda>L. rbind (rebase start L) (\<lambda>(dropped, L). Inr L))"

section \<open>The ledger is what its journal replays to\<close>

lemma commit_Inr:
  "commit r L = Inr L' \<longleftrightarrow> j_open (l_journal L) \<and> replay r (l_mem L) = Inr (l_mem L')
     \<and> l_journal L' = journal_push r (l_journal L)"
  by (cases L') (auto simp: commit_def rbind_Inr_iff)

abbreviation ledger_log :: "ledger \<Rightarrow> ledger_record list" where
  "ledger_log L \<equiv> map e_body (j_records (l_journal L))"

interpretation lj: journaled replay empty_mem commit l_mem ledger_log
  by unfold_locales (auto simp: commit_Inr journal_push_def next_entry_def)

lemma rwhen_extends: "rwhen c (commit r) L = Inr L' \<Longrightarrow> lj.extends L L'"
  by (auto simp: rwhen_def intro: lj.commit_extends split: if_splits)

lemma prepare_commits_extends:
  assumes "prepare_commits sha rb token att L = Inr L'"
  shows "lj.extends L L'"
proof -
  obtain L1 L2 L3 where "lj.extends L L1" "lj.extends L1 L2" "lj.extends L2 L3" "lj.extends L3 L'"
    using assms unfolding prepare_commits_def Let_def
    by (auto simp: rbind_Inr_iff split: option.splits
        dest!: lj.commit_extends rwhen_extends)
  then show ?thesis using lj.extends_trans by blast
qed

lemma prepare_Inr:
  "prepare sha rb token L = Inr (h, L') \<longleftrightarrow>
     already_trained L rb = []
     \<and> (case get_batch L (rb_rollout_id rb) of None \<Rightarrow> True
        | Some b \<Rightarrow> b_state b \<in> {LPrepared, LDiscarded, LSuperseded})
     \<and> h = batch_hash sha (batch_group_ids rb) (batch_sample_ids rb)
     \<and> prepare_commits sha rb token
         (case get_batch L (rb_rollout_id rb) of None \<Rightarrow> 0 | Some b \<Rightarrow> b_attempt b + 1) L = Inr L'"
  by (auto simp: prepare_def Let_def rbind_Inr_iff split: list.splits option.splits)

lemma prepare_extends: "prepare sha rb token L = Inr (h, L') \<Longrightarrow> lj.extends L L'"
  by (auto simp: prepare_Inr intro: prepare_commits_extends)

lemma advance_extends: "advance rid to flds L = Inr L' \<Longrightarrow> lj.extends L L'"
  by (auto simp: advance_def intro: lj.commit_extends split: option.splits if_splits)

lemma discard_extends: "discard rid err L = Inr L' \<Longrightarrow> lj.extends L L'"
  by (auto simp: discard_def intro: lj.commit_extends split: option.splits if_splits)

lemma rebase_ahead_extends: "rebase_ahead start rid (L, s) = Inr (L', s') \<Longrightarrow> lj.extends L L'"
  by (auto simp: rebase_ahead_def rbind_Inr_iff intro: lj.commit_extends discard_extends
      split: option.splits if_splits)

lemma rebase_ahead_fold_extends:
  "rfold (rebase_ahead start) rids (L, s) = Inr (L', s') \<Longrightarrow> lj.extends L L'"
proof (induction rids arbitrary: L s)
  case (Cons r rids)
  then obtain L1 s1 where "rebase_ahead start r (L, s) = Inr (L1, s1)"
    "rfold (rebase_ahead start) rids (L1, s1) = Inr (L', s')"
    by (auto simp: rbind_Inr_iff)
  then show ?case using Cons.IH rebase_ahead_extends lj.extends_trans by blast
qed simp

lemma rebase_below_extends: "rebase_below start rid L = Inr L' \<Longrightarrow> lj.extends L L'"
  by (auto simp: rebase_below_def intro: advance_extends split: if_splits)

lemma rebase_Inr:
  "rebase start L = Inr (dropped, L') \<longleftrightarrow>
     (\<forall>r \<in> set (keys_where (\<lambda>r. start \<le> r) L). ledger_state L r \<noteq> Some LOuterRecorded)
     \<and> (\<exists>L1. rfold (rebase_ahead start) (keys_where (\<lambda>r. start \<le> r) L) (L, []) = Inr (L1, dropped)
         \<and> rfold (rebase_below start) (keys_where (\<lambda>r. r < start) L1) L1 = Inr L')"
  by (auto simp: rebase_def Let_def rbind_Inr_iff filter_empty_conv)

lemma rebase_extends: "rebase start L = Inr (dropped, L') \<Longrightarrow> lj.extends L L'"
  unfolding rebase_Inr
  using rebase_ahead_fold_extends lj.fold_extends rebase_below_extends lj.extends_trans by blast

lemma run_round_extends: "run_round sha rb token flds out L = Inr L' \<Longrightarrow> lj.extends L L'"
  unfolding run_round_def Let_def optimizer_applied_def outer_recorded_def
  by (cases out) (auto simp: rbind_Inr_iff split: if_splits
      dest!: prepare_extends advance_extends discard_extends intro: lj.extends_trans)

lemma open_ledger_iff: "open_ledger (l_journal L) = Inr L \<longleftrightarrow> lj.in_sync L"
  by (cases L) (auto simp: open_ledger_def lj.in_sync_def rbind_Inr_iff)

section \<open>The consumed groups are exactly the groups of the trained batches\<close>

definition trained :: "lstate \<Rightarrow> bool" where
  "trained st \<longleftrightarrow> st = LOptimizerApplied \<or> st = LOuterRecorded"

lemma trained_simps [simp]:
  "trained LOptimizerApplied" "trained LOuterRecorded"
  "\<not> trained LPrepared" "\<not> trained LDiscarded" "\<not> trained LSuperseded"
  by (simp_all add: trained_def)

definition holds :: "mem \<Rightarrow> string \<Rightarrow> int \<Rightarrow> bool" where
  "holds m g r \<longleftrightarrow> (case dict_get (m_batches m) r of None \<Rightarrow> False
     | Some b \<Rightarrow> trained (b_state b) \<and> g \<in> set (b_group_ids b))"

definition mem_inv :: "mem \<Rightarrow> bool" where
  "mem_inv m \<longleftrightarrow> dict_ok (m_batches m)
     \<and> (\<forall>g r. dict_get (m_consumed m) g = Some r \<longleftrightarrow> holds m g r)"

definition batch_trained :: "mem \<Rightarrow> int \<Rightarrow> bool" where
  "batch_trained m r \<longleftrightarrow> (case dict_get (m_batches m) r of None \<Rightarrow> False
     | Some b \<Rightarrow> trained (b_state b))"

fun replay_ok :: "ledger_record \<Rightarrow> mem \<Rightarrow> bool" where
  "replay_ok (RPrepared rid att h gids token samples cur) m = (\<not> batch_trained m rid)"
| "replay_ok (RSuperseded rid att start) m = batch_trained m rid"
| "replay_ok (ROptimizerApplied rid att h flds) m =
     (\<forall>g \<in> set (groups_of m rid). dict_get (m_consumed m) g = None)"
| "replay_ok (ROuterRecorded rid att h flds) m = batch_trained m rid"
| "replay_ok (RDiscarded rid att err) m = (\<not> batch_trained m rid)"
| "replay_ok _ m = True"

lemma mem_inv_empty: "mem_inv empty_mem"
  by (simp add: mem_inv_def empty_mem_def holds_def)

lemma set_state_Inr:
  "set_state rid st m = Inr m' \<longleftrightarrow> (\<exists>b. dict_get (m_batches m) rid = Some b
     \<and> m' = m\<lparr>m_batches := dict_set rid (b\<lparr>b_state := st\<rparr>) (m_batches m)\<rparr>)"
  by (auto simp: set_state_def split: option.splits)

lemma holds_set [simp]:
  "holds (m\<lparr>m_batches := dict_set rid b (m_batches m)\<rparr>) g r =
     (if r = rid then trained (b_state b) \<and> g \<in> set (b_group_ids b) else holds m g r)"
  by (auto simp: holds_def)

lemma holds_cong [simp]:
  "holds (m\<lparr>m_consumed := c\<rparr>) = holds m" "holds (m\<lparr>m_carried := d\<rparr>) = holds m"
  "holds (m\<lparr>m_last_report := e\<rparr>) = holds m" "holds (m\<lparr>m_engine_discarded := f\<rparr>) = holds m"
  by (simp_all add: holds_def fun_eq_iff)

lemma holds_at: "dict_get (m_batches m) r = Some b \<Longrightarrow>
    holds m g r \<longleftrightarrow> trained (b_state b) \<and> g \<in> set (b_group_ids b)"
  by (simp add: holds_def)

lemma mem_inv_unique: "mem_inv m \<Longrightarrow> holds m g r \<Longrightarrow> holds m g r' \<Longrightarrow> r = r'"
  unfolding mem_inv_def by (metis option.inject)

lemma replay_superseded_inv:
  assumes inv: "mem_inv m" and ok: "batch_trained m rid"
    and rep: "replay (RSuperseded rid att start) m = Inr m'"
  shows "mem_inv m'"
proof -
  obtain b where b: "dict_get (m_batches m) rid = Some b" and tr: "trained (b_state b)"
    using ok by (auto simp: batch_trained_def split: option.splits)
  have m': "m' = m\<lparr>m_batches := dict_set rid (b\<lparr>b_state := LSuperseded\<rparr>) (m_batches m),
      m_consumed := dict_pop_all (b_group_ids b) (m_consumed m)\<rparr>"
    using rep b by (auto simp: set_state_Inr rbind_Inr_iff groups_of_def)
  have "holds m g rid" if "g \<in> set (b_group_ids b)" for g
    using b tr that by (simp add: holds_at)
  then have only: "holds m g r \<Longrightarrow> g \<in> set (b_group_ids b) \<Longrightarrow> r = rid" for g r
    using mem_inv_unique [OF inv] by blast
  have "dict_get (m_consumed m') g = Some r \<longleftrightarrow> holds m' g r" for g r
    using inv only holds_at [OF b] by (auto simp: m' mem_inv_def)
  then show ?thesis using inv by (simp add: mem_inv_def m')
qed

lemma replay_applied_inv:
  assumes inv: "mem_inv m" and free: "\<forall>g \<in> set (groups_of m rid). dict_get (m_consumed m) g = None"
    and rep: "replay (ROptimizerApplied rid att h flds) m = Inr m'"
  shows "mem_inv m'"
proof -
  obtain b where b: "dict_get (m_batches m) rid = Some b"
    and m': "m' = m\<lparr>m_batches := dict_set rid (b\<lparr>b_state := LOptimizerApplied\<rparr>) (m_batches m),
      m_consumed := dict_set_all (b_group_ids b) rid (m_consumed m)\<rparr>"
    using rep by (auto simp: set_state_Inr rbind_Inr_iff groups_of_def)
  have none: "\<not> holds m g r" if "g \<in> set (b_group_ids b)" for g r
    using inv free b that unfolding mem_inv_def by (metis groups_of_def option.case(2) option.distinct(1))
  have "dict_get (m_consumed m') g = Some r \<longleftrightarrow> holds m' g r" for g r
    using inv none holds_at [OF b] by (auto simp: m' mem_inv_def)
  then show ?thesis using inv by (simp add: mem_inv_def m')
qed

lemma replay_mem_inv:
  assumes inv: "mem_inv m" and "replay_ok r m" and "replay r m = Inr m'"
  shows "mem_inv m'"
proof -
  have cons: "dict_get (m_consumed m) g = Some r' \<longleftrightarrow> holds m g r'" for g r'
    using inv by (simp add: mem_inv_def)
  have ok: "dict_ok (m_batches m)" using inv by (simp add: mem_inv_def)
  show ?thesis
  proof (cases r)
    case RSuperseded
    then show ?thesis using assms replay_superseded_inv by simp
  next
    case ROptimizerApplied
    then show ?thesis using assms replay_applied_inv by simp
  qed (use assms in \<open>auto simp: mem_inv_def cons ok holds_at set_state_Inr batch_trained_def
        holds_def [of m] split: option.splits if_splits\<close>)
qed

lemma commit_mem_inv:
  "mem_inv (l_mem L) \<Longrightarrow> replay_ok r (l_mem L) \<Longrightarrow> commit r L = Inr L' \<Longrightarrow> mem_inv (l_mem L')"
  by (auto simp: commit_Inr intro: replay_mem_inv)

lemma rwhen_commit_mem_inv:
  "mem_inv (l_mem L) \<Longrightarrow> replay_ok r (l_mem L) \<Longrightarrow> rwhen c (commit r) L = Inr L' \<Longrightarrow> mem_inv (l_mem L')"
  by (auto simp: rwhen_def intro: commit_mem_inv split: if_splits)

abbreviation ledger_inv :: "ledger \<Rightarrow> bool" where
  "ledger_inv L \<equiv> mem_inv (l_mem L)"

lemma get_batch_trained:
  "get_batch L r = Some b \<Longrightarrow> batch_trained (l_mem L) r = trained (b_state b)"
  by (simp add: get_batch_def batch_trained_def)

text \<open>Records that only keep counts: they change no state, no group and no consumption.\<close>

definition batch_core :: "batch \<Rightarrow> batch" where
  "batch_core b = b\<lparr>b_filtered := []\<rparr>"

definition quiet :: "ledger \<Rightarrow> ledger \<Rightarrow> bool" where
  "quiet L L' \<longleftrightarrow> m_consumed (l_mem L') = m_consumed (l_mem L)
     \<and> (dict_ok (m_batches (l_mem L)) \<longrightarrow> dict_ok (m_batches (l_mem L')))
     \<and> (\<forall>r. map_option batch_core (get_batch L' r) = map_option batch_core (get_batch L r))"

fun bookkeeping :: "ledger_record \<Rightarrow> bool" where
  "bookkeeping (RFiltered _ _ _ _) = True"
| "bookkeeping (REngineDiscarded _ _ _ _) = True"
| "bookkeeping (RCarriedOverReport _ _ _ _ _) = True"
| "bookkeeping (RCarriedOver _ _ _) = True"
| "bookkeeping _ = False"

lemma quiet_refl: "quiet L L"
  by (simp add: quiet_def)

lemma quiet_trans: "quiet A B \<Longrightarrow> quiet B C \<Longrightarrow> quiet A C"
  by (simp add: quiet_def)

lemma commit_quiet: "bookkeeping r \<Longrightarrow> commit r L = Inr L' \<Longrightarrow> quiet L L'"
  by (cases r) (auto simp: commit_Inr quiet_def get_batch_def batch_core_def dest!: sym [of _ "l_mem L'"]
      split: option.splits)

lemma rwhen_commit_quiet: "bookkeeping r \<Longrightarrow> rwhen c (commit r) L = Inr L' \<Longrightarrow> quiet L L'"
  by (auto simp: rwhen_def intro: commit_quiet quiet_refl split: if_splits)

lemma quiet_batch:
  assumes "quiet L L'" and "get_batch L r = Some b"
  obtains b' where "get_batch L' r = Some b'" "batch_core b' = batch_core b"
proof -
  have "map_option batch_core (get_batch L' r) = Some (batch_core b)"
    using assms by (simp add: quiet_def)
  then show ?thesis using that by auto
qed

lemma batch_core_fields:
  "batch_core b = batch_core b' \<Longrightarrow> b_state b = b_state b' \<and> b_group_ids b = b_group_ids b'
     \<and> b_attempt b = b_attempt b' \<and> b_data_cursor b = b_data_cursor b'"
  by (cases b; cases b') (simp add: batch_core_def)

lemma quiet_holds: "quiet L L' \<Longrightarrow> holds (l_mem L') = holds (l_mem L)"
proof (intro ext)
  fix g r assume q: "quiet L L'"
  have view: "holds (l_mem M) g r \<longleftrightarrow> (\<exists>b. map_option batch_core (get_batch M r) = Some b
      \<and> trained (b_state b) \<and> g \<in> set (b_group_ids b))" for M
    by (auto simp: holds_def get_batch_def batch_core_def split: option.splits)
  show "holds (l_mem L') g r = holds (l_mem L) g r"
    using q by (simp add: view quiet_def)
qed

lemma quiet_inv: "quiet L L' \<Longrightarrow> ledger_inv L \<Longrightarrow> ledger_inv L'"
  using quiet_holds [of L L'] by (simp add: mem_inv_def quiet_def)

definition prepared_record :: "(string \<Rightarrow> string) \<Rightarrow> rollout_batch \<Rightarrow> string \<Rightarrow> int \<Rightarrow> ledger_record" where
  "prepared_record sha rb token att =
     RPrepared (rb_rollout_id rb) att (batch_hash sha (batch_group_ids rb) (batch_sample_ids rb))
       (batch_group_ids rb) token (int (length (batch_sample_ids rb)))
       (given_cursor (rb_data_cursor rb))"

lemma prepare_commits_split:
  assumes "prepare_commits sha rb token att L = Inr L'"
  obtains L1 where "commit (prepared_record sha rb token att) L = Inr L1" "quiet L1 L'"
proof -
  obtain L1 L2 L3 where "commit (prepared_record sha rb token att) L = Inr L1"
    and "quiet L1 L2" and "quiet L2 L3" and "quiet L3 L'"
    using assms unfolding prepare_commits_def Let_def prepared_record_def
    by (cases "rb_aborted_in_flight rb")
      (force simp: rbind_Inr_iff intro: quiet_refl dest: rwhen_commit_quiet [rotated] commit_quiet [rotated])+
  then show ?thesis using that quiet_trans by blast
qed

lemma prepare_commits_effect:
  assumes "prepare_commits sha rb token att L = Inr L'"
  shows "m_consumed (l_mem L') = m_consumed (l_mem L)
    \<and> (\<exists>b. get_batch L' (rb_rollout_id rb) = Some b \<and> b_state b = LPrepared
          \<and> b_group_ids b = batch_group_ids rb \<and> b_attempt b = att)"
proof -
  obtain L1 where 1: "commit (prepared_record sha rb token att) L = Inr L1" and q: "quiet L1 L'"
    using prepare_commits_split [OF assms] .
  have mem1: "m_consumed (l_mem L1) = m_consumed (l_mem L)"
    using 1 by (auto simp: commit_Inr prepared_record_def dest!: sym [of _ "l_mem L1"])
  obtain b where "get_batch L1 (rb_rollout_id rb) = Some b" "b_state b = LPrepared"
      "b_group_ids b = batch_group_ids rb" "b_attempt b = att"
    using 1 by (auto simp: commit_Inr prepared_record_def get_batch_def dest!: sym [of _ "l_mem L1"])
  then obtain b' where "get_batch L' (rb_rollout_id rb) = Some b'" "b_state b' = LPrepared"
      "b_group_ids b' = batch_group_ids rb" "b_attempt b' = att"
    using quiet_batch [OF q] batch_core_fields by metis
  then show ?thesis using q mem1 by (simp add: quiet_def)
qed

lemma prepare_commits_inv:
  assumes inv: "ledger_inv L" and new: "\<not> batch_trained (l_mem L) (rb_rollout_id rb)"
    and pc: "prepare_commits sha rb token att L = Inr L'"
  shows "ledger_inv L'"
proof -
  obtain L1 where 1: "commit (prepared_record sha rb token att) L = Inr L1" and q: "quiet L1 L'"
    using prepare_commits_split [OF pc] .
  have "ledger_inv L1" by (rule commit_mem_inv [OF inv _ 1]) (simp add: prepared_record_def new)
  then show ?thesis using quiet_inv q by blast
qed

lemma prepare_fresh:
  assumes "prepare sha rb token L = Inr (h, L')"
  shows "(\<forall>g \<in> set (batch_group_ids rb). dict_get (m_consumed (l_mem L)) g = None)
     \<and> \<not> batch_trained (l_mem L) (rb_rollout_id rb)"
proof -
  have "already_trained L rb = []" using assms by (simp add: prepare_Inr)
  then have "filter (\<lambda>g. dict_get (m_consumed (l_mem L)) g \<noteq> None) (batch_group_ids rb) = []"
    unfolding already_trained_def by (metis mset_sort mset_zero_iff)
  moreover have "\<not> batch_trained (l_mem L) (rb_rollout_id rb)"
    using assms by (auto simp: prepare_Inr batch_trained_def get_batch_def split: option.splits)
  ultimately show ?thesis by (auto simp: filter_empty_conv)
qed

lemma prepare_inv: "ledger_inv L \<Longrightarrow> prepare sha rb token L = Inr (h, L') \<Longrightarrow> ledger_inv L'"
  using prepare_fresh prepare_commits_inv unfolding prepare_Inr by metis

lemma prepare_batch:
  assumes "prepare sha rb token L = Inr (h, L')"
  obtains b where "get_batch L' (rb_rollout_id rb) = Some b" "b_state b = LPrepared"
    "b_group_ids b = batch_group_ids rb" "m_consumed (l_mem L') = m_consumed (l_mem L)"
  using assms prepare_commits_effect unfolding prepare_Inr by metis

lemma advance_Inr:
  "advance rid to flds L = Inr L' \<longleftrightarrow> (\<exists>b. get_batch L rid = Some b \<and>
     (b_state b = to \<and> L' = L
      \<or> (to, b_state b) \<in> {(LOptimizerApplied, LPrepared), (LOuterRecorded, LOptimizerApplied)}
        \<and> commit (advance_record to rid b flds) L = Inr L'))"
proof (cases "get_batch L rid")
  case (Some b)
  then show ?thesis by (cases to; cases "b_state b") (auto simp: advance_def)
qed (simp add: advance_def)

lemma advance_inv:
  assumes "ledger_inv L" and adv: "advance rid to flds L = Inr L'"
    and "to = LOptimizerApplied \<longrightarrow>
      (\<forall>g \<in> set (groups_of (l_mem L) rid). dict_get (m_consumed (l_mem L)) g = None)"
  shows "ledger_inv L'"
proof -
  obtain b where b: "get_batch L rid = Some b" and "L' = L
      \<or> (to, b_state b) \<in> {(LOptimizerApplied, LPrepared), (LOuterRecorded, LOptimizerApplied)}
        \<and> commit (advance_record to rid b flds) L = Inr L'"
    using adv by (auto simp: advance_Inr)
  then consider "L' = L" | "replay_ok (advance_record to rid b flds) (l_mem L)"
      "commit (advance_record to rid b flds) L = Inr L'"
    using assms(3) by (auto simp: advance_record_def get_batch_trained)
  then show ?thesis using assms(1) commit_mem_inv by cases blast+
qed

lemma discard_inv: "ledger_inv L \<Longrightarrow> discard rid err L = Inr L' \<Longrightarrow> ledger_inv L'"
  by (auto simp: discard_def get_batch_trained split: option.splits if_splits
      elim!: commit_mem_inv [rotated 2])

lemma run_round_inv:
  assumes "ledger_inv L" and rr: "run_round sha rb token flds out L = Inr L'"
  shows "ledger_inv L'"
proof -
  let ?rid = "rb_rollout_id rb"
  obtain h L1 where p: "prepare sha rb token L = Inr (h, L1)"
    using rr by (auto simp: run_round_def Let_def rbind_Inr_iff)
  have inv1: "ledger_inv L1" using prepare_inv assms(1) p by blast
  obtain b where "get_batch L1 ?rid = Some b" "b_group_ids b = batch_group_ids rb"
    "m_consumed (l_mem L1) = m_consumed (l_mem L)" using prepare_batch [OF p] .
  then have free: "\<forall>g \<in> set (groups_of (l_mem L1) ?rid). dict_get (m_consumed (l_mem L1)) g = None"
    using prepare_fresh [OF p] by (simp add: groups_of_def get_batch_def)
  have applied: "ledger_inv L2" if "optimizer_applied ?rid flds L1 = Inr L2" for L2
    using advance_inv [OF inv1, of ?rid LOptimizerApplied] free that
    by (simp add: optimizer_applied_def)
  show ?thesis
  proof (cases out)
    case Recorded
    then obtain L2 where "optimizer_applied ?rid flds L1 = Inr L2"
      "outer_recorded ?rid [(''next_policy_version'', DInt (?rid + 1))] L2 = Inr L'"
      using rr p by (auto simp: run_round_def Let_def rbind_Inr_iff)
    then show ?thesis using applied advance_inv by (metis lstate.distinct(9) outer_recorded_def)
  qed (use rr p inv1 applied discard_inv in
      \<open>auto simp: run_round_def Let_def rbind_Inr_iff split: if_splits\<close>)
qed

lemma rebase_ahead_inv:
  "ledger_inv L \<Longrightarrow> rebase_ahead start rid (L, s) = Inr (L', s') \<Longrightarrow> ledger_inv L'"
  by (auto simp: rebase_ahead_def rbind_Inr_iff get_batch_trained
      intro: discard_inv split: option.splits if_splits elim!: commit_mem_inv [rotated 2])

lemma rebase_inv:
  assumes "ledger_inv L" and "rebase start L = Inr (dropped, L')"
  shows "ledger_inv L'"
proof -
  obtain L1 where 1: "rfold (rebase_ahead start) (keys_where (\<lambda>r. start \<le> r) L) (L, [])
        = Inr (L1, dropped)"
    and 2: "rfold (rebase_below start) (keys_where (\<lambda>r. r < start) L1) L1 = Inr L'"
    using assms(2) by (auto simp: rebase_Inr)
  have "ledger_inv (fst (L1, dropped))"
  proof (rule rfold_invariant [OF 1, where I = "\<lambda>p. ledger_inv (fst p)"])
    show "ledger_inv (fst (L, []))" using assms(1) by simp
    show "ledger_inv (fst q)" if "ledger_inv (fst p)" "rebase_ahead start x p = Inr q" for x p q
      using that rebase_ahead_inv by (metis prod.collapse)
  qed
  then have "ledger_inv L1" by simp
  with 2 show ?thesis
  proof (rule rfold_invariant [where I = ledger_inv])
    show "ledger_inv B" if "ledger_inv A" "rebase_below start x A = Inr B" for x A B
      using that advance_inv [of A x LOuterRecorded] by (auto simp: rebase_below_def split: if_splits)
  qed
qed

section \<open>Runs of the driver\<close>

text \<open>
  What happens to one island's ledger: rounds, carried-over and filtered groups, and
  restarts of the process at a restart point given by the outer sync.
\<close>

inductive ledger_step :: "(string \<Rightarrow> string) \<Rightarrow> ledger \<Rightarrow> ledger \<Rightarrow> bool" for sha where
  round: "run_round sha rb token flds out L = Inr L' \<Longrightarrow> ledger_step sha L L'"
| carry: "carried_over rid gids token L = Inr L' \<Longrightarrow> ledger_step sha L L'"
| drop_carried: "filter_carried gids reason mechanism L = Inr L' \<Longrightarrow> ledger_step sha L L'"
| restart: "restart_at start L = Inr L' \<Longrightarrow> ledger_step sha L L'"

inductive ledger_run :: "(string \<Rightarrow> string) \<Rightarrow> ledger \<Rightarrow> bool" for sha where
  fresh: "ledger_run sha \<lparr>l_mem = empty_mem, l_journal = empty_journal\<rparr>"
| step: "ledger_run sha L \<Longrightarrow> ledger_step sha L L' \<Longrightarrow> ledger_run sha L'"

lemma carried_over_quiet: "carried_over rid gids token L = Inr L' \<Longrightarrow> quiet L L' \<and> lj.extends L L'"
  by (auto simp: carried_over_def intro: lj.commit_extends elim!: commit_quiet [rotated])

lemma filter_carried_quiet:
  "filter_carried gids reason mechanism L = Inr L' \<Longrightarrow> quiet L L' \<and> lj.extends L L'"
  by (auto simp: filter_carried_def Let_def intro: lj.commit_extends elim!: commit_quiet [rotated]
      split: if_splits)

lemma restart_at_in_sync:
  assumes "lj.in_sync L" and "restart_at start L = Inr L'"
  obtains dropped where "rebase start L = Inr (dropped, L')"
proof -
  have "open_ledger (l_journal L) = Inr L" using assms(1) by (simp add: open_ledger_iff)
  then show ?thesis using assms(2) that by (auto simp: restart_at_def rbind_Inr_iff)
qed

lemma ledger_step_ok:
  assumes "ledger_step sha L L'" and ok: "lj.in_sync L" "ledger_inv L"
  shows "lj.extends L L' \<and> ledger_inv L'"
  using assms(1)
proof cases
  case (round rb token flds out)
  then show ?thesis using run_round_extends run_round_inv ok by blast
next
  case (carry rid gids token)
  then show ?thesis using carried_over_quiet quiet_inv ok by blast
next
  case (drop_carried gids reason mechanism)
  then show ?thesis using filter_carried_quiet quiet_inv ok by blast
next
  case (restart start)
  obtain dropped where "rebase start L = Inr (dropped, L')"
    using restart_at_in_sync [OF ok(1) restart] .
  then show ?thesis using rebase_extends rebase_inv ok by blast
qed

lemma ledger_run_ok: "ledger_run sha L \<Longrightarrow> lj.in_sync L \<and> ledger_inv L"
proof (induction rule: ledger_run.induct)
  case fresh
  show ?case by (simp add: lj.in_sync_def empty_journal_def mem_inv_empty)
next
  case (step L L')
  then show ?case using ledger_step_ok lj.extends_in_sync by blast
qed

text \<open>A concrete run for the witnesses: two rounds, the first recorded, the second applied.\<close>

definition ex_batch :: "int \<Rightarrow> string \<Rightarrow> rollout_batch" where
  "ex_batch rid g = \<lparr>rb_rollout_id = rid,
     rb_groups = [\<lparr>g_id = g, g_sample_ids = [''s0''], g_filtered_samples = None\<rparr>],
     rb_data_cursor = Some [(''epoch'', 0)], rb_filtered = Some 1, rb_aborted_in_flight = None,
     rb_abort_mechanism = None, rb_carried_over = Some 0, rb_buffer_length = Some 0\<rparr>"

definition fresh_ledger :: ledger where
  "fresh_ledger = \<lparr>l_mem = empty_mem, l_journal = empty_journal\<rparr>"

definition ex_ledger1 :: ledger where
  "ex_ledger1 = projr (run_round id (ex_batch 0 ''g0'') ''t0'' [] Recorded fresh_ledger)"

definition ex_ledger2 :: ledger where
  "ex_ledger2 = projr (run_round id (ex_batch 1 ''g1'') ''t1'' [] FailedAfterStep ex_ledger1)"

lemma ex_ledger1_run: "ledger_run id ex_ledger1"
proof -
  have "run_round id (ex_batch 0 ''g0'') ''t0'' [] Recorded fresh_ledger = Inr ex_ledger1"
    by code_simp
  then show ?thesis using ledger_run.step ledger_step.round ledger_run.fresh by (metis fresh_ledger_def)
qed

lemma ex_ledger2_run: "ledger_run id ex_ledger2"
proof -
  have "run_round id (ex_batch 1 ''g1'') ''t1'' [] FailedAfterStep ex_ledger1 = Inr ex_ledger2"
    by code_simp
  then show ?thesis using ledger_run.step ledger_step.round ex_ledger1_run by blast
qed

text \<open>
  C6. The ledger survives a restart: at every point of a run, opening a new ledger from the
  journal on disk rebuilds the state the live object has (batches, consumed groups,
  carried-over groups and counters).
\<close>

theorem ledger_restart_rebuilds:
  assumes "ledger_run sha L"
  shows "open_ledger (l_journal L) = Inr L"
  using ledger_run_ok [OF assms] open_ledger_iff by blast

theorem ledger_restart_rebuilds_witness:
  "open_ledger (l_journal ex_ledger2) = Inr ex_ledger2"
  by (rule ledger_restart_rebuilds [OF ex_ledger2_run])

text \<open>
  C1. No group is trained twice: over any run of rounds, retries, failures and restarts, two
  different rollouts whose optimizer step was applied share no group, and the consumed
  index names exactly the rollout that trained a group.
\<close>

theorem no_group_trained_twice:
  assumes run: "ledger_run sha L"
    and b1: "get_batch L r1 = Some b1" "trained (b_state b1)"
    and b2: "get_batch L r2 = Some b2" "trained (b_state b2)" and ne: "r1 \<noteq> r2"
  shows "set (b_group_ids b1) \<inter> set (b_group_ids b2) = {}
     \<and> (\<forall>g \<in> set (b_group_ids b1). dict_get (m_consumed (l_mem L)) g = Some r1)"
proof -
  have inv: "mem_inv (l_mem L)" using ledger_run_ok [OF run] by simp
  have h: "holds (l_mem L) g r1 \<longleftrightarrow> g \<in> set (b_group_ids b1)"
      "holds (l_mem L) g r2 \<longleftrightarrow> g \<in> set (b_group_ids b2)" for g
    using b1 b2 by (simp_all add: holds_at get_batch_def)
  have "\<not> (holds (l_mem L) g r1 \<and> holds (l_mem L) g r2)" for g
    using mem_inv_unique [OF inv] ne by blast
  then show ?thesis using h inv by (auto simp: mem_inv_def)
qed

theorem no_group_trained_twice_witness:
  "\<exists>b1 b2. get_batch ex_ledger2 0 = Some b1 \<and> trained (b_state b1)
     \<and> get_batch ex_ledger2 1 = Some b2 \<and> trained (b_state b2)
     \<and> set (b_group_ids b1) \<inter> set (b_group_ids b2) = {}"
proof -
  let ?b = "\<lambda>r. the (get_batch ex_ledger2 r)"
  have b0: "get_batch ex_ledger2 0 = Some (?b 0)" and b1: "get_batch ex_ledger2 1 = Some (?b 1)"
    by code_simp+
  have t0: "trained (b_state (?b 0))" and t1: "trained (b_state (?b 1))"
    by code_simp+
  show ?thesis using no_group_trained_twice [OF ex_ledger2_run b0 t0 b1 t1] b0 b1 t0 t1 by auto
qed

end
