(* ===== verification/Batch_Ledger_Props.thy ===== *)
theory Batch_Ledger_Props
  imports Batch_Ledger
begin

text \<open>
  What the transitions of the batch ledger decide: when \<open>prepare\<close> accepts a batch, what
  \<open>rebase\<close> does at a restart, that a recorded round never changes, and what the batch hash
  identifies.
\<close>

section \<open>What \<open>prepare\<close> and \<open>rebase\<close> decide\<close>

lemma commit_total:
  assumes "j_open (l_journal L)" and "replay r (l_mem L) = Inr m"
  shows "\<exists>L'. commit r L = Inr L' \<and> l_mem L' = m \<and> j_open (l_journal L')"
  using assms by (simp add: commit_def journal_push_def)

lemma commit_open: "commit r L = Inr L' \<Longrightarrow> j_open (l_journal L')"
  by (auto simp: commit_Inr journal_push_def)

lemma rwhen_commit_open:
  "rwhen c (commit r) L = Inr L' \<Longrightarrow> j_open (l_journal L) \<Longrightarrow> j_open (l_journal L')"
  by (auto simp: rwhen_def commit_open split: if_splits)

lemma set_state_total:
  "get_batch L rid = Some b \<Longrightarrow> \<exists>m. set_state rid st (l_mem L) = Inr m"
  by (simp add: set_state_def get_batch_def)

lemma bookkeeping_total: "bookkeeping r \<Longrightarrow> \<exists>m'. replay r m = Inr m'"
  by (cases r) auto

lemma rwhen_bookkeeping_total:
  assumes "j_open (l_journal L)" and "bookkeeping r"
  shows "\<exists>L'. rwhen c (commit r) L = Inr L' \<and> j_open (l_journal L')"
proof -
  obtain m where "replay r (l_mem L) = Inr m" using bookkeeping_total [OF assms(2)] by blast
  from commit_total [OF assms(1) this] show ?thesis using assms(1)
    by (cases c) (auto simp: rwhen_def)
qed

lemma bookkeepingI:
  "bookkeeping (RFiltered rid a gids d)" "bookkeeping (REngineDiscarded rid att n mech)"
  "bookkeeping (RCarriedOverReport rid att rep c len)"
  by simp_all

lemma commit_ok_total:
  assumes "j_open (l_journal L)" and "\<exists>m. replay r (l_mem L) = Inr m"
  obtains L' where "commit r L = Inr L'" "j_open (l_journal L')"
  using assms commit_total by blast

lemma prepared_record_total: "\<exists>m'. replay (prepared_record sha rb token att) m = Inr m'"
  by (simp add: prepared_record_def)

lemma prepare_commits_total:
  assumes "j_open (l_journal L)"
  shows "\<exists>L'. prepare_commits sha rb token att L = Inr L'"
proof -
  let ?rid = "rb_rollout_id rb"
  obtain L1 where 1: "commit (prepared_record sha rb token att) L = Inr L1" "j_open (l_journal L1)"
    using commit_ok_total [OF assms prepared_record_total] .
  obtain L2 where 2: "rwhen (filter_detail rb \<noteq> [])
      (commit (RFiltered ?rid (Some att) [] (filter_detail rb))) L1 = Inr L2" "j_open (l_journal L2)"
    using rwhen_bookkeeping_total [OF 1(2) bookkeepingI(1)] by blast
  obtain L3 where 3: "(case rb_aborted_in_flight rb of None \<Rightarrow> Inr L2
     | Some n \<Rightarrow> rwhen (n \<noteq> 0) (commit (REngineDiscarded ?rid att n (abort_mechanism rb))) L2) = Inr L3"
     "j_open (l_journal L3)"
  proof (cases "rb_aborted_in_flight rb")
    case (Some n)
    obtain L3 where "rwhen (n \<noteq> 0) (commit (REngineDiscarded ?rid att n (abort_mechanism rb))) L2
        = Inr L3" "j_open (l_journal L3)"
      using rwhen_bookkeeping_total [OF 2(2) bookkeepingI(2)] by blast
    then show ?thesis using that Some by simp
  qed (use 2 that in simp)
  obtain L4 where "commit (RCarriedOverReport ?rid att (rb_carried_over rb \<noteq> None)
      (rb_carried_over rb) (rb_buffer_length rb)) L3 = Inr L4"
    using commit_ok_total [OF 3(2) bookkeeping_total [OF bookkeepingI(3)]] by blast
  then show ?thesis using 1 2 3 by (simp add: prepare_commits_def Let_def prepared_record_def)
qed

lemma already_trained_Nil:
  "already_trained L rb = [] \<longleftrightarrow>
     (\<forall>g \<in> set (batch_group_ids rb). dict_get (m_consumed (l_mem L)) g = None)"
proof -
  have "already_trained L rb = [] \<longleftrightarrow> set (already_trained L rb) = {}" by (simp only: set_empty)
  then show ?thesis by (auto simp: already_trained_def)
qed

lemma prepare_total_iff:
  assumes "j_open (l_journal L)"
  shows "(\<exists>r. prepare sha rb token L = Inr r) \<longleftrightarrow>
     (\<forall>g \<in> set (batch_group_ids rb). dict_get (m_consumed (l_mem L)) g = None)
     \<and> \<not> batch_trained (l_mem L) (rb_rollout_id rb)"
proof -
  have st: "\<not> trained x \<longleftrightarrow> x \<in> {LPrepared, LDiscarded, LSuperseded}" for x
    by (cases x) auto
  have "(\<exists>r. prepare sha rb token L = Inr r) \<longleftrightarrow>
     already_trained L rb = []
     \<and> (case get_batch L (rb_rollout_id rb) of None \<Rightarrow> True | Some b \<Rightarrow> \<not> trained (b_state b))"
    using prepare_commits_total [OF assms]
    by (cases "get_batch L (rb_rollout_id rb)") (auto simp: prepare_Inr st)
  then show ?thesis
    by (auto simp: already_trained_Nil batch_trained_def get_batch_def split: option.splits)
qed

lemma prepare_commits_open:
  "prepare_commits sha rb token att L = Inr L' \<Longrightarrow> j_open (l_journal L')"
  by (auto simp: prepare_commits_def Let_def rbind_Inr_iff commit_open)

lemma prepare_open: "prepare sha rb token L = Inr (h, L') \<Longrightarrow> j_open (l_journal L')"
  using prepare_commits_open by (auto simp: prepare_Inr)

lemma advance_open: "advance rid to flds L = Inr L' \<Longrightarrow> j_open (l_journal L) \<Longrightarrow> j_open (l_journal L')"
  using commit_open by (auto simp: advance_Inr)

lemma discard_open: "discard rid err L = Inr L' \<Longrightarrow> j_open (l_journal L) \<Longrightarrow> j_open (l_journal L')"
  using commit_open by (auto simp: discard_def split: option.splits if_splits)

lemma run_round_open: "run_round sha rb token flds out L = Inr L' \<Longrightarrow> j_open (l_journal L')"
  unfolding run_round_def Let_def optimizer_applied_def outer_recorded_def
  by (cases out) (auto simp: rbind_Inr_iff split: if_splits
      dest!: prepare_open intro: advance_open discard_open)

subsection \<open>The effect of \<open>rebase\<close>\<close>

fun settle :: "lstate \<Rightarrow> lstate" where
  "settle LOptimizerApplied = LSuperseded"
| "settle LPrepared = LDiscarded"
| "settle st = st"

fun promote :: "lstate \<Rightarrow> lstate" where
  "promote LOptimizerApplied = LOuterRecorded"
| "promote st = st"

lemma settle_settle [simp]: "settle (settle st) = settle st"
  by (cases st) simp_all

lemma promote_promote [simp]: "promote (promote st) = promote st"
  by (cases st) simp_all

lemma commit_state:
  assumes "commit r L = Inr L'" and "get_batch L rid = Some b"
    and "r = RSuperseded rid a s \<and> st = LSuperseded \<or> r = RDiscarded rid a e \<and> st = LDiscarded
       \<or> r = ROuterRecorded rid a h f \<and> st = LOuterRecorded"
  shows "ledger_state L' x = (if x = rid then Some st else ledger_state L x)"
  using assms
  by (auto simp: commit_Inr ledger_state_def get_batch_def set_state_Inr rbind_Inr_iff
      dest!: sym [of _ "l_mem L'"])

lemma discard_effect:
  assumes op: "j_open (l_journal L)"
  obtains L' where "discard rid err L = Inr L'" "j_open (l_journal L')"
    "\<And>x. ledger_state L' x = (if x = rid \<and> ledger_state L rid = Some LPrepared
        then Some LDiscarded else ledger_state L x)"
proof (cases "\<exists>b. get_batch L rid = Some b \<and> b_state b = LPrepared")
  case True
  then obtain b where b: "get_batch L rid = Some b" "b_state b = LPrepared" by blast
  have "\<exists>m. replay (RDiscarded rid (b_attempt b) err) (l_mem L) = Inr m"
    using set_state_total [OF b(1)] by simp
  then obtain L' where c: "commit (RDiscarded rid (b_attempt b) err) L = Inr L'"
      "j_open (l_journal L')"
    using commit_ok_total [OF op] by metis
  show ?thesis
    by (rule that [of L']) (use c b commit_state [OF c(1) b(1)] in
        \<open>auto simp: discard_def ledger_state_def [of L]\<close>)
next
  case False
  then show ?thesis using that [of L] op
    by (fastforce simp: discard_def ledger_state_def split: option.splits)
qed

lemma rebase_ahead_effect:
  assumes op: "j_open (l_journal L)" and key: "ledger_state L rid \<noteq> None"
  obtains L' s' where "rebase_ahead start rid (L, s) = Inr (L', s')" "j_open (l_journal L')"
    "\<And>x. ledger_state L' x = (if x = rid then map_option settle (ledger_state L x) else ledger_state L x)"
    "s' = (if ledger_state L rid = Some LOptimizerApplied then s @ [rid] else s)"
proof -
  obtain b where b: "get_batch L rid = Some b" and st: "ledger_state L rid = Some (b_state b)"
    using key by (auto simp: ledger_state_def)
  show ?thesis
  proof (cases "b_state b = LOptimizerApplied")
    case True
    have "\<exists>m. replay (RSuperseded rid (b_attempt b) start) (l_mem L) = Inr m"
      using set_state_total [OF b(1), of LSuperseded] by (auto simp: rbind_def)
    then obtain L' where c: "commit (RSuperseded rid (b_attempt b) start) L = Inr L'"
        "j_open (l_journal L')"
      using commit_ok_total [OF op] by metis
    show ?thesis
      by (rule that [of L' "s @ [rid]"]) (use c b True st commit_state [OF c(1) b(1)] in
          \<open>auto simp: rebase_ahead_def\<close>)
  next
    case False
    obtain L' where d: "discard rid (''restart at rollout '' @ show_int start) L = Inr L'"
      "j_open (l_journal L')"
      "\<And>x. ledger_state L' x = (if x = rid \<and> ledger_state L rid = Some LPrepared
          then Some LDiscarded else ledger_state L x)"
      using discard_effect [OF op] by metis
    show ?thesis
    proof (cases "b_state b = LPrepared")
      case True
      show ?thesis
        by (rule that [of L' s]) (use d b True st in \<open>auto simp: rebase_ahead_def\<close>)
    next
      case False
      show ?thesis
        by (rule that [of L s]) (use op b False \<open>b_state b \<noteq> LOptimizerApplied\<close> st in
            \<open>cases "b_state b"; auto simp: rebase_ahead_def\<close>)+
    qed
  qed
qed

lemma rebase_ahead_fold_effect:
  assumes "j_open (l_journal L)" and "\<forall>r \<in> set rids. ledger_state L r \<noteq> None" and "distinct rids"
  shows "\<exists>L' s'. rfold (rebase_ahead start) rids (L, s) = Inr (L', s') \<and> j_open (l_journal L')
    \<and> (\<forall>x. ledger_state L' x = (if x \<in> set rids then map_option settle (ledger_state L x) else ledger_state L x))
    \<and> s' = s @ filter (\<lambda>r. ledger_state L r = Some LOptimizerApplied) rids"
  using assms
proof (induction rids arbitrary: L s)
  case (Cons r rids)
  obtain L1 s1 where 1: "rebase_ahead start r (L, s) = Inr (L1, s1)" "j_open (l_journal L1)"
    "\<And>x. ledger_state L1 x = (if x = r then map_option settle (ledger_state L x) else ledger_state L x)"
    "s1 = (if ledger_state L r = Some LOptimizerApplied then s @ [r] else s)"
    using rebase_ahead_effect [OF Cons.prems(1)] Cons.prems(2) by (metis list.set_intros(1))
  have "\<forall>x \<in> set rids. ledger_state L1 x \<noteq> None" using Cons.prems(2) 1(3) by simp
  moreover have "distinct rids" using Cons.prems(3) by simp
  ultimately obtain L2 s2 where
    2: "rfold (rebase_ahead start) rids (L1, s1) = Inr (L2, s2)" "j_open (l_journal L2)"
    "\<forall>x. ledger_state L2 x = (if x \<in> set rids then map_option settle (ledger_state L1 x) else ledger_state L1 x)"
    "s2 = s1 @ filter (\<lambda>r. ledger_state L1 r = Some LOptimizerApplied) rids"
    using Cons.IH [OF 1(2), of s1] by blast
  have "filter (\<lambda>x. ledger_state L1 x = Some LOptimizerApplied) rids
      = filter (\<lambda>x. ledger_state L x = Some LOptimizerApplied) rids"
    using Cons.prems(3) by (intro filter_cong) (auto simp: 1(3))
  then show ?case using 1 2 Cons.prems(3) by auto
qed simp

lemma rebase_below_effect:
  assumes op: "j_open (l_journal L)"
  obtains L' where "rebase_below start rid L = Inr L'" "j_open (l_journal L')"
    "\<And>x. ledger_state L' x = (if x = rid then map_option promote (ledger_state L x) else ledger_state L x)"
proof (cases "ledger_state L rid = Some LOptimizerApplied")
  case True
  then obtain b where b: "get_batch L rid = Some b" "b_state b = LOptimizerApplied"
    by (auto simp: ledger_state_def)
  let ?f = "[(''recovered'', DBool True), (''restart_rollout_id'', DInt start)]"
  have "\<exists>m. replay (ROuterRecorded rid (b_attempt b) (b_hash b) ?f) (l_mem L) = Inr m"
    using set_state_total [OF b(1)] by simp
  then obtain L' where c: "commit (ROuterRecorded rid (b_attempt b) (b_hash b) ?f) L = Inr L'"
      "j_open (l_journal L')"
    using commit_ok_total [OF op] by metis
  show ?thesis
    by (rule that [of L']) (use c b True commit_state [OF c(1) b(1)] in
        \<open>auto simp: rebase_below_def advance_def advance_record_def\<close>)
next
  case False
  have same: "map_option promote (ledger_state L rid) = ledger_state L rid"
  proof (cases "ledger_state L rid")
    case (Some st)
    then show ?thesis using False by (cases st) auto
  qed simp
  show ?thesis by (rule that [of L]) (use op False same in \<open>auto simp: rebase_below_def\<close>)
qed

lemma rebase_below_fold_effect:
  assumes "j_open (l_journal L)"
  shows "\<exists>L'. rfold (rebase_below start) rids L = Inr L' \<and> j_open (l_journal L')
    \<and> (\<forall>x. ledger_state L' x = (if x \<in> set rids then map_option promote (ledger_state L x) else ledger_state L x))"
  using assms
proof (induction rids arbitrary: L)
  case (Cons r rids)
  obtain L1 where 1: "rebase_below start r L = Inr L1" "j_open (l_journal L1)"
    "\<And>x. ledger_state L1 x = (if x = r then map_option promote (ledger_state L x) else ledger_state L x)"
    using rebase_below_effect [OF Cons.prems] by metis
  obtain L2 where "rfold (rebase_below start) rids L1 = Inr L2" "j_open (l_journal L2)"
    "\<forall>x. ledger_state L2 x = (if x \<in> set rids then map_option promote (ledger_state L1 x) else ledger_state L1 x)"
    using Cons.IH [OF 1(2)] by blast
  then show ?case using 1 by (auto simp: option.map_comp comp_def)
qed simp

lemma set_keys_where: "set (keys_where P L) = {r. P r \<and> ledger_state L r \<noteq> None}"
  by (auto simp: keys_where_def ledger_state_def get_batch_def map_of_eq_None_iff)

lemma distinct_keys_where: "ledger_inv L \<Longrightarrow> distinct (keys_where P L)"
  by (simp add: keys_where_def mem_inv_def dict_ok_def distinct_filter)

lemma rebase_effect:
  assumes inv: "ledger_inv L" and op: "j_open (l_journal L)"
    and ahead: "\<forall>r. start \<le> r \<longrightarrow> ledger_state L r \<noteq> Some LOuterRecorded"
  obtains L' where "rebase start L = Inr (filter (\<lambda>r. ledger_state L r = Some LOptimizerApplied)
        (keys_where (\<lambda>r. start \<le> r) L), L')" "j_open (l_journal L')"
    "\<And>x. ledger_state L' x
       = map_option (\<lambda>st. if start \<le> x then settle st else promote st) (ledger_state L x)"
proof -
  let ?K = "keys_where (\<lambda>r. start \<le> r) L"
  obtain L1 where 1: "rfold (rebase_ahead start) ?K (L, []) =
      Inr (L1, filter (\<lambda>r. ledger_state L r = Some LOptimizerApplied) ?K)" "j_open (l_journal L1)"
    "\<forall>x. ledger_state L1 x = (if x \<in> set ?K then map_option settle (ledger_state L x) else ledger_state L x)"
    using rebase_ahead_fold_effect [OF op _ distinct_keys_where [OF inv], of "\<lambda>r. start \<le> r" start "[]"]
    by (auto simp: set_keys_where)
  let ?K1 = "keys_where (\<lambda>r. r < start) L1"
  obtain L2 where 2: "rfold (rebase_below start) ?K1 L1 = Inr L2" "j_open (l_journal L2)"
    "\<forall>x. ledger_state L2 x = (if x \<in> set ?K1 then map_option promote (ledger_state L1 x) else ledger_state L1 x)"
    using rebase_below_fold_effect [OF 1(2)] by blast
  have "rebase start L = Inr (filter (\<lambda>r. ledger_state L r = Some LOptimizerApplied) ?K, L2)"
    using 1(1) 2(1) ahead by (auto simp: rebase_Inr set_keys_where)
  moreover have "ledger_state L2 x
      = map_option (\<lambda>st. if start \<le> x then settle st else promote st) (ledger_state L x)" for x
    using 1(3) 2(3) by (cases "ledger_state L x") (auto simp: set_keys_where)
  ultimately show ?thesis using that 2(2) by blast
qed

lemma rebase_open_iff:
  assumes "ledger_inv L" and "j_open (l_journal L)"
  shows "(\<exists>r. rebase start L = Inr r) \<longleftrightarrow>
    (\<forall>r. start \<le> r \<longrightarrow> ledger_state L r \<noteq> Some LOuterRecorded)"
proof
  assume "\<exists>r. rebase start L = Inr r"
  then show "\<forall>r. start \<le> r \<longrightarrow> ledger_state L r \<noteq> Some LOuterRecorded"
    by (auto simp: rebase_Inr set_keys_where)
next
  assume "\<forall>r. start \<le> r \<longrightarrow> ledger_state L r \<noteq> Some LOuterRecorded"
  then show "\<exists>r. rebase start L = Inr r" using rebase_effect [OF assms] by blast
qed

lemma rebase_result:
  assumes inv: "ledger_inv L" and op: "j_open (l_journal L)"
    and r: "rebase start L = Inr (dropped, L')"
  shows "j_open (l_journal L')
    \<and> dropped = filter (\<lambda>r. ledger_state L r = Some LOptimizerApplied) (keys_where (\<lambda>r. start \<le> r) L)
    \<and> (\<forall>x. ledger_state L' x
         = map_option (\<lambda>st. if start \<le> x then settle st else promote st) (ledger_state L x))"
proof -
  have "\<forall>r. start \<le> r \<longrightarrow> ledger_state L r \<noteq> Some LOuterRecorded"
    using rebase_open_iff [OF inv op] r by blast
  from rebase_effect [OF inv op this] r show ?thesis by (metis prod.inject sum.inject(2))
qed

lemma ledger_step_open:
  assumes "ledger_step sha L L'" and ok: "lj.in_sync L" "ledger_inv L" "j_open (l_journal L)"
  shows "j_open (l_journal L')"
  using assms(1)
proof cases
  case (restart start)
  obtain dropped where "rebase start L = Inr (dropped, L')"
    using restart_at_in_sync [OF ok(1) restart] .
  then show ?thesis using rebase_result [OF ok(2,3)] by blast
qed (auto simp: run_round_open carried_over_def filter_carried_def Let_def commit_open split: if_splits)

lemma ledger_run_open: "ledger_run sha L \<Longrightarrow> j_open (l_journal L)"
proof (induction rule: ledger_run.induct)
  case (step L L')
  then show ?case using ledger_step_open ledger_run_ok by blast
qed (simp add: empty_journal_def)

section \<open>Properties of \<open>prepare\<close>, \<open>rebase\<close> and the recorded rounds\<close>

text \<open>
  C23. \<open>BatchLedger.prepare\<close> accepts a batch exactly when none of its groups belongs to a
  trained batch and its own rollout was not trained; a retry of a prepared, discarded or
  superseded rollout is accepted with the next attempt number.
\<close>

theorem prepare_accepts_exactly:
  assumes run: "ledger_run sha L"
  shows "(\<exists>h L'. prepare sha rb token L = Inr (h, L')
        \<and> (\<exists>b. get_batch L' (rb_rollout_id rb) = Some b \<and> b_state b = LPrepared
             \<and> b_attempt b = (case get_batch L (rb_rollout_id rb) of None \<Rightarrow> 0
                                | Some old \<Rightarrow> b_attempt old + 1)))
    \<longleftrightarrow> (\<forall>r b. get_batch L r = Some b \<and> trained (b_state b) \<longrightarrow>
          r \<noteq> rb_rollout_id rb \<and> set (batch_group_ids rb) \<inter> set (b_group_ids b) = {})"
    (is "?lhs \<longleftrightarrow> ?rhs")
proof -
  have op: "j_open (l_journal L)" and inv: "mem_inv (l_mem L)"
    using ledger_run_open [OF run] ledger_run_ok [OF run] by simp_all
  have cons: "dict_get (m_consumed (l_mem L)) g = None \<longleftrightarrow> (\<forall>r. \<not> holds (l_mem L) g r)" for g
    using inv unfolding mem_inv_def by (metis not_None_eq)
  have "\<exists>b. get_batch L' (rb_rollout_id rb) = Some b \<and> b_state b = LPrepared
      \<and> b_attempt b = (case get_batch L (rb_rollout_id rb) of None \<Rightarrow> 0 | Some old \<Rightarrow> b_attempt old + 1)"
    if "prepare sha rb token L = Inr (h, L')" for h L'
    using that by (auto simp: prepare_Inr dest!: prepare_commits_effect)
  then have "?lhs \<longleftrightarrow> (\<exists>r. prepare sha rb token L = Inr r)" by auto
  also have "\<dots> \<longleftrightarrow> ?rhs"
    unfolding prepare_total_iff [OF op] cons
    by (auto simp: holds_def batch_trained_def get_batch_def split: option.splits)
  finally show ?thesis .
qed

theorem prepare_accepts_exactly_witness:
  "(\<exists>h L'. prepare id (ex_batch 2 ''g2'') ''t2'' ex_ledger2 = Inr (h, L'))
   \<and> \<not> (\<exists>h L'. prepare id (ex_batch 2 ''g1'') ''t2'' ex_ledger2 = Inr (h, L')
        \<and> (\<exists>b. get_batch L' 2 = Some b \<and> b_state b = LPrepared \<and> b_attempt b = 0))"
proof
  have "isl (prepare id (ex_batch 2 ''g2'') ''t2'' ex_ledger2) = False" by code_simp
  then show "\<exists>h L'. prepare id (ex_batch 2 ''g2'') ''t2'' ex_ledger2 = Inr (h, L')"
    by (cases "prepare id (ex_batch 2 ''g2'') ''t2'' ex_ledger2") auto
  let ?b = "the (get_batch ex_ledger2 1)"
  have b: "get_batch ex_ledger2 1 = Some ?b" "trained (b_state ?b)" "''g1'' \<in> set (b_group_ids ?b)"
    by code_simp+
  have new: "get_batch ex_ledger2 2 = None" by code_simp
  show "\<not> (\<exists>h L'. prepare id (ex_batch 2 ''g1'') ''t2'' ex_ledger2 = Inr (h, L')
        \<and> (\<exists>b. get_batch L' 2 = Some b \<and> b_state b = LPrepared \<and> b_attempt b = 0))"
    using prepare_accepts_exactly [OF ex_ledger2_run, of "ex_batch 2 ''g1''" "''t2''"] b new
    by (auto simp: ex_batch_def batch_group_ids_def)
qed

lemma next_rollout_id_le:
  assumes "\<And>x b. (x, b) \<in> set (m_batches (l_mem L)) \<Longrightarrow>
      b_state b \<in> {LOptimizerApplied, LOuterRecorded} \<Longrightarrow> x < n"
  shows "next_rollout_id L \<le> max 0 n"
proof -
  define d where "d = map fst (filter (\<lambda>(r, b). b_state b \<in> {LOptimizerApplied, LOuterRecorded})
      (m_batches (l_mem L)))"
  have "x < n" if "x \<in> set d" for x using that assms unfolding d_def by auto
  then have m: "Max (set d) + 1 \<le> max 0 n" if "d \<noteq> []"
    using that by (metis List.finite_set Max_in add1_zle_eq max.coboundedI2 set_empty)
  then show ?thesis unfolding next_rollout_id_def Let_def d_def [symmetric] by simp
qed

text \<open>
  C24. \<open>BatchLedger.rebase\<close>: it refuses exactly when a recorded round lies at or beyond the
  restart point.  Otherwise it supersedes the applied batches from the restart point on
  (and returns their rollouts), discards the prepared ones, records the applied batches
  below it, and the next rollout id lies at or below the restart point.
\<close>

theorem rebase_aligns:
  assumes run: "ledger_run sha L"
  shows "((\<exists>r. rebase start L = Inr r) \<longleftrightarrow>
            (\<forall>r. start \<le> r \<longrightarrow> ledger_state L r \<noteq> Some LOuterRecorded))
    \<and> (\<forall>dropped L'. rebase start L = Inr (dropped, L') \<longrightarrow>
         set dropped = {r. start \<le> r \<and> ledger_state L r = Some LOptimizerApplied}
         \<and> (\<forall>r. ledger_state L' r = map_option
               (\<lambda>st. if start \<le> r then settle st else promote st) (ledger_state L r))
         \<and> next_rollout_id L' \<le> max 0 start)"
proof -
  have op: "j_open (l_journal L)" and inv: "ledger_inv L"
    using ledger_run_open [OF run] ledger_run_ok [OF run] by simp_all
  have "next_rollout_id L' \<le> max 0 start" if r: "rebase start L = Inr (dropped, L')" for dropped L'
  proof -
    have st: "ledger_state L' x
        = map_option (\<lambda>st. if start \<le> x then settle st else promote st) (ledger_state L x)" for x
      using rebase_result [OF inv op r] by blast
    have rec: "ledger_state L x \<noteq> Some LOuterRecorded" if "start \<le> x" for x
      using rebase_open_iff [OF inv op] r that by blast
    have ok: "dict_ok (m_batches (l_mem L'))" using rebase_inv [OF inv r] by (simp add: mem_inv_def)
    have "x < start" if "(x, b) \<in> set (m_batches (l_mem L'))"
        "b_state b \<in> {LOptimizerApplied, LOuterRecorded}" for x b
    proof (rule ccontr)
      assume "\<not> x < start"
      moreover have "ledger_state L' x = Some (b_state b)"
        using that(1) ok by (simp add: ledger_state_def get_batch_def dict_item_get)
      ultimately obtain st' where "ledger_state L x = Some st'" "settle st' = b_state b"
        using st [of x] by auto
      then show False using that(2) rec [of x] \<open>\<not> x < start\<close> by (cases st') auto
    qed
    then show ?thesis by (rule next_rollout_id_le)
  qed
  moreover have "set dropped = {r. start \<le> r \<and> ledger_state L r = Some LOptimizerApplied}"
    if r: "rebase start L = Inr (dropped, L')" for dropped L'
    using rebase_result [OF inv op r] by (auto simp: set_keys_where)
  ultimately show ?thesis
    using rebase_open_iff [OF inv op] rebase_result [OF inv op] by blast
qed

theorem rebase_aligns_witness:
  "\<exists>L'. rebase 1 ex_ledger2 = Inr ([1], L') \<and> next_rollout_id L' \<le> 1
     \<and> ledger_state L' 1 = Some LSuperseded"
proof -
  define L' where "L' = snd (projr (rebase 1 ex_ledger2))"
  have r: "rebase 1 ex_ledger2 = Inr ([1], L')" unfolding L'_def by code_simp
  have st: "ledger_state ex_ledger2 1 = Some LOptimizerApplied" by code_simp
  have "(\<forall>r. ledger_state L' r = map_option (\<lambda>st. if 1 \<le> r then settle st else promote st)
        (ledger_state ex_ledger2 r)) \<and> next_rollout_id L' \<le> max 0 1"
    using rebase_aligns [OF ex_ledger2_run, of 1] r by blast
  then show ?thesis using r st by simp
qed

section \<open>The batch hash identifies the groups and samples\<close>

definition clean_id :: "string \<Rightarrow> bool" where
  "clean_id s \<longleftrightarrow> nul \<notin> set s \<and> soh \<notin> set s"

lemma nul_terminated_inject:
  assumes "\<forall>x \<in> set xs. clean_id x" and "\<forall>y \<in> set ys. clean_id y"
  shows "concat (map (\<lambda>g. g @ [nul]) xs) @ soh # r = concat (map (\<lambda>g. g @ [nul]) ys) @ soh # r'
    \<longleftrightarrow> xs = ys \<and> r = r'"
  using assms
proof (induction xs arbitrary: ys)
  case Nil
  then show ?case
    by (cases ys; cases "hd ys") (auto simp: clean_id_def nul_def soh_def)
next
  case (Cons x xs)
  show ?case
  proof (cases ys)
    case Nil
    then show ?thesis using Cons.prems by (cases x) (auto simp: clean_id_def nul_def soh_def)
  next
    case (Cons y ys')
    have "nul \<notin> set x" "nul \<notin> set y" using Cons.prems Cons by (auto simp: clean_id_def)
    then show ?thesis using Cons Cons.IH [of ys'] Cons.prems by (auto simp: sep_append_inject)
  qed
qed

lemma nul_terminated_inject2:
  assumes "\<forall>x \<in> set xs. clean_id x" and "\<forall>y \<in> set ys. clean_id y"
  shows "concat (map (\<lambda>g. g @ [nul]) xs) = concat (map (\<lambda>g. g @ [nul]) ys) \<longleftrightarrow> xs = ys"
  using nul_terminated_inject [OF assms, of "[]" "[]"] by auto

text \<open>
  The bytes that \<open>_batch_hash\<close> digests are the same for two batches exactly when they
  have the same groups and the same samples, in any order; so a retry of the same batch has
  the same hash, and a different batch is hashed over different bytes.
\<close>

theorem hash_input_identifies_batch:
  assumes "\<forall>x \<in> set gids \<union> set sids \<union> set gids' \<union> set sids'. clean_id x"
  shows "hash_input gids sids = hash_input gids' sids' \<longleftrightarrow>
     mset gids = mset gids' \<and> mset sids = mset sids'"
proof -
  have "hash_input gids sids = hash_input gids' sids' \<longleftrightarrow>
      sort gids = sort gids' \<and> sort sids = sort sids'"
    using assms nul_terminated_inject [of "sort gids" "sort gids'"]
      nul_terminated_inject2 [of "sort sids" "sort sids'"]
    by (auto simp: hash_input_def)
  then show ?thesis by (metis mset_sort sort_eq_mset)
qed

theorem hash_input_identifies_batch_witness:
  "hash_input [''0'', ''1''] [''0/a'', ''1/b''] = hash_input [''1'', ''0''] [''1/b'', ''0/a'']
   \<and> hash_input [''0''] [''0/a''] \<noteq> hash_input [''1''] [''1/a'']"
  using hash_input_identifies_batch [of "[''0'', ''1'']" "[''0/a'', ''1/b'']" "[''1'', ''0'']" "[''1/b'', ''0/a'']"]
    hash_input_identifies_batch [of "[''0'']" "[''0/a'']" "[''1'']" "[''1/a'']"]
  by (simp add: clean_id_def nul_def soh_def)

section \<open>A recorded round never changes\<close>

lemma quiet_state: "quiet L L' \<Longrightarrow> ledger_state L' r = ledger_state L r"
proof -
  assume "quiet L L'"
  then have "map_option batch_core (get_batch L' r) = map_option batch_core (get_batch L r)"
    by (simp add: quiet_def)
  then have "map_option (b_state \<circ> batch_core) (get_batch L' r)
      = map_option (b_state \<circ> batch_core) (get_batch L r)"
    by (metis option.map_comp)
  moreover have "b_state \<circ> batch_core = b_state" by (simp add: fun_eq_iff batch_core_def)
  ultimately show ?thesis by (simp add: ledger_state_def)
qed

lemma prepare_state:
  assumes "prepare sha rb token L = Inr (h, L')"
  shows "ledger_state L' x = (if x = rb_rollout_id rb then Some LPrepared else ledger_state L x)"
proof -
  obtain att where "prepare_commits sha rb token att L = Inr L'"
    using assms by (auto simp: prepare_Inr)
  then obtain L1 where 1: "commit (prepared_record sha rb token att) L = Inr L1" and q: "quiet L1 L'"
    using prepare_commits_split by blast
  have "ledger_state L1 x = (if x = rb_rollout_id rb then Some LPrepared else ledger_state L x)"
    using 1 by (auto simp: commit_Inr prepared_record_def ledger_state_def get_batch_def
        dest!: sym [of _ "l_mem L1"])
  then show ?thesis using quiet_state [OF q] by simp
qed

lemma advance_state:
  assumes "advance rid to flds L = Inr L'" and "x \<noteq> rid"
  shows "ledger_state L' x = ledger_state L x"
  using assms
  by (auto simp: advance_Inr advance_record_def commit_Inr ledger_state_def get_batch_def
      set_state_Inr rbind_Inr_iff dest!: sym [of _ "l_mem L'"])

lemma discard_state:
  assumes "discard rid err L = Inr L'" and "x \<noteq> rid"
  shows "ledger_state L' x = ledger_state L x"
  using assms
  by (auto simp: discard_def commit_Inr ledger_state_def get_batch_def set_state_Inr
      dest!: sym [of _ "l_mem L'"] split: option.splits if_splits)

lemma run_round_state:
  assumes "run_round sha rb token flds out L = Inr L'" and "x \<noteq> rb_rollout_id rb"
  shows "ledger_state L' x = ledger_state L x"
  using assms unfolding run_round_def Let_def optimizer_applied_def outer_recorded_def
  by (cases out) (auto simp: rbind_Inr_iff prepare_state advance_state discard_state split: if_splits)

lemma run_round_not_trained:
  assumes "run_round sha rb token flds out L = Inr L'"
  shows "ledger_state L (rb_rollout_id rb) \<noteq> Some LOuterRecorded"
proof -
  obtain h L1 where "prepare sha rb token L = Inr (h, L1)"
    using assms by (auto simp: run_round_def Let_def rbind_Inr_iff)
  then have "\<not> batch_trained (l_mem L) (rb_rollout_id rb)" using prepare_fresh by blast
  then show ?thesis by (auto simp: batch_trained_def ledger_state_def get_batch_def)
qed

text \<open>
  Once a round is recorded in the outer progress it stays recorded: no later round, no
  carried-over bookkeeping and no restart that succeeds changes its state.
\<close>

theorem outer_recorded_is_final:
  assumes run: "ledger_run sha L" and st: "ledger_step sha L L'"
    and rec: "ledger_state L r = Some LOuterRecorded"
  shows "ledger_state L' r = Some LOuterRecorded"
  using st
proof cases
  case (round rb token flds out)
  then show ?thesis using run_round_not_trained run_round_state rec by metis
next
  case (carry rid gids token)
  then show ?thesis using carried_over_quiet quiet_state rec by metis
next
  case (drop_carried gids reason mechanism)
  then show ?thesis using filter_carried_quiet quiet_state rec by metis
next
  case (restart start)
  have ok: "lj.in_sync L" "ledger_inv L" "j_open (l_journal L)"
    using ledger_run_ok [OF run] ledger_run_open [OF run] by simp_all
  obtain dropped where "rebase start L = Inr (dropped, L')"
    using restart_at_in_sync [OF ok(1) restart] .
  then have "ledger_state L' r
      = map_option (\<lambda>st. if start \<le> r then settle st else promote st) (ledger_state L r)"
    using rebase_result [OF ok(2,3)] by blast
  then show ?thesis using rec by simp
qed

theorem outer_recorded_is_final_witness:
  "ledger_state ex_ledger2 0 = Some LOuterRecorded"
proof -
  have "run_round id (ex_batch 1 ''g1'') ''t1'' [] FailedAfterStep ex_ledger1 = Inr ex_ledger2"
    and st: "ledger_state ex_ledger1 0 = Some LOuterRecorded"
    by code_simp+
  then have "ledger_step id ex_ledger1 ex_ledger2" using ledger_step.round by blast
  then show ?thesis by (rule outer_recorded_is_final [OF ex_ledger1_run _ st])
qed

section \<open>The ledger alone does not serialise two prepared batches\<close>

text \<open>
  \<open>prepare\<close> checks the consumed groups, \<open>optimizer_applied\<close> does not check them again.  Two
  batches that share a group and are both prepared before either is applied are both
  trained; the driver never does this, because it applies or discards a batch before it
  prepares the next one.
\<close>

definition ex_double :: "ledger_error + ledger" where
  "ex_double =
     rbind (prepare id (ex_batch 0 ''g'') ''t'' fresh_ledger) (\<lambda>(h, L).
     rbind (prepare id (ex_batch 1 ''g'') ''t'' L) (\<lambda>(h, L).
     rbind (optimizer_applied 0 [] L) (\<lambda>L. optimizer_applied 1 [] L)))"

lemma ledger_alone_trains_twice:
  "case ex_double of Inl e \<Rightarrow> False
   | Inr L \<Rightarrow> ledger_state L 0 = Some LOptimizerApplied \<and> ledger_state L 1 = Some LOptimizerApplied
       \<and> map_option b_group_ids (get_batch L 0) = Some [''g'']
       \<and> map_option b_group_ids (get_batch L 1) = Some [''g'']"
  by code_simp

end
