(* ===== verification/Island_Ledger.thy ===== *)
theory Island_Ledger
  imports Complex_Main Yeto_Prelude
begin

text \<open>
  The cross-island ledger of \<open>src/yeto/rl/engine/island_ledger.py\<close> and the sample index of
  \<open>src/yeto/rl/engine/sample_pool.py\<close>: membership with leases, the verdict on a sample group,
  the submission of outer deltas and the quorum step that merges them.

  Times, capacities and merge weights are floats in the source and rationals here; rounding
  is not modelled.  An operation that raises after it emitted an event returns the state it
  leaves behind together with the error.
\<close>

section \<open>Modes and policies\<close>

datatype sched_mode = LEGACY | ELASTIC

datatype island_error =
  ModeError string
| ModeMismatch sched_mode sched_mode
| BadCorrection string
| BadOuterLag
| BadConfig
| Fenced int int
| NotTrainRole string string
| AlreadyMember string
| FixedMembers
| NotMember string
| LegacyTimeout
| MissingKey string

definition parse_mode :: "string option \<Rightarrow> island_error + sched_mode" where
  "parse_mode v = (case v of None \<Rightarrow> Inr LEGACY
     | Some s \<Rightarrow> if s = ''legacy'' then Inr LEGACY
                 else if s = ''elastic'' then Inr ELASTIC
                 else Inl (ModeError s))"

fun mode_value :: "sched_mode \<Rightarrow> string" where
  "mode_value LEGACY = ''legacy''"
| "mode_value ELASTIC = ''elastic''"

definition default_theta :: rat where "default_theta = 3 / 4"
definition default_gamma :: rat where "default_gamma = 1 / 2"

datatype contract_value = CStr string | CNum rat | CNone

definition contract_fields ::
    "string option \<Rightarrow> rat option \<Rightarrow> rat option \<Rightarrow> rat option \<Rightarrow>
     island_error + (string, contract_value) dict" where
  "contract_fields mode theta gamma soft =
     rbind (parse_mode mode) (\<lambda>m.
       Inr ((''island_scheduling_mode'', CStr (mode_value m)) #
         (if m = ELASTIC then
            [(''quorum_theta'', CNum (case theta of None \<Rightarrow> default_theta | Some t \<Rightarrow> t)),
             (''carry_gamma'', CNum (case gamma of None \<Rightarrow> default_gamma | Some g \<Rightarrow> g)),
             (''soft_deadline_s'', case soft of None \<Rightarrow> CNone | Some s \<Rightarrow> CNum s)]
          else [])))"

definition check_same_mode :: "string option \<Rightarrow> string option \<Rightarrow> island_error + unit" where
  "check_same_mode local peer =
     rbind (parse_mode local) (\<lambda>l. rbind (parse_mode peer) (\<lambda>p.
       if l \<noteq> p then Inl (ModeMismatch l p) else Inr ()))"

definition correction_mechanisms :: "string list" where
  "correction_mechanisms = [''mismatch_observe'', ''tis'', ''icepop'', ''opsm_trainer'',
     ''opsm_rollout'', ''mis'', ''mis_mask'', ''adaptive_tis'']"

definition is_corrections :: "string list" where
  "is_corrections = filter (\<lambda>m. m \<noteq> ''mismatch_observe'') correction_mechanisms"

record staleness_policy =
  max_outer_lag :: int
  max_inner_lag :: "int option"
  sp_correction :: string
  on_policy_only :: bool

definition check_policy :: "staleness_policy \<Rightarrow> island_error + staleness_policy" where
  "check_policy p =
     (if sp_correction p \<notin> set is_corrections then Inl (BadCorrection (sp_correction p))
      else if max_outer_lag p < 0 then Inl BadOuterLag
      else Inr p)"

section \<open>Groups, deltas and verdicts\<close>

record sample_group =
  g_island :: string
  g_outer :: int
  g_inner :: int
  g_hash :: string
  g_n :: int
  g_logprob :: "rat list option"
  g_uri :: "string option"
  g_segments :: "(int \<times> string) list option"

record delta_entry =
  d_island :: string
  d_outer :: int
  d_inner :: int
  d_hash :: string
  c_tokens :: int
  c_steps :: int
  d_wire_dtype :: string
  d_shard :: "int option"

datatype verdict_kind = ACCEPT | ACCEPT_IS | REJECT

record verdict =
  v_kind :: verdict_kind
  v_reason :: string
  v_outer_lag :: int
  v_inner_lag :: "int option"
  v_correction :: "string option"

definition merge_weight :: "int \<Rightarrow> int \<Rightarrow> rat" where
  "merge_weight tokens steps =
     (if steps \<le> 0 \<or> tokens \<le> 0 then 0 else (of_int tokens)^2 / of_int steps)"

definition staleness :: "int \<Rightarrow> int option \<Rightarrow> int \<Rightarrow> int \<Rightarrow> int \<times> int option" where
  "staleness cur_outer cur_inner outer inner =
     (let outer_lag = cur_outer - outer in
      (outer_lag, case cur_inner of None \<Rightarrow> None
                  | Some c \<Rightarrow> if outer_lag = 0 then Some (c - inner) else None))"

record member =
  mb_joined_at :: int
  mb_catch_up :: bool
  mb_heartbeat :: rat
  mb_capacity :: rat

section \<open>The ledger\<close>

record outer_step =
  os_base :: int
  os_arrived :: nat
  os_cap_arrived :: rat
  os_cap_total :: rat
  os_timed_out :: bool
  os_carried_in :: "(string, int \<times> rat) dict"
  os_weights :: "(string, rat) dict"
  os_raw_weights :: "(string, rat) dict"
  os_absent :: "string list"
  os_hash :: string

datatype event_body =
  PoolJoin string bool int string
| PoolLeave string string "(int \<times> int \<times> int) option"
| SampleVerdict string string int int verdict
| DeltaRejected string string "(int \<times> int) option"
| DeltaCarriedOver string int int rat
| DeltaAccepted string int int
| LegacyQuorumTimeout nat nat
| RoundIdle nat rat rat
| OuterStep outer_step

record pool_event =
  ev_outer :: int
  ev_epoch :: int
  ev_body :: event_body

record xledger =
  x_mode :: sched_mode
  x_policy :: staleness_policy
  x_theta :: rat
  x_quorum_min :: int
  x_gamma :: rat
  x_max_carry_lag :: int
  x_lease :: rat
  x_syncer_epoch :: int
  x_outer :: int
  x_published :: "(int, string) dict"
  x_epoch :: int
  x_members :: "(string, member) dict"
  x_pending :: "(string, delta_entry) dict"
  x_carried :: "(string, delta_entry \<times> int) dict"
  x_events :: "pool_event list"

definition xledger_init ::
    "staleness_policy \<Rightarrow> rat \<Rightarrow> int \<Rightarrow> rat \<Rightarrow> int \<Rightarrow> rat \<Rightarrow> string \<Rightarrow> int \<Rightarrow> string option \<Rightarrow>
     island_error + xledger" where
  "xledger_init policy theta quorum_min gamma max_carry_lag lease initial_hash syncer_epoch mode =
     rbind (parse_mode mode) (\<lambda>m.
       if \<not> (0 < theta \<and> theta \<le> 1) \<or> quorum_min < 1 \<or> \<not> (0 \<le> gamma \<and> gamma \<le> 1)
       then Inl BadConfig
       else Inr \<lparr>x_mode = m, x_policy = policy, x_theta = theta, x_quorum_min = quorum_min,
         x_gamma = gamma, x_max_carry_lag = max_carry_lag, x_lease = lease,
         x_syncer_epoch = syncer_epoch, x_outer = 0, x_published = [(0, initial_hash)],
         x_epoch = 0, x_members = [], x_pending = [], x_carried = [], x_events = []\<rparr>)"

definition emit :: "event_body \<Rightarrow> xledger \<Rightarrow> xledger \<times> pool_event" where
  "emit body x =
     (let ev = \<lparr>ev_outer = x_outer x, ev_epoch = x_epoch x, ev_body = body\<rparr>
      in (x\<lparr>x_events := x_events x @ [ev]\<rparr>, ev))"

definition check_fence :: "int \<Rightarrow> xledger \<Rightarrow> island_error + unit" where
  "check_fence e x = (if e < x_syncer_epoch x then Inl (Fenced e (x_syncer_epoch x)) else Inr ())"

abbreviation legacy :: "xledger \<Rightarrow> bool" where
  "legacy x \<equiv> x_mode x = LEGACY"

definition published_get :: "xledger \<Rightarrow> int \<Rightarrow> string option" where
  "published_get x v = dict_get (x_published x) v"

text \<open>\<open>join\<close>: the event reads \<open>published[outer_version]\<close>, which may be absent.\<close>

definition join ::
    "string \<Rightarrow> rat \<Rightarrow> bool option \<Rightarrow> rat \<Rightarrow> string \<Rightarrow> xledger \<Rightarrow> island_error + xledger \<times> pool_event" where
  "join i now catch_up capacity role x =
     (if role \<noteq> ''train'' then Inl (NotTrainRole i role)
      else if dict_get (x_members x) i \<noteq> None then Inl (AlreadyMember i)
      else if legacy x \<and> x_outer x > 0 then Inl FixedMembers
      else
        let catch_up = (if legacy x then Some False else catch_up);
            cu = (case catch_up of None \<Rightarrow> x_outer x > 0 | Some c \<Rightarrow> c);
            m = \<lparr>mb_joined_at = x_outer x, mb_catch_up = cu, mb_heartbeat = now,
                 mb_capacity = capacity\<rparr>;
            x = x\<lparr>x_members := dict_set i m (x_members x), x_epoch := x_epoch x + 1\<rparr>
        in case published_get x (x_outer x) of
             None \<Rightarrow> Inl (MissingKey ''published'')
           | Some h \<Rightarrow> Inr (emit (PoolJoin i cu (x_outer x) h) x))"

definition leave :: "string \<Rightarrow> string \<Rightarrow> xledger \<Rightarrow> island_error + xledger \<times> pool_event" where
  "leave i reason x =
     (if dict_get (x_members x) i = None then Inl (NotMember i)
      else if legacy x then Inl FixedMembers
      else
        let dropped = (case dict_get (x_pending x) i of
              Some d \<Rightarrow> Some d
            | None \<Rightarrow> map_option fst (dict_get (x_carried x) i))
        in Inr (emit (PoolLeave i reason
                  (map_option (\<lambda>d. (c_tokens d, c_steps d, d_outer d)) dropped))
             (x\<lparr>x_members := dict_pop i (x_members x), x_pending := dict_pop i (x_pending x),
                x_carried := dict_pop i (x_carried x), x_epoch := x_epoch x + 1\<rparr>)))"

definition heartbeat :: "string \<Rightarrow> rat \<Rightarrow> xledger \<Rightarrow> island_error + xledger" where
  "heartbeat i now x =
     (case dict_get (x_members x) i of None \<Rightarrow> Inl (NotMember i)
      | Some m \<Rightarrow> Inr (x\<lparr>x_members := dict_set i (m\<lparr>mb_heartbeat := now\<rparr>) (x_members x)\<rparr>))"

definition expire_leases :: "rat \<Rightarrow> xledger \<Rightarrow> island_error + xledger \<times> string list" where
  "expire_leases now x =
     (if legacy x then Inr (x, [])
      else
        let gone = map fst (filter (\<lambda>(i, m). now - mb_heartbeat m > x_lease x) (x_members x))
        in rbind (rfold (\<lambda>i x. rbind (leave i ''lease_expired'' x) (\<lambda>(x, ev). Inr x)) gone x)
             (\<lambda>x. Inr (x, gone)))"

section \<open>The verdict on a sample group\<close>

definition verdict_of :: "verdict_kind \<Rightarrow> string \<Rightarrow> string option \<Rightarrow> int \<times> int option \<Rightarrow> verdict" where
  "verdict_of k reason corr lag =
     \<lparr>v_kind = k, v_reason = reason, v_outer_lag = fst lag, v_inner_lag = snd lag,
      v_correction = corr\<rparr>"

text \<open>\<open>min(segments)\<close>: tuples of a version and a hash compare lexicographically.\<close>

definition seg_le :: "int \<times> string \<Rightarrow> int \<times> string \<Rightarrow> bool" where
  "seg_le a b \<longleftrightarrow> fst a < fst b \<or> fst a = fst b \<and> snd a \<le> snd b"

fun min_segment :: "int \<times> string \<Rightarrow> (int \<times> string) list \<Rightarrow> int \<times> string" where
  "min_segment m [] = m"
| "min_segment m (s # ss) = min_segment (if seg_le m s then m else s) ss"

text \<open>The chain of early returns of \<open>judge\<close> after the version segments are resolved.\<close>

definition judge_plain ::
    "xledger \<Rightarrow> string \<Rightarrow> int option \<Rightarrow> sample_group \<Rightarrow> verdict_kind \<times> string \<times> string option" where
  "judge_plain x consumer consumer_inner g =
     (let (outer_lag, inner_lag) = staleness (x_outer x) consumer_inner (g_outer g) (g_inner g);
          cap = max_inner_lag (x_policy x);
          cross = (g_island g \<noteq> consumer)
      in if legacy x \<and> (g_island g \<noteq> consumer \<or> outer_lag \<noteq> 0) then (REJECT, ''legacy_mode'', None)
         else if dict_get (x_members x) (g_island g) = None then (REJECT, ''producer_not_member'', None)
         else if published_get x (g_outer g) = None \<or> outer_lag < 0 then (REJECT, ''unknown_version'', None)
         else if published_get x (g_outer g) \<noteq> Some (g_hash g) then (REJECT, ''policy_hash_mismatch'', None)
         else if outer_lag = 0
              \<and> (case (inner_lag, cap) of (Some l, Some c) \<Rightarrow> l \<le> c | _ \<Rightarrow> True)
              \<and> (g_island g = consumer \<or> inner_lag \<in> {None, Some 0})
           then (ACCEPT, ''same_version'', None)
         else if on_policy_only (x_policy x) \<and> (cross \<or> outer_lag > 0)
           then (REJECT, ''on_policy_only'', None)
         else if outer_lag > max_outer_lag (x_policy x) then (REJECT, ''outer_lag_exceeded'', None)
         else if (case (cap, inner_lag) of (Some c, Some l) \<Rightarrow> l > c | _ \<Rightarrow> False)
           then (REJECT, ''inner_lag_exceeded'', None)
         else if g_logprob g = None then (REJECT, ''missing_behavior_logprob'', None)
         else (ACCEPT_IS, ''stale_within_bound'', Some (sp_correction (x_policy x))))"

definition verdict_event :: "sample_group \<Rightarrow> string \<Rightarrow> verdict \<Rightarrow> event_body" where
  "verdict_event g consumer v = SampleVerdict (g_island g) consumer (g_outer g) (g_n g) v"

definition resolve_segments :: "sample_group \<Rightarrow> sample_group" where
  "resolve_segments g =
     (case g_segments g of
        Some (s # ss) \<Rightarrow> g\<lparr>g_outer := fst (min_segment s ss), g_hash := snd (min_segment s ss)\<rparr>
      | _ \<Rightarrow> g)"

definition judge ::
    "sample_group \<Rightarrow> string \<Rightarrow> int option \<Rightarrow> xledger \<Rightarrow> xledger \<times> verdict" where
  "judge g consumer consumer_inner x =
     (let segments = (case g_segments g of None \<Rightarrow> [] | Some ss \<Rightarrow> ss);
          bad = filter (\<lambda>(v, h). published_get x v \<noteq> Some h) segments
      in if bad \<noteq> [] then
           let v = verdict_of REJECT ''segment_policy_hash_mismatch'' None
                 (x_outer x - Min (fst ` set segments), None)
           in (fst (emit (verdict_event g consumer v) x), v)
         else
           let g = resolve_segments g;
               (k, reason, corr) = judge_plain x consumer consumer_inner g;
               v = verdict_of k reason corr
                 (staleness (x_outer x) consumer_inner (g_outer g) (g_inner g))
           in (fst (emit (verdict_event g consumer v) x), v))"

section \<open>Deltas and the quorum step\<close>

definition capacity_arrived :: "xledger \<Rightarrow> island_error + rat \<times> rat" where
  "capacity_arrived x =
     rbind (rmap (\<lambda>i. case dict_get (x_members x) i of None \<Rightarrow> Inl (MissingKey i)
                   | Some m \<Rightarrow> Inr (mb_capacity m)) (map fst (x_pending x)))
       (\<lambda>caps. Inr (sum_list caps, sum_list (map (mb_capacity \<circ> snd) (x_members x))))"

definition submit :: "delta_entry \<Rightarrow> xledger \<Rightarrow> xledger \<times> pool_event" where
  "submit d x =
     (let i = d_island d; lag = x_outer x - d_outer d
      in if dict_get (x_members x) i = None then emit (DeltaRejected i ''not_member'' None) x
         else if published_get x (d_outer d) \<noteq> Some (d_hash d) then
           emit (DeltaRejected i ''policy_hash_mismatch'' None) x
         else if lag > 0 \<and> legacy x then
           emit (DeltaRejected i ''stale_base'' (Some (d_outer d, lag))) x
         else if lag > 0 then
           (if lag > x_max_carry_lag x then
              emit (DeltaRejected i ''carry_lag_exceeded'' (Some (d_outer d, lag))) x
            else emit (DeltaCarriedOver i (d_outer d) lag (x_gamma x ^ nat lag))
                   (x\<lparr>x_carried := dict_set i (d, lag) (x_carried x)\<rparr>))
         else emit (DeltaAccepted i (c_tokens d) (c_steps d))
                (x\<lparr>x_pending := dict_set i d (x_pending x)\<rparr>))"

definition weight_of :: "xledger \<Rightarrow> delta_entry \<Rightarrow> island_error + rat" where
  "weight_of x d =
     (case dict_get (x_members x) (d_island d) of
        None \<Rightarrow> Inl (MissingKey (d_island d))
      | Some m \<Rightarrow>
          Inr (if mb_catch_up m \<and> mb_joined_at m = x_outer x then 0
               else merge_weight (c_tokens d) (c_steps d)))"

definition carried_key :: "string \<Rightarrow> delta_entry \<Rightarrow> string" where
  "carried_key i d = i @ ''@'' @ show_int (d_outer d)"

definition add_carried ::
    "xledger \<Rightarrow> string \<times> delta_entry \<times> int \<Rightarrow> (string, rat) dict \<times> (string, int \<times> rat) dict \<Rightarrow>
     (string, rat) dict \<times> (string, int \<times> rat) dict" where
  "add_carried x idl acc =
     (case idl of (i, d, lag) \<Rightarrow>
        if dict_get (x_members x) i = None then acc
        else (dict_set (carried_key i d)
                (merge_weight (c_tokens d) (c_steps d) * x_gamma x ^ nat lag) (fst acc),
              dict_set (carried_key i d) (lag, x_gamma x ^ nat lag) (snd acc)))"

definition raw_weights ::
    "xledger \<Rightarrow> island_error + (string, rat) dict \<times> (string, int \<times> rat) dict" where
  "raw_weights x =
     rbind (rmap (\<lambda>(i, d). rbind (weight_of x d) (\<lambda>w. Inr (i, w))) (items_sorted (x_pending x)))
       (\<lambda>ws. Inr (fold (add_carried x) (items_sorted (x_carried x)) (ws, [])))"

definition normalize :: "(string, rat) dict \<Rightarrow> (string, rat) dict" where
  "normalize ws = (let total = sum_list (map snd ws)
     in map (\<lambda>(i, w). (i, if total > 0 then w / total else 0)) ws)"

definition next_hash :: "string option \<Rightarrow> int \<Rightarrow> string" where
  "next_hash new v = (case new of Some (c # cs) \<Rightarrow> c # cs | _ \<Rightarrow> ''h'' @ show_int v)"

text \<open>The merge at the end of \<open>try_advance\<close>.\<close>

definition outer_advance ::
    "bool \<Rightarrow> string option \<Rightarrow> rat \<Rightarrow> rat \<Rightarrow> xledger \<Rightarrow> (island_error \<times> xledger) + xledger \<times> pool_event" where
  "outer_advance timed_out new_hash cap_arrived cap_total x =
     (case raw_weights x of Inl e \<Rightarrow> Inl (e, x)
      | Inr (weights, carried_in) \<Rightarrow>
          let v = x_outer x + 1; h = next_hash new_hash v
          in Inr (emit (OuterStep
               \<lparr>os_base = x_outer x, os_arrived = length (x_pending x),
                os_cap_arrived = cap_arrived, os_cap_total = cap_total, os_timed_out = timed_out,
                os_carried_in = carried_in, os_weights = normalize weights,
                os_raw_weights = weights,
                os_absent = sort (filter (\<lambda>i. dict_get (x_pending x) i = None)
                              (map fst (x_members x))),
                os_hash = h\<rparr>)
             (x\<lparr>x_carried := [], x_outer := v, x_published := dict_set v h (x_published x),
                x_pending := []\<rparr>)))"

definition try_advance ::
    "bool \<Rightarrow> string option \<Rightarrow> xledger \<Rightarrow> (island_error \<times> xledger) + xledger \<times> pool_event option" where
  "try_advance timed_out new_hash x =
     (case capacity_arrived x of Inl e \<Rightarrow> Inl (e, x)
      | Inr (cap_arrived, cap_total) \<Rightarrow>
         let arrived = length (x_pending x);
             reached = (if legacy x then True
                        else cap_total > 0 \<and> cap_arrived \<ge> x_theta x * cap_total)
         in if legacy x \<and> arrived < length (x_members x) then
              (if timed_out then
                 Inl (LegacyTimeout,
                      fst (emit (LegacyQuorumTimeout arrived (length (x_members x))) x))
               else Inr (x, None))
            else if \<not> reached \<and> \<not> timed_out then Inr (x, None)
            else if int arrived < x_quorum_min x then
              Inr (if timed_out then fst (emit (RoundIdle arrived cap_arrived cap_total) x) else x, None)
            else rbind (outer_advance timed_out new_hash cap_arrived cap_total x)
                   (\<lambda>(x, ev). Inr (x, Some ev)))"

section \<open>Runs of the ledger and its invariant\<close>

inductive xstep :: "xledger \<Rightarrow> xledger \<Rightarrow> bool" where
  xjoin: "join i now cu cap role x = Inr (x', ev) \<Longrightarrow> xstep x x'"
| xleave: "leave i reason x = Inr (x', ev) \<Longrightarrow> xstep x x'"
| xheartbeat: "heartbeat i now x = Inr x' \<Longrightarrow> xstep x x'"
| xexpire: "expire_leases now x = Inr (x', gone) \<Longrightarrow> xstep x x'"
| xjudge: "judge g consumer inner x = (x', v) \<Longrightarrow> xstep x x'"
| xsubmit: "submit d x = (x', ev) \<Longrightarrow> xstep x x'"
| xadvance: "try_advance timed_out h x = Inr (x', r) \<Longrightarrow> xstep x x'"
| xtimeout: "try_advance timed_out h x = Inl (e, x') \<Longrightarrow> xstep x x'"

inductive xreach :: "xledger \<Rightarrow> bool" where
  xinit: "xledger_init p theta q gamma lag lease h se mode = Inr x \<Longrightarrow> xreach x"
| xnext: "xreach x \<Longrightarrow> xstep x x' \<Longrightarrow> xreach x'"

definition is_member :: "xledger \<Rightarrow> string \<Rightarrow> bool" where
  "is_member x i \<longleftrightarrow> dict_get (x_members x) i \<noteq> None"

definition pending_ok :: "xledger \<Rightarrow> bool" where
  "pending_ok x \<longleftrightarrow> dict_ok (x_pending x) \<and> (\<forall>i d. dict_get (x_pending x) i = Some d \<longrightarrow>
     is_member x i \<and> d_island d = i \<and> d_outer d = x_outer x \<and> published_get x (x_outer x) = Some (d_hash d))"

definition carried_ok :: "xledger \<Rightarrow> bool" where
  "carried_ok x \<longleftrightarrow> dict_ok (x_carried x) \<and> (\<forall>i d l. dict_get (x_carried x) i = Some (d, l) \<longrightarrow>
     \<not> legacy x \<and> is_member x i \<and> d_island d = i \<and> d_outer d + l = x_outer x
     \<and> 0 < l \<and> l \<le> x_max_carry_lag x \<and> published_get x (d_outer d) = Some (d_hash d))"

definition config_ok :: "xledger \<Rightarrow> bool" where
  "config_ok x \<longleftrightarrow> 0 < x_theta x \<and> x_theta x \<le> 1 \<and> 1 \<le> x_quorum_min x \<and> 0 \<le> x_gamma x \<and> x_gamma x \<le> 1"

definition published_ok :: "xledger \<Rightarrow> bool" where
  "published_ok x \<longleftrightarrow> 0 \<le> x_outer x \<and> dict_ok (x_published x)
     \<and> (\<forall>v. published_get x v \<noteq> None \<longleftrightarrow> 0 \<le> v \<and> v \<le> x_outer x)"

definition x_inv :: "xledger \<Rightarrow> bool" where
  "x_inv x \<longleftrightarrow> config_ok x \<and> published_ok x \<and> dict_ok (x_members x) \<and> pending_ok x \<and> carried_ok x"

lemmas x_inv_defs = x_inv_def config_ok_def published_ok_def pending_ok_def carried_ok_def
  is_member_def published_get_def

lemma fst_emit [simp]:
  "fst (emit b x) = x\<lparr>x_events := x_events x @ [\<lparr>ev_outer = x_outer x, ev_epoch = x_epoch x, ev_body = b\<rparr>]\<rparr>"
  by (simp add: emit_def Let_def)

lemma emit_pair: "emit b x = (x', ev) \<longleftrightarrow> x' = fst (emit b x)
    \<and> ev = \<lparr>ev_outer = x_outer x, ev_epoch = x_epoch x, ev_body = b\<rparr>"
  by (auto simp: emit_def Let_def)

lemma x_inv_events [simp]: "x_inv (x\<lparr>x_events := es\<rparr>) = x_inv x"
  by (simp add: x_inv_defs)

lemma x_inv_epoch [simp]: "x_inv (x\<lparr>x_epoch := e\<rparr>) = x_inv x"
  by (simp add: x_inv_defs)

lemma init_inv: "xledger_init p theta q gamma lag lease h se mode = Inr x \<Longrightarrow> x_inv x"
  by (auto simp: xledger_init_def rbind_Inr_iff x_inv_defs dict_ok_def split: if_splits)

lemma join_inv: "join i now cu cap role x = Inr (x', ev) \<Longrightarrow> x_inv x \<Longrightarrow> x_inv x'"
  unfolding join_def Let_def
  by (auto simp: emit_pair x_inv_defs split: if_splits option.splits)

lemma leave_inv: "leave i reason x = Inr (x', ev) \<Longrightarrow> x_inv x \<Longrightarrow> x_inv x'"
  unfolding leave_def Let_def
  by (auto simp: emit_pair x_inv_defs split: if_splits option.splits)

lemma heartbeat_inv: "heartbeat i now x = Inr x' \<Longrightarrow> x_inv x \<Longrightarrow> x_inv x'"
  unfolding heartbeat_def
  by (auto simp: x_inv_defs split: if_splits option.splits)

lemma expire_inv: "expire_leases now x = Inr (x', gone) \<Longrightarrow> x_inv x \<Longrightarrow> x_inv x'"
  unfolding expire_leases_def Let_def
  by (auto simp: rbind_Inr_iff leave_inv split: if_splits elim!: rfold_invariant [where I = x_inv])

lemma judge_state:
  "judge g consumer inner x = (x', v) \<Longrightarrow>
   \<exists>g'. x' = x\<lparr>x_events := x_events x @ [\<lparr>ev_outer = x_outer x, ev_epoch = x_epoch x,
      ev_body = verdict_event g' consumer v\<rparr>]\<rparr>"
  unfolding judge_def Let_def by (auto split: if_splits prod.splits)

lemma submit_inv: "submit d x = (x', ev) \<Longrightarrow> x_inv x \<Longrightarrow> x_inv x'"
proof -
  assume s: "submit d x = (x', ev)" and inv: "x_inv x"
  have "d_outer d \<le> x_outer x" if "published_get x (d_outer d) = Some (d_hash d)"
    using inv that by (auto simp: x_inv_def published_ok_def)
  then show ?thesis
    using s inv unfolding submit_def Let_def
    by (auto simp: emit_pair x_inv_defs split: if_splits option.splits)
qed

lemma outer_advance_result:
  assumes "outer_advance t h a c x = Inr (x', ev)"
  obtains weights carried_in where "raw_weights x = Inr (weights, carried_in)"
    "x' = (x\<lparr>x_carried := [], x_outer := x_outer x + 1,
        x_published := dict_set (x_outer x + 1) (next_hash h (x_outer x + 1)) (x_published x),
        x_pending := [], x_events := x_events x @ [ev]\<rparr>)"
    "ev_body ev = OuterStep
       \<lparr>os_base = x_outer x, os_arrived = length (x_pending x), os_cap_arrived = a,
        os_cap_total = c, os_timed_out = t, os_carried_in = carried_in,
        os_weights = normalize weights, os_raw_weights = weights,
        os_absent = sort (filter (\<lambda>i. dict_get (x_pending x) i = None) (map fst (x_members x))),
        os_hash = next_hash h (x_outer x + 1)\<rparr>"
  using assms unfolding outer_advance_def Let_def
  by (auto simp: emit_def Let_def split: sum.splits prod.splits)

lemma outer_advance_inv:
  assumes "outer_advance t h a c x = Inr (x', ev)" and inv: "x_inv x" shows "x_inv x'"
  by (rule outer_advance_result [OF assms(1)]) (use inv in \<open>auto simp: x_inv_defs\<close>)

lemma outer_advance_error: "outer_advance t h a c x = Inl (e, x') \<Longrightarrow> x' = x"
  by (auto simp: outer_advance_def Let_def split: sum.splits prod.splits)

lemma try_advance_inv: "try_advance t h x = Inr (x', r) \<Longrightarrow> x_inv x \<Longrightarrow> x_inv x'"
  unfolding try_advance_def Let_def
  by (auto simp: rbind_Inr_iff outer_advance_inv split: sum.splits prod.splits if_splits)

lemma try_advance_error_inv: "try_advance t h x = Inl (e, x') \<Longrightarrow> x_inv x \<Longrightarrow> x_inv x'"
  unfolding try_advance_def Let_def
  by (auto simp: rbind_Inl_iff dest!: outer_advance_error split: sum.splits prod.splits if_splits)

lemma xstep_inv: "xstep x x' \<Longrightarrow> x_inv x \<Longrightarrow> x_inv x'"
  by (induction rule: xstep.induct)
    (auto dest: join_inv leave_inv heartbeat_inv expire_inv judge_state submit_inv try_advance_inv
      try_advance_error_inv)

lemma xreach_inv: "xreach x \<Longrightarrow> x_inv x"
  by (induction rule: xreach.induct) (auto intro: init_inv xstep_inv)

section \<open>The weights of a step\<close>

lemma merge_weight_nonneg [simp]: "0 \<le> merge_weight tokens steps"
  by (simp add: merge_weight_def)


definition pending_weight :: "xledger \<Rightarrow> string \<Rightarrow> rat \<Rightarrow> bool" where
  "pending_weight x i w \<longleftrightarrow> (\<exists>d m. dict_get (x_pending x) i = Some d \<and> dict_get (x_members x) i = Some m
     \<and> w = (if mb_catch_up m \<and> mb_joined_at m = x_outer x then 0
            else merge_weight (c_tokens d) (c_steps d)))"

definition carried_weight :: "xledger \<Rightarrow> string \<Rightarrow> rat \<Rightarrow> bool" where
  "carried_weight x k w \<longleftrightarrow> (\<exists>i d l. dict_get (x_carried x) i = Some (d, l) \<and> k = carried_key i d
     \<and> is_member x i \<and> w = merge_weight (c_tokens d) (c_steps d) * x_gamma x ^ nat l)"

lemma fold_add_carried:
  assumes "(k, w) \<in> set (fst (fold (add_carried x) its acc))"
    and "\<forall>(i, d, l) \<in> set its. dict_get (x_carried x) i = Some (d, l)"
  shows "(k, w) \<in> set (fst acc) \<or> carried_weight x k w"
  using assms
proof (induction its arbitrary: acc)
  case (Cons it its)
  obtain i d l where it: "it = (i, d, l)" by (cases it) auto
  have "(k, w) \<in> set (fst (add_carried x it acc)) \<or> carried_weight x k w"
    using Cons by simp
  moreover have "carried_weight x (carried_key i d)
      (merge_weight (c_tokens d) (c_steps d) * x_gamma x ^ nat l)"
    if "dict_get (x_members x) i \<noteq> None"
    using that Cons.prems(2) unfolding carried_weight_def is_member_def it by auto
  ultimately show ?case
    by (auto simp: it add_carried_def dest!: in_dict_set split: if_splits)
qed simp

lemma raw_weights_origin:
  assumes inv: "x_inv x" and r: "raw_weights x = Inr (ws, cin)" and kw: "(k, w) \<in> set ws"
  shows "pending_weight x k w \<or> carried_weight x k w"
proof -
  let ?f = "\<lambda>(i, d). rbind (weight_of x d) (\<lambda>w. Inr (i, w))"
  obtain ps where ps: "rmap ?f (items_sorted (x_pending x)) = Inr ps"
    and ws: "fold (add_carried x) (items_sorted (x_carried x)) (ps, []) = (ws, cin)"
    using r by (auto simp: raw_weights_def rbind_Inr_iff)
  have "\<forall>(i, d, l) \<in> set (items_sorted (x_carried x)). dict_get (x_carried x) i = Some (d, l)"
    using inv by (auto simp: x_inv_def carried_ok_def dict_item_get)
  then have "(k, w) \<in> set ps \<or> carried_weight x k w"
    using fold_add_carried [of k w x "items_sorted (x_carried x)" "(ps, [])"] kw by (simp add: ws)
  moreover have "pending_weight x k w" if "(k, w) \<in> set ps"
  proof -
    have "list_all2 (\<lambda>p q. ?f p = Inr q) (items_sorted (x_pending x)) ps"
      using ps by (simp add: rmap_Inr_iff)
    from list_all2_in_right [OF this that]
    obtain i d where p: "(i, d) \<in> set (x_pending x)" "?f (i, d) = Inr (k, w)" by auto
    then have "dict_get (x_pending x) i = Some d" "d_island d = i"
      using inv by (simp_all add: x_inv_def pending_ok_def dict_item_get)
    then show ?thesis using p(2)
      by (auto simp: rbind_Inr_iff weight_of_def pending_weight_def split: option.splits)
  qed
  ultimately show ?thesis by blast
qed


lemma raw_weights_nonneg:
  assumes "x_inv x" "raw_weights x = Inr (ws, cin)" "(k, w) \<in> set ws" shows "0 \<le> w"
  using raw_weights_origin [OF assms] assms(1)
  by (auto simp: pending_weight_def carried_weight_def x_inv_def config_ok_def)

lemma sum_list_divide_rat: "sum_list (map (\<lambda>w. w / c) ws) = sum_list ws / (c :: rat)"
  by (induction ws) (simp_all add: add_divide_distrib)

lemma normalize_sum:
  assumes "\<And>k w. (k, w) \<in> set ws \<Longrightarrow> 0 \<le> w"
  shows "sum_list (map snd (normalize ws)) = (if \<exists>(k, w) \<in> set ws. 0 < w then 1 else 0)"
proof -
  let ?t = "sum_list (map snd ws)"
  have nn: "\<forall>w \<in> set (map snd ws). 0 \<le> w" using assms by auto
  have t: "0 < ?t \<longleftrightarrow> (\<exists>(k, w) \<in> set ws. 0 < w)"
  proof -
    have "?t = 0 \<longleftrightarrow> (\<forall>w \<in> set (map snd ws). w = 0)"
      using nn sum_list_nonneg_eq_0_iff by blast
    moreover have "0 \<le> ?t" using nn sum_list_nonneg by blast
    ultimately have "0 < ?t \<longleftrightarrow> (\<exists>w \<in> set (map snd ws). w \<noteq> 0)" by (auto simp: less_le)
    also have "\<dots> \<longleftrightarrow> (\<exists>w \<in> set (map snd ws). 0 < w)" using nn by (auto simp: less_le)
    finally show ?thesis by (simp add: case_prod_beta)
  qed
  show ?thesis
  proof (cases "0 < ?t")
    case True
    then have "sum_list (map snd (normalize ws)) = sum_list (map (\<lambda>w. w / ?t) (map snd ws))"
      by (simp add: normalize_def Let_def comp_def case_prod_beta)
    also have "\<dots> = ?t / ?t" by (simp only: sum_list_divide_rat)
    finally show ?thesis using True t by simp
  next
    case False
    then show ?thesis using t by (simp add: normalize_def Let_def comp_def case_prod_beta)
  qed
qed

lemma normalize_nonneg:
  assumes "\<And>k w. (k, w) \<in> set ws \<Longrightarrow> 0 \<le> w" and "(k, w) \<in> set (normalize ws)"
  shows "0 \<le> w"
  using assms by (auto simp: normalize_def Let_def)

lemma try_advance_some:
  assumes "try_advance t h x = Inr (x', Some ev)"
  obtains a c where "capacity_arrived x = Inr (a, c)" "x_quorum_min x \<le> int (length (x_pending x))"
    "legacy x \<Longrightarrow> length (x_members x) \<le> length (x_pending x)"
    "legacy x \<or> t \<or> 0 < c \<and> x_theta x * c \<le> a"
    "outer_advance t h a c x = Inr (x', ev)"
  using assms unfolding try_advance_def Let_def
  by (auto simp: rbind_Inr_iff not_less split: sum.splits prod.splits if_splits)

section \<open>Properties of the cross-island ledger\<close>

text \<open>
  C13. In every reachable state of the ledger a pending delta belongs to a current member, is
  based on the current version and carries its published hash; a carried delta belongs to a
  current member, only exists in elastic mode and lags by at least one and at most
  \<open>max_carry_lag\<close> versions; and exactly the versions from 0 to the current one are published.
\<close>

theorem island_ledger_invariant:
  assumes "xreach x"
  shows "(\<forall>i d. dict_get (x_pending x) i = Some d \<longrightarrow> dict_get (x_members x) i \<noteq> None
        \<and> d_island d = i \<and> d_outer d = x_outer x \<and> published_get x (x_outer x) = Some (d_hash d))
    \<and> (\<forall>i d l. dict_get (x_carried x) i = Some (d, l) \<longrightarrow> x_mode x = ELASTIC
        \<and> dict_get (x_members x) i \<noteq> None \<and> d_island d = i \<and> d_outer d + l = x_outer x
        \<and> 1 \<le> l \<and> l \<le> x_max_carry_lag x \<and> published_get x (d_outer d) = Some (d_hash d))
    \<and> (\<forall>v. published_get x v \<noteq> None \<longleftrightarrow> 0 \<le> v \<and> v \<le> x_outer x)"
  using xreach_inv [OF assms] sched_mode.exhaust [of "x_mode x"]
  unfolding x_inv_def pending_ok_def carried_ok_def published_ok_def is_member_def by force

definition ex_policy :: staleness_policy where
  "ex_policy = \<lparr>max_outer_lag = 2, max_inner_lag = None, sp_correction = ''tis'', on_policy_only = False\<rparr>"

definition ex_pool0 :: xledger where
  "ex_pool0 = projr (xledger_init ex_policy default_theta 1 default_gamma 2 30 ''h0'' 0 (Some ''elastic''))"

definition ex_pool1 :: xledger where
  "ex_pool1 = fst (projr (join ''a'' 0 None 1 ''train'' ex_pool0))"

definition ex_delta :: delta_entry where
  "ex_delta = \<lparr>d_island = ''a'', d_outer = 0, d_inner = 4, d_hash = ''h0'', c_tokens = 100, c_steps = 4,
     d_wire_dtype = ''f32'', d_shard = None\<rparr>"

definition ex_pool2 :: xledger where
  "ex_pool2 = fst (submit ex_delta ex_pool1)"

definition ex_pool3 :: xledger where
  "ex_pool3 = fst (projr (try_advance False None ex_pool2))"

lemma ex_pool2_reach: "xreach ex_pool2"
proof -
  have "xledger_init ex_policy default_theta 1 default_gamma 2 30 ''h0'' 0 (Some ''elastic'') = Inr ex_pool0"
    by code_simp
  then have 0: "xreach ex_pool0" by (rule xinit)
  have "join ''a'' 0 None 1 ''train'' ex_pool0
      = Inr (ex_pool1, snd (projr (join ''a'' 0 None 1 ''train'' ex_pool0)))"
    by code_simp
  then have 1: "xreach ex_pool1" by (rule xnext [OF 0 xjoin])
  have "\<exists>ev. submit ex_delta ex_pool1 = (ex_pool2, ev)"
    unfolding ex_pool2_def by (cases "submit ex_delta ex_pool1") auto
  then show ?thesis using xnext [OF 1] xsubmit by blast
qed

theorem island_ledger_invariant_witness:
  "dict_get (x_pending ex_pool2) ''a'' = Some ex_delta \<and> d_outer ex_delta = x_outer ex_pool2
   \<and> published_get ex_pool2 (x_outer ex_pool2) = Some (d_hash ex_delta)"
proof -
  have "dict_get (x_pending ex_pool2) ''a'' = Some ex_delta" by code_simp
  then show ?thesis using island_ledger_invariant [OF ex_pool2_reach] by blast
qed

text \<open>
  C12. A quorum step of \<open>try_advance\<close> publishes exactly one new version and changes no
  earlier one, empties the pending and carried deltas, merges at least \<open>quorum_min\<close>
  deltas, gives every weight to a pending delta of a member (zero for a member that is
  catching up in this round) or to a carried delta of a member discounted by
  \<open>gamma\<close> to the power of its lag, and the normalised weights are non-negative and sum to 1
  unless every raw weight is zero.
\<close>

theorem outer_step_weights:
  assumes run: "xreach x" and adv: "try_advance t h x = Inr (x', Some ev)"
  shows "\<exists>st. ev_body ev = OuterStep st
     \<and> x_outer x' = x_outer x + 1 \<and> x_pending x' = [] \<and> x_carried x' = []
     \<and> x_members x' = x_members x
     \<and> (\<forall>v. published_get x' v = (if v = x_outer x + 1 then Some (os_hash st) else published_get x v))
     \<and> x_quorum_min x \<le> int (os_arrived st)
     \<and> (\<forall>(k, w) \<in> set (os_raw_weights st). pending_weight x k w \<or> carried_weight x k w)
     \<and> (\<forall>(k, w) \<in> set (os_weights st). 0 \<le> w)
     \<and> sum_list (map snd (os_weights st))
        = (if \<exists>(k, w) \<in> set (os_raw_weights st). 0 < w then 1 else 0)"
proof -
  note inv = xreach_inv [OF run]
  obtain a c where q: "x_quorum_min x \<le> int (length (x_pending x))"
    and o: "outer_advance t h a c x = Inr (x', ev)"
    using try_advance_some [OF adv] by blast
  obtain ws cin where r: "raw_weights x = Inr (ws, cin)"
    and x': "x' = (x\<lparr>x_carried := [], x_outer := x_outer x + 1,
        x_published := dict_set (x_outer x + 1) (next_hash h (x_outer x + 1)) (x_published x),
        x_pending := [], x_events := x_events x @ [ev]\<rparr>)"
    and ev: "ev_body ev = OuterStep
       \<lparr>os_base = x_outer x, os_arrived = length (x_pending x), os_cap_arrived = a,
        os_cap_total = c, os_timed_out = t, os_carried_in = cin,
        os_weights = normalize ws, os_raw_weights = ws,
        os_absent = sort (filter (\<lambda>i. dict_get (x_pending x) i = None) (map fst (x_members x))),
        os_hash = next_hash h (x_outer x + 1)\<rparr>" (is "_ = OuterStep ?st")
    using outer_advance_result [OF o] by blast
  note nn = raw_weights_nonneg [OF inv r]
  have "\<forall>(k, w) \<in> set ws. pending_weight x k w \<or> carried_weight x k w"
    using raw_weights_origin [OF inv r] by blast
  moreover have "\<forall>(k, w) \<in> set (normalize ws). 0 \<le> w" using normalize_nonneg nn by blast
  moreover note normalize_sum [of ws, OF nn]
  ultimately show ?thesis
    by (intro exI [of _ ?st]) (simp add: ev q x' published_get_def)
qed

theorem outer_step_weights_witness:
  "x_outer ex_pool3 = 1
   \<and> (\<forall>v. published_get ex_pool3 v = (if v = 1 then Some ''h1'' else published_get ex_pool2 v))"
proof -
  obtain ev where "try_advance False None ex_pool2 = Inr (ex_pool3, Some ev)"
    and "published_get ex_pool3 1 = Some ''h1''" and "x_outer ex_pool2 = 0"
  proof
    show "try_advance False None ex_pool2 = Inr (ex_pool3, Some (the (snd (projr (try_advance False None ex_pool2)))))"
      by code_simp
  qed code_simp+
  then show ?thesis using outer_step_weights [OF ex_pool2_reach] by fastforce
qed

lemma min_segment_least:
  "min_segment m ss \<in> set (m # ss) \<and> (\<forall>s \<in> set (m # ss). fst (min_segment m ss) \<le> fst s)"
proof (induction ss arbitrary: m)
  case (Cons s ss)
  have "fst (if seg_le m s then m else s) \<le> fst m \<and> fst (if seg_le m s then m else s) \<le> fst s"
    by (auto simp: seg_le_def)
  then show ?case using Cons [of "if seg_le m s then m else s"] by fastforce
qed simp

definition segments_of :: "sample_group \<Rightarrow> (int \<times> string) list" where
  "segments_of g = (case g_segments g of None \<Rightarrow> [] | Some ss \<Rightarrow> ss)"

lemma resolve_segments_simps [simp]:
  "g_island (resolve_segments g) = g_island g" "g_logprob (resolve_segments g) = g_logprob g"
  "g_inner (resolve_segments g) = g_inner g"
  by (simp_all add: resolve_segments_def split: option.split list.split)

lemma resolve_segments_oldest: "s \<in> set (segments_of g) \<Longrightarrow> g_outer (resolve_segments g) \<le> fst s"
  using min_segment_least
  by (force simp: segments_of_def resolve_segments_def split: option.splits list.splits)

text \<open>What an accepting verdict of the chain of early returns guarantees.\<close>

definition accepts :: "xledger \<Rightarrow> string \<Rightarrow> sample_group \<Rightarrow> verdict_kind \<times> string \<times> string option \<Rightarrow> bool" where
  "accepts x consumer g r \<longleftrightarrow> dict_get (x_members x) (g_island g) \<noteq> None
     \<and> published_get x (g_outer g) = Some (g_hash g) \<and> g_outer g \<le> x_outer x
     \<and> (legacy x \<longrightarrow> fst r = ACCEPT \<and> g_island g = consumer)
     \<and> (on_policy_only (x_policy x) \<longrightarrow> g_outer g = x_outer x)
     \<and> (fst r = ACCEPT \<longrightarrow> g_outer g = x_outer x \<and> snd (snd r) = None)
     \<and> (fst r = ACCEPT_IS \<longrightarrow> x_outer x - g_outer g \<le> max_outer_lag (x_policy x)
          \<and> g_logprob g \<noteq> None \<and> snd (snd r) = Some (sp_correction (x_policy x)))"

lemma judge_plain_sound:
  assumes "judge_plain x consumer inner g = r" and "fst r \<noteq> REJECT"
  shows "accepts x consumer g r"
  using assms unfolding judge_plain_def staleness_def Let_def accepts_def
  by (auto split: if_splits option.splits)

text \<open>
  C25. A sample group that \<open>judge\<close> does not reject was produced by a current member under a
  published version whose hash it carries, and so were all its version segments; the verdict
  is taken on the oldest segment.  \<open>ACCEPT\<close> is only given to the current version;
  \<open>ACCEPT_IS\<close> only within \<open>max_outer_lag\<close>, with behaviour log-probabilities and with the
  correction of the policy.  Legacy mode accepts only the own groups of the consumer, and an
  on-policy algorithm only groups of the current version.  Judging changes the event tape only.
\<close>

theorem judge_sound:
  assumes j: "judge g consumer inner x = (x', v)" and acc: "v_kind v \<noteq> REJECT"
  shows "dict_get (x_members x) (g_island g) \<noteq> None
    \<and> (\<forall>(w, h) \<in> set (segments_of g). published_get x w = Some h \<and> x_outer x - w \<le> v_outer_lag v)
    \<and> published_get x (x_outer x - v_outer_lag v) = Some (g_hash (resolve_segments g))
    \<and> 0 \<le> v_outer_lag v
    \<and> (legacy x \<longrightarrow> v_kind v = ACCEPT \<and> g_island g = consumer)
    \<and> (on_policy_only (x_policy x) \<longrightarrow> v_outer_lag v = 0)
    \<and> (v_kind v = ACCEPT \<longrightarrow> v_outer_lag v = 0 \<and> v_correction v = None)
    \<and> (v_kind v = ACCEPT_IS \<longrightarrow> v_outer_lag v \<le> max_outer_lag (x_policy x) \<and> g_logprob g \<noteq> None
         \<and> v_correction v = Some (sp_correction (x_policy x)))
    \<and> x' = x\<lparr>x_events := x_events x'\<rparr>"
proof -
  let ?g = "resolve_segments g"
  have x': "x' = x\<lparr>x_events := x_events x'\<rparr>" using judge_state [OF j] by auto
  have good: "filter (\<lambda>(v, h). published_get x v \<noteq> Some h) (segments_of g) = []"
    using j acc unfolding judge_def Let_def segments_of_def [symmetric]
    by (auto simp: verdict_of_def split: if_splits)
  obtain k reason corr where r: "judge_plain x consumer inner ?g = (k, reason, corr)"
    by (cases "judge_plain x consumer inner ?g")
  then have v: "v = verdict_of k reason corr (staleness (x_outer x) inner (g_outer ?g) (g_inner ?g))"
    using j good unfolding judge_def Let_def segments_of_def [symmetric] by simp
  then have lag: "v_outer_lag v = x_outer x - g_outer ?g" and k: "v_kind v = k" "v_correction v = corr"
    by (simp_all add: verdict_of_def staleness_def Let_def)
  have "accepts x consumer ?g (k, reason, corr)"
    using judge_plain_sound [OF r] acc k by simp
  moreover have "\<forall>(w, h) \<in> set (segments_of g). published_get x w = Some h \<and> x_outer x - w \<le> v_outer_lag v"
    using good resolve_segments_oldest by (fastforce simp: filter_empty_conv lag)
  ultimately show ?thesis using lag k x' unfolding accepts_def by auto
qed

definition ex_group :: sample_group where
  "ex_group = \<lparr>g_island = ''a'', g_outer = 1, g_inner = 4, g_hash = ''h1'', g_n = 8,
     g_logprob = Some [0], g_uri = None, g_segments = Some [(1, ''h1''), (0, ''h0'')]\<rparr>"

theorem judge_sound_witness:
  "v_kind (snd (judge ex_group ''b'' None ex_pool3)) = ACCEPT_IS
   \<and> published_get ex_pool3 0 = Some ''h0''"
proof -
  obtain x' v where j: "judge ex_group ''b'' None ex_pool3 = (x', v)" by (rule prod.exhaust)
  have k: "v_kind (snd (judge ex_group ''b'' None ex_pool3)) = ACCEPT_IS" by code_simp
  have "(0, ''h0'') \<in> set (segments_of ex_group)" by code_simp
  then show ?thesis using judge_sound [OF j] k j by fastforce
qed






end
