(* ===== verification/Sample_Pool.thy ===== *)
theory Sample_Pool
  imports Island_Ledger
begin

text \<open>
  The index of the object-store sample pool, \<open>src/yeto/rl/engine/sample_pool.py\<close>: which groups
  of other islands a consumer may train on.  The index asks the cross-island ledger for a
  verdict on each entry; the locale \<open>sample_judge\<close> is what it relies on, and the
  ledger of the previous theory provides it.
\<close>

section \<open>Index entries\<close>

record index_entry =
  ie_island :: string
  ie_outer :: int
  ie_inner :: int
  ie_hash :: string
  ie_group :: string
  ie_prompt :: string
  ie_n :: int
  ie_uri :: string
  ie_size :: int
  ie_sha256 :: string
  ie_has_logprob :: bool
  ie_advantage :: bool
  ie_created_at :: rat
  ie_schema :: string

datatype index_error =
  BadSchema string
| BadUri string
| BadCounts
| BadSha
| NoAdvantage
| SpansIslands string string
| ReindexedDifferently string

definition index_schema :: string where
  "index_schema = ''yeto.rl.sample-index/v1''"

definition uri_schemes :: "string list" where
  "uri_schemes = [''s3://'', ''modal-volume://'', ''nebius-os://'']"

definition starts_with :: "string \<Rightarrow> string \<Rightarrow> bool" where
  "starts_with s p \<longleftrightarrow> take (length p) s = p"

definition check_entry :: "index_entry \<Rightarrow> index_error + index_entry" where
  "check_entry e =
     (if ie_schema e \<noteq> index_schema then Inl (BadSchema (ie_schema e))
      else if \<not> list_ex (starts_with (ie_uri e)) uri_schemes then Inl (BadUri (ie_uri e))
      else if ie_n e < 1 \<or> ie_size e < 0 \<or> ie_outer e < 0 then Inl BadCounts
      else if length (ie_sha256 e) \<noteq> 64 then Inl BadSha
      else if \<not> ie_advantage e then Inl NoAdvantage
      else Inr e)"

definition as_group :: "index_entry \<Rightarrow> sample_group" where
  "as_group e = \<lparr>g_island = ie_island e, g_outer = ie_outer e, g_inner = ie_inner e,
     g_hash = ie_hash e, g_n = ie_n e,
     g_logprob = (if ie_has_logprob e then Some [0] else None), g_uri = Some (ie_uri e),
     g_segments = None\<rparr>"

section \<open>The index\<close>

type_synonym pool_index = "(string \<times> string, index_entry) dict"

definition index_add :: "index_entry \<Rightarrow> pool_index \<Rightarrow> index_error + pool_index" where
  "index_add e ix =
     (let key = (ie_island e, ie_group e);
          others = filter (\<lambda>((i, g), _). g = ie_group e \<and> i \<noteq> ie_island e) ix
      in case others of
           (_, o1) # _ \<Rightarrow> Inl (SpansIslands (ie_group e) (ie_island o1))
         | [] \<Rightarrow>
             (case dict_get ix key of
                Some e' \<Rightarrow> if e' \<noteq> e then Inl (ReindexedDifferently (ie_group e))
                           else Inr (dict_set key e ix)
              | None \<Rightarrow> Inr (dict_set key e ix)))"

definition entry_le :: "index_entry \<Rightarrow> index_entry \<Rightarrow> bool" where
  "entry_le a b \<longleftrightarrow> ie_outer a < ie_outer b \<or> ie_outer a = ie_outer b \<and>
     (ie_island a < ie_island b \<or> ie_island a = ie_island b \<and> ie_group a \<le> ie_group b)"

fun insert_entry :: "index_entry \<Rightarrow> index_entry list \<Rightarrow> index_entry list" where
  "insert_entry e [] = [e]"
| "insert_entry e (f # fs) = (if entry_le e f then e # f # fs else f # insert_entry e fs)"

definition sorted_entries :: "pool_index \<Rightarrow> index_entry list" where
  "sorted_entries ix = foldr insert_entry (map snd ix) []"

text \<open>
  The loop of \<open>select\<close>: \<open>room\<close> is \<open>limit - len(out)\<close>.  The source tests the limit only after an
  entry was appended, so the first accepted entry is taken whatever the limit is.
\<close>

fun select_loop ::
    "(sample_group \<Rightarrow> 'l \<Rightarrow> 'l \<times> verdict) \<Rightarrow> int option \<Rightarrow> index_entry list \<Rightarrow> 'l \<Rightarrow>
     'l \<times> (index_entry \<times> verdict) list" where
  "select_loop jd room [] l = (l, [])"
| "select_loop jd room (e # es) l =
     (let (l, v) = jd (as_group e) l
      in if v_kind v \<in> {ACCEPT, ACCEPT_IS} then
           (case room of
              Some r \<Rightarrow> if r \<le> 1 then (l, [(e, v)])
                        else let (l, out) = select_loop jd (Some (r - 1)) es l in (l, (e, v) # out)
            | None \<Rightarrow> let (l, out) = select_loop jd None es l in (l, (e, v) # out))
         else select_loop jd room es l)"

definition select ::
    "(sample_group \<Rightarrow> 'l \<Rightarrow> 'l \<times> verdict) \<Rightarrow> int option \<Rightarrow> pool_index \<Rightarrow> 'l \<Rightarrow>
     'l \<times> (index_entry \<times> verdict) list" where
  "select jd limit ix l = select_loop jd limit (sorted_entries ix) l"

definition prune_below :: "int \<Rightarrow> pool_index \<Rightarrow> pool_index \<times> nat" where
  "prune_below v ix =
     (let old = map fst (filter (\<lambda>(k, e). ie_outer e < v) ix)
      in (fold dict_pop old ix, length old))"

section \<open>What the index relies on\<close>

text \<open>
  A judge gives a verdict that depends only on the part of the state \<open>core\<close> reads off, and
  judging keeps that part.
\<close>

locale sample_judge =
  fixes jd :: "sample_group \<Rightarrow> 'l \<Rightarrow> 'l \<times> verdict"
    and core :: "'l \<Rightarrow> 'c"
  assumes keeps: "core (fst (jd g l)) = core l"
    and depends: "core l = core l' \<Longrightarrow> snd (jd g l) = snd (jd g l')"
begin

definition accepted :: "'l \<Rightarrow> index_entry \<Rightarrow> bool" where
  "accepted l e \<longleftrightarrow> v_kind (snd (jd (as_group e) l)) \<noteq> REJECT"

definition verdicts :: "'l \<Rightarrow> index_entry list \<Rightarrow> (index_entry \<times> verdict) list" where
  "verdicts l es = map (\<lambda>e. (e, snd (jd (as_group e) l))) (filter (accepted l) es)"

lemma verdicts_core: "core l = core l' \<Longrightarrow> verdicts l es = verdicts l' es"
  unfolding verdicts_def accepted_def by (simp add: depends [of l l'])

lemma select_loop_core: "core (fst (select_loop jd room es l)) = core l"
proof (induction es arbitrary: l room)
  case (Cons e es)
  obtain l1 v where 1: "jd (as_group e) l = (l1, v)" by (rule prod.exhaust)
  have l1: "core l1 = core l" using keeps [of "as_group e" l] 1 by simp
  have IH: "core (fst (select_loop jd room' es l1)) = core l" for room'
    using Cons [of room' l1] l1 by simp
  show ?case
    using 1 l1 IH [of room] IH [of "map_option (\<lambda>r. r - 1) room"]
    by (cases room) (auto simp: case_prod_beta Let_def)
qed simp

lemma select_loop_all: "snd (select_loop jd None es l) = verdicts l es"
proof (induction es arbitrary: l)
  case (Cons e es)
  obtain l1 v where 1: "jd (as_group e) l = (l1, v)" by (rule prod.exhaust)
  have "verdicts l1 es = verdicts l es" using verdicts_core keeps 1 by (metis fst_conv)
  then show ?case using Cons [of l1] 1
    by (cases "v_kind v") (auto simp: verdicts_def accepted_def split: prod.splits)
qed (simp add: verdicts_def)

lemma select_loop_limit:
  "snd (select_loop jd (Some r) es l) = take (nat (max 1 r)) (verdicts l es)"
proof (induction es arbitrary: l r)
  case (Cons e es)
  obtain l1 v where 1: "jd (as_group e) l = (l1, v)" by (rule prod.exhaust)
  have l1: "verdicts l1 es = verdicts l es" using verdicts_core keeps 1 by (metis fst_conv)
  show ?case
  proof (cases "v_kind v = REJECT")
    case True
    then show ?thesis using Cons [of r l1] 1 l1 by (simp add: verdicts_def accepted_def)
  next
    case False
    then have v: "v_kind v \<in> {ACCEPT, ACCEPT_IS}" by (cases "v_kind v") auto
    then have vs: "verdicts l (e # es) = (e, v) # verdicts l es"
      using 1 by (auto simp: verdicts_def accepted_def)
    have "nat (max 1 r) = Suc (nat (max 1 (r - 1)))" if "\<not> r \<le> 1" using that by simp
    then show ?thesis using Cons [of "r - 1" l1] 1 l1 v
      by (auto simp: vs split: prod.splits)
  qed
qed (simp add: verdicts_def)

end

section \<open>The ledger is such a judge\<close>

definition no_events :: "xledger \<Rightarrow> xledger" where
  "no_events x = x\<lparr>x_events := []\<rparr>"

lemma judge_events: "snd (judge g consumer inner (x\<lparr>x_events := es\<rparr>)) = snd (judge g consumer inner x)"
proof -
  have "judge_plain (x\<lparr>x_events := es\<rparr>) consumer inner g' = judge_plain x consumer inner g'" for g'
    by (cases x) (simp only: judge_plain_def published_get_def xledger.select_convs xledger.update_convs)
  then show ?thesis by (simp add: judge_def published_get_def Let_def case_prod_beta)
qed

interpretation sj: sample_judge "\<lambda>g. judge g consumer inner" no_events for consumer inner
proof
  fix g l show "no_events (fst (judge g consumer inner l)) = no_events l"
    using judge_state [of g consumer inner l] by (cases "judge g consumer inner l") (auto simp: no_events_def)
next
  fix l l' g assume "no_events l = no_events l'"
  then have "snd (judge g consumer inner (l\<lparr>x_events := []\<rparr>)) = snd (judge g consumer inner (l'\<lparr>x_events := []\<rparr>))"
    by (simp add: no_events_def)
  then show "snd (judge g consumer inner l) = snd (judge g consumer inner l')"
    by (simp only: judge_events)
qed

section \<open>The order of the entries\<close>

lemma mset_insert_entry [simp]: "mset (insert_entry e es) = add_mset e (mset es)"
  by (induction es) auto

lemma set_insert_entry [simp]: "set (insert_entry e es) = insert e (set es)"
  by (induction es) auto

lemma entry_le_total: "entry_le a b \<or> entry_le b a"
  by (auto simp: entry_le_def)

lemma entry_le_trans: "entry_le a b \<Longrightarrow> entry_le b c \<Longrightarrow> entry_le a c"
  by (auto simp: entry_le_def)

lemma sorted_insert_entry: "sorted_wrt entry_le es \<Longrightarrow> sorted_wrt entry_le (insert_entry e es)"
  by (induction es) (use entry_le_total entry_le_trans in \<open>auto\<close>)

lemma sorted_sorted_entries: "sorted_wrt entry_le (sorted_entries ix)"
  unfolding sorted_entries_def by (induction ix) (auto simp: sorted_insert_entry)

lemma mset_sorted_entries: "mset (sorted_entries ix) = mset (map snd ix)"
  unfolding sorted_entries_def by (induction ix) auto

section \<open>Properties of the index\<close>

text \<open>
  C27. \<open>SamplePoolIndex.select\<close> returns the entries of the index the ledger does not reject,
  all of them without a limit and the first \<open>max 1 limit\<close> with one, in the order of version,
  island and group; each comes with the verdict the ledger would give it alone, and the ledger
  itself only gains events.
\<close>

theorem select_returns_accepted:
  "(let judged = (\<lambda>e. snd (judge (as_group e) consumer None x));
        all = filter (\<lambda>e. v_kind (judged e) \<noteq> REJECT) (sorted_entries ix)
    in snd (select (\<lambda>g. judge g consumer None) limit ix x)
         = map (\<lambda>e. (e, judged e)) (case limit of None \<Rightarrow> all | Some n \<Rightarrow> take (nat (max 1 n)) all))
   \<and> no_events (fst (select (\<lambda>g. judge g consumer None) limit ix x)) = no_events x
   \<and> sorted_wrt entry_le (sorted_entries ix) \<and> mset (sorted_entries ix) = mset (map snd ix)"
proof -
  have "no_events (fst (select (\<lambda>g. judge g consumer None) limit ix x)) = no_events x"
    unfolding select_def by (rule sj.select_loop_core)
  then show ?thesis
    by (cases limit) (simp_all add: select_def sj.select_loop_all sj.select_loop_limit sj.verdicts_def
        sj.accepted_def [abs_def] take_map sorted_sorted_entries mset_sorted_entries Let_def)
qed

text \<open>An index in which a group has one island, and every entry is stored under its own key.\<close>

definition index_ok :: "pool_index \<Rightarrow> bool" where
  "index_ok ix \<longleftrightarrow> dict_ok ix \<and> (\<forall>(k, e) \<in> set ix. k = (ie_island e, ie_group e))
     \<and> (\<forall>(k, e) \<in> set ix. \<forall>(k', e') \<in> set ix. ie_group e = ie_group e' \<longrightarrow> e = e')"

lemma index_add_result:
  assumes "index_add e ix = Inr ix'"
  shows "ix' = dict_set (ie_island e, ie_group e) e ix
    \<and> (\<forall>((i, g), f) \<in> set ix. g = ie_group e \<longrightarrow> i = ie_island e)
    \<and> (\<forall>f. dict_get ix (ie_island e, ie_group e) = Some f \<longrightarrow> f = e)"
  using assms unfolding index_add_def Let_def
  by (auto split: list.splits option.splits if_splits simp: filter_empty_conv)

lemma index_add_ok:
  assumes ok: "index_ok ix" and add: "index_add e ix = Inr ix'" shows "index_ok ix'"
proof -
  note r = index_add_result [OF add]
  have eq: "f = e" if "(k, f) \<in> set ix" "ie_group f = ie_group e" for k f
  proof -
    have k: "k = (ie_island f, ie_group f)" using ok that(1) by (auto simp: index_ok_def)
    then have "ie_island f = ie_island e" using r that by auto
    then have "dict_get ix (ie_island e, ie_group e) = Some f"
      using that k ok by (simp add: index_ok_def dict_item_get)
    then show ?thesis using r by blast
  qed
  have "k = (ie_island f, ie_group f)" if "(k, f) \<in> set ix'" for k f
    using that ok r by (auto simp: index_ok_def dest!: in_dict_set)
  moreover have "f = f'" if "(k, f) \<in> set ix'" "(k', f') \<in> set ix'" "ie_group f = ie_group f'" for k k' f f'
    using that ok r eq by (auto simp: index_ok_def dest!: in_dict_set)
  moreover have "dict_ok ix'" using ok r by (simp add: index_ok_def)
  ultimately show ?thesis unfolding index_ok_def by blast
qed

lemma prune_below_items:
  assumes "dict_ok ix"
  shows "fst (prune_below v ix) = filter (\<lambda>(k, e). v \<le> ie_outer e) ix"
proof -
  have pop: "fold dict_pop ks d = filter (\<lambda>(k, e). k \<notin> set ks) d" for ks and d :: pool_index
    by (induction ks arbitrary: d) (auto simp: AList.delete_eq intro: filter_cong)
  have uniq: "e = f" if "(k, e) \<in> set ix" "(k, f) \<in> set ix" for k e f
    using that assms by (simp add: dict_item_get)
  have keep: "k \<notin> set (map fst (filter (\<lambda>(k, e). ie_outer e < v) ix)) \<longleftrightarrow> v \<le> ie_outer e"
    if i: "(k, e) \<in> set ix" for k e
  proof -
    have "k \<in> set (map fst (filter (\<lambda>(k, e). ie_outer e < v) ix))
        \<longleftrightarrow> (\<exists>f. (k, f) \<in> set ix \<and> ie_outer f < v)"
      by (cases k) (auto simp: image_iff Bex_def)
    then show ?thesis using i uniq [OF i] by (metis not_less)
  qed
  show ?thesis unfolding prune_below_def Let_def pop fst_conv
    by (rule filter_cong [OF refl]) (use keep in \<open>simp add: case_prod_beta del: set_map set_filter\<close>)
qed

text \<open>
  A prompt group never spans islands: after any sequence of accepted \<open>add\<close> calls, and
  after any pruning, two entries of the index with the same group id are the same entry, every
  entry is stored under its own key, and pruning keeps exactly the entries that are not older
  than the bound.
\<close>

theorem index_group_one_island:
  assumes "rfold index_add es [] = Inr ix"
  shows "index_ok ix \<and> index_ok (fst (prune_below v ix))
    \<and> fst (prune_below v ix) = filter (\<lambda>(k, e). v \<le> ie_outer e) ix"
proof -
  have ok: "index_ok ix"
  proof (rule rfold_invariant [OF assms, where I = index_ok])
    show "index_ok []" by (simp add: index_ok_def)
  qed (rule index_add_ok)
  then have p: "fst (prune_below v ix) = filter (\<lambda>(k, e). v \<le> ie_outer e) ix"
    by (simp add: index_ok_def prune_below_items)
  have "dict_ok (filter P ix)" for P
    using ok by (simp add: index_ok_def dict_ok_def distinct_map_filter)
  then have "index_ok (fst (prune_below v ix))" using ok unfolding p index_ok_def by auto
  then show ?thesis using ok p by simp
qed

definition ex_entry :: "string \<Rightarrow> int \<Rightarrow> index_entry" where
  "ex_entry g v = \<lparr>ie_island = ''a'', ie_outer = v, ie_inner = 4, ie_hash = ''h0'', ie_group = g,
     ie_prompt = ''p'', ie_n = 8, ie_uri = ''s3://b/k'', ie_size = 10, ie_sha256 = replicate 64 CHR ''0'',
     ie_has_logprob = True, ie_advantage = True, ie_created_at = 0, ie_schema = index_schema\<rparr>"

theorem index_group_one_island_witness:
  "fst (prune_below 1 [((''a'', ''g0''), ex_entry ''g0'' 0), ((''a'', ''g1''), ex_entry ''g1'' 1)])
     = [((''a'', ''g1''), ex_entry ''g1'' 1)]"
proof -
  have "rfold index_add [ex_entry ''g0'' 0, ex_entry ''g1'' 1] []
      = Inr [((''a'', ''g0''), ex_entry ''g0'' 0), ((''a'', ''g1''), ex_entry ''g1'' 1)]"
    by code_simp
  from index_group_one_island [OF this, of 1] show ?thesis by (simp add: ex_entry_def)
qed

end
