(* ===== verification/Wire_Format.thy ===== *)
theory Wire_Format
  imports Yeto_Prelude
begin

text \<open>
  The parts of the wire formats that several messages share: little-endian integers of a
  fixed width (\<open>struct\<close> in Python, \<open>to_le_bytes\<close> in Rust), UTF-8 texts, and readers that take a
  prefix of the remaining bytes.  The locale \<open>wire_reader\<close> is the contract of a reader:
  a message is read back when its parts are.
\<close>

section \<open>Little-endian integers\<close>

type_synonym u32 = "32 word"
type_synonym u64 = "64 word"

fun le_bytes :: "nat \<Rightarrow> nat \<Rightarrow> bytes" where
  "le_bytes 0 v = []"
| "le_bytes (Suc n) v = word_of_nat (v mod 256) # le_bytes n (v div 256)"

fun le_val :: "bytes \<Rightarrow> nat" where
  "le_val [] = 0"
| "le_val (b # bs) = unat b + 256 * le_val bs"

lemma length_le_bytes [simp]: "length (le_bytes n v) = n"
  by (induction n arbitrary: v) auto

lemma unat_byte [simp]: "n < 256 \<Longrightarrow> unat (word_of_nat n :: byte) = n"
  by (simp add: unat_of_nat)

lemma le_val_le_bytes: "le_val (le_bytes n v) = v mod 256 ^ n"
proof (induction n arbitrary: v)
  case (Suc n)
  have "v mod (256 * 256 ^ n) = 256 * (v div 256 mod 256 ^ n) + v mod 256"
    by (rule mod_mult2_eq)
  then show ?case using Suc by simp
qed simp

lemma le_val_bound: "le_val bs < 256 ^ length bs"
proof (induction bs)
  case (Cons b bs)
  have "unat b < 256" using unsigned_less [where 'a=nat, of b] by simp
  then show ?case using Cons by simp
qed simp

lemma le_bytes_le_val [simp]: "le_bytes (length bs) (le_val bs) = bs"
proof (induction bs)
  case (Cons b bs)
  have "unat b < 256" using unsigned_less [where 'a=nat, of b] by simp
  then show ?case using Cons by simp
qed simp

definition u32_bytes :: "u32 \<Rightarrow> bytes" where
  "u32_bytes w = le_bytes 4 (unat w)"

definition u64_bytes :: "u64 \<Rightarrow> bytes" where
  "u64_bytes w = le_bytes 8 (unat w)"

lemma length_u32_bytes [simp]: "length (u32_bytes w) = 4"
  by (simp add: u32_bytes_def)

lemma length_u64_bytes [simp]: "length (u64_bytes w) = 8"
  by (simp add: u64_bytes_def)

lemma le_val_u32 [simp]: "le_val (u32_bytes w) = unat w"
  using unsigned_less [where 'a=nat, of w] by (simp add: u32_bytes_def le_val_le_bytes)

lemma le_val_u64 [simp]: "le_val (u64_bytes w) = unat w"
  using unsigned_less [where 'a=nat, of w] by (simp add: u64_bytes_def le_val_le_bytes)

section \<open>UTF-8\<close>

text \<open>A text is the list of its code points; surrogates cannot be encoded.\<close>

type_synonym utext = "nat list"

definition scalar :: "nat \<Rightarrow> bool" where
  "scalar c \<longleftrightarrow> c < 0xD800 \<or> 0xE000 \<le> c \<and> c < 0x110000"

definition utf8_char :: "nat \<Rightarrow> nat list" where
  "utf8_char c =
     (if c < 0x80 then [c]
      else if c < 0x800 then [0xC0 + c div 64, 0x80 + c mod 64]
      else if c < 0x10000 then [0xE0 + c div 4096, 0x80 + c div 64 mod 64, 0x80 + c mod 64]
      else [0xF0 + c div 262144, 0x80 + c div 4096 mod 64, 0x80 + c div 64 mod 64, 0x80 + c mod 64])"

definition utf8_encode :: "utext \<Rightarrow> bytes option" where
  "utf8_encode t = (if list_all scalar t then Some (map word_of_nat (concat (map utf8_char t))) else None)"

definition cont :: "nat \<Rightarrow> bool" where
  "cont b \<longleftrightarrow> 0x80 \<le> b \<and> b < 0xC0"

text \<open>The strict decoder: overlong forms, surrogates and truncated sequences are errors.\<close>

fun utf8_dec :: "nat list \<Rightarrow> nat list option" where
  "utf8_dec [] = Some []"
| "utf8_dec (a # bs) =
     (if a < 0x80 then map_option ((#) a) (utf8_dec bs)
      else if a < 0xC2 then None
      else if a < 0xE0 then
        (case bs of b # bs1 \<Rightarrow>
           let c = (a - 0xC0) * 64 + (b - 0x80)
           in if cont b then map_option ((#) c) (utf8_dec bs1) else None
         | [] \<Rightarrow> None)
      else if a < 0xF0 then
        (case bs of b # d # bs2 \<Rightarrow>
           let c = (a - 0xE0) * 4096 + (b - 0x80) * 64 + (d - 0x80)
           in if cont b \<and> cont d \<and> 0x800 \<le> c \<and> scalar c then map_option ((#) c) (utf8_dec bs2) else None
         | _ \<Rightarrow> None)
      else
        (case bs of b # d # e # bs3 \<Rightarrow>
           let c = (a - 0xF0) * 262144 + (b - 0x80) * 4096 + (d - 0x80) * 64 + (e - 0x80)
           in if cont b \<and> cont d \<and> cont e \<and> 0x10000 \<le> c \<and> scalar c
              then map_option ((#) c) (utf8_dec bs3) else None
         | _ \<Rightarrow> None))"

definition utf8_decode :: "bytes \<Rightarrow> utext option" where
  "utf8_decode bs = utf8_dec (map unat bs)"

lemma utf8_char_bytes: "scalar c \<Longrightarrow> b \<in> set (utf8_char c) \<Longrightarrow> b < 256"
  by (auto simp: utf8_char_def scalar_def split: if_splits)

lemma div_mod_2: "(c::nat) = c div 64 * 64 + c mod 64" by simp

lemma div_mod_3: "(c::nat) = c div 4096 * 4096 + c div 64 mod 64 * 64 + c mod 64"
proof -
  define a b r where "a = c div 4096" "b = c div 64 mod 64" "r = c mod 64"
  have "c div 64 = a * 64 + b"
    using div_mult_mod_eq [of "c div 64" 64] by (simp add: a_b_r_def div_mult2_eq [symmetric])
  moreover have "c = c div 64 * 64 + r" unfolding a_b_r_def by simp
  ultimately have "c = (a * 64 + b) * 64 + r" by metis
  then show ?thesis unfolding a_b_r_def [symmetric] by (simp add: algebra_simps)
qed

lemma div_mod_4:
  "(c::nat) = c div 262144 * 262144 + c div 4096 mod 64 * 4096 + c div 64 mod 64 * 64 + c mod 64"
proof -
  define a b r where "a = c div 262144" "b = c div 4096 mod 64" "r = c div 64 mod 64 * 64 + c mod 64"
  have "c div 4096 = a * 64 + b"
    using div_mult_mod_eq [of "c div 4096" 64] by (simp add: a_b_r_def div_mult2_eq [symmetric])
  moreover have "c = c div 4096 * 4096 + r" unfolding a_b_r_def using div_mod_3 [of c] by (simp only: add.assoc)
  ultimately have "c = (a * 64 + b) * 4096 + r" by metis
  then have "c = a * 262144 + b * 4096 + r" by (simp add: algebra_simps)
  then show ?thesis unfolding a_b_r_def by (simp only: add.assoc)
qed

lemma utf8_dec_2:
  "2 \<le> a \<Longrightarrow> a < 32 \<Longrightarrow> b < 64 \<Longrightarrow>
   utf8_dec ((0xC0 + a) # (0x80 + b) # bs) = map_option ((#) (a * 64 + b)) (utf8_dec bs)"
  by (simp add: cont_def Let_def)

lemma utf8_dec_3:
  "a < 16 \<Longrightarrow> b < 64 \<Longrightarrow> d < 64 \<Longrightarrow> 0x800 \<le> a * 4096 + b * 64 + d \<Longrightarrow> scalar (a * 4096 + b * 64 + d) \<Longrightarrow>
   utf8_dec ((0xE0 + a) # (0x80 + b) # (0x80 + d) # bs)
     = map_option ((#) (a * 4096 + b * 64 + d)) (utf8_dec bs)"
  by (simp add: cont_def Let_def)

lemma utf8_dec_4:
  "b < 64 \<Longrightarrow> d < 64 \<Longrightarrow> e < 64 \<Longrightarrow> 0x10000 \<le> a * 262144 + b * 4096 + d * 64 + e \<Longrightarrow>
   scalar (a * 262144 + b * 4096 + d * 64 + e) \<Longrightarrow>
   utf8_dec ((0xF0 + a) # (0x80 + b) # (0x80 + d) # (0x80 + e) # bs)
     = map_option ((#) (a * 262144 + b * 4096 + d * 64 + e)) (utf8_dec bs)"
  by (simp add: cont_def Let_def)

lemma utf8_dec_char: "scalar c \<Longrightarrow> utf8_dec (utf8_char c @ bs) = map_option ((#) c) (utf8_dec bs)"
proof -
  assume s: "scalar c"
  consider "c < 0x80" | "0x80 \<le> c" "c < 0x800" | "0x800 \<le> c" "c < 0x10000" | "0x10000 \<le> c"
    by linarith
  then show ?thesis
  proof cases
    case 2
    have "utf8_dec ((0xC0 + c div 64) # (0x80 + c mod 64) # bs)
        = map_option ((#) (c div 64 * 64 + c mod 64)) (utf8_dec bs)"
      by (rule utf8_dec_2) (use 2 in auto)
    then show ?thesis using 2 by (simp only: utf8_char_def div_mod_2 [symmetric]) simp
  next
    case 3
    have "utf8_dec ((0xE0 + c div 4096) # (0x80 + c div 64 mod 64) # (0x80 + c mod 64) # bs)
        = map_option ((#) (c div 4096 * 4096 + c div 64 mod 64 * 64 + c mod 64)) (utf8_dec bs)"
      by (rule utf8_dec_3; (simp only: div_mod_3 [symmetric])?) (use 3 s in auto)
    then show ?thesis using 3 by (simp only: utf8_char_def div_mod_3 [symmetric]) simp
  next
    case 4
    have "utf8_dec ((0xF0 + c div 262144) # (0x80 + c div 4096 mod 64) # (0x80 + c div 64 mod 64)
          # (0x80 + c mod 64) # bs)
        = map_option ((#) (c div 262144 * 262144 + c div 4096 mod 64 * 4096 + c div 64 mod 64 * 64
            + c mod 64)) (utf8_dec bs)"
      by (rule utf8_dec_4; (simp only: div_mod_4 [symmetric])?) (use 4 s in auto)
    then show ?thesis using 4 by (simp only: utf8_char_def div_mod_4 [symmetric]) simp
  qed (simp add: utf8_char_def)
qed

lemma utf8_dec_chars: "list_all scalar t \<Longrightarrow> utf8_dec (concat (map utf8_char t)) = Some t"
  by (induction t) (auto simp: utf8_dec_char)

lemma utf8_decode_encode: assumes "utf8_encode t = Some bs" shows "utf8_decode bs = Some t"
proof -
  have t: "list_all scalar t" and bs: "bs = map word_of_nat (concat (map utf8_char t))"
    using assms by (auto simp: utf8_encode_def split: if_splits)
  have "map unat bs = concat (map utf8_char t)"
    unfolding bs map_map
    by (rule map_idI) (use t utf8_char_bytes in \<open>auto simp: list_all_iff\<close>)
  then show ?thesis using t by (simp add: utf8_decode_def utf8_dec_chars)
qed

section \<open>Readers\<close>

datatype wire_error =
  Truncated
| VersionCount nat nat
| TextTooLong nat
| NotUtf8
| TrailingBytes nat
| StructError
| BadSourceKind nat
| BadSha256
| EmptyLocator
| EpochRange int
| BadHasVersions nat
| NonzeroCount nat

text \<open>
  A reader takes \<open>n\<close> bytes off the bytes that remain, or fails.  A reading function \<open>f\<close>
  \<open>reads\<close> the value \<open>x\<close> from the bytes \<open>bs\<close> when it returns \<open>x\<close> on every input that starts
  with \<open>bs\<close> and leaves the rest.
\<close>

locale wire_reader =
  fixes tk :: "nat \<Rightarrow> 'r \<Rightarrow> wire_error + bytes \<times> 'r"
    and rest :: "'r \<Rightarrow> bytes"
    and ok :: "'r \<Rightarrow> bool"
  assumes take_enough: "ok r \<Longrightarrow> n \<le> length (rest r) \<Longrightarrow>
      \<exists>r'. tk n r = Inr (take n (rest r), r') \<and> rest r' = drop n (rest r) \<and> ok r'"
    and take_short: "ok r \<Longrightarrow> length (rest r) < n \<Longrightarrow> tk n r = Inl Truncated"
begin

definition reads :: "('r \<Rightarrow> wire_error + 'x \<times> 'r) \<Rightarrow> bytes \<Rightarrow> 'x \<Rightarrow> bool" where
  "reads f bs x \<longleftrightarrow>
     (\<forall>r ys. ok r \<longrightarrow> rest r = bs @ ys \<longrightarrow> (\<exists>r'. f r = Inr (x, r') \<and> rest r' = ys \<and> ok r'))"

lemma reads_take: "n = length bs \<Longrightarrow> reads (tk n) bs bs"
  unfolding reads_def
proof (intro allI impI)
  fix r ys assume "n = length bs" "ok r" "rest r = bs @ ys"
  then show "\<exists>r'. tk n r = Inr (bs, r') \<and> rest r' = ys \<and> ok r'" using take_enough [of r n] by simp
qed

lemma reads_return: "reads (\<lambda>r. Inr (x, r)) [] x"
  by (simp add: reads_def)

lemma reads_bind:
  assumes "reads f bs x" and "reads (g x) cs y"
  shows "reads (\<lambda>r. rbind (f r) (\<lambda>(x, r). g x r)) (bs @ cs) y"
  unfolding reads_def
proof (intro allI impI)
  fix r ys assume r: "ok r" "rest r = (bs @ cs) @ ys"
  then obtain r1 where 1: "f r = Inr (x, r1)" "rest r1 = cs @ ys" "ok r1"
    using assms(1) unfolding reads_def by (metis append.assoc)
  then obtain r2 where "g x r1 = Inr (y, r2)" "rest r2 = ys" "ok r2"
    using assms(2) unfolding reads_def by blast
  then show "\<exists>r'. rbind (f r) (\<lambda>(x, r). g x r) = Inr (y, r') \<and> rest r' = ys \<and> ok r'" using 1 by simp
qed

lemma reads_map:
  assumes "reads f bs x" and "y = h x"
  shows "reads (\<lambda>r. rbind (f r) (\<lambda>(x, r). Inr (h x, r))) bs y"
  using reads_bind [OF assms(1) reads_return, of h] assms(2) by simp

lemma reads_if: "\<not> c \<Longrightarrow> reads f bs y \<Longrightarrow> reads (\<lambda>r. if c then e r else f r) bs y"
  by (simp add: reads_def)

text \<open>One step of a decoder: the value is read and the decoder goes on with the rest.\<close>

lemma reads_step:
  assumes "reads f bs x" and "ok r" and "rest r = bs @ ys"
    and "\<And>r'. ok r' \<Longrightarrow> rest r' = ys \<Longrightarrow> k x r' = v"
  shows "rbind (f r) (\<lambda>(x, r). k x r) = v"
  using assms unfolding reads_def by fastforce

end

end
