(* ===== verification/Recovery_Wire.thy ===== *)
theory Recovery_Wire
  imports Wire_Format
begin

unbundle bit_operations_syntax

text \<open>
  The messages of peer recovery.  The island side is \<open>src/yeto/recovery_protocol.py\<close>, the
  syncer side the wire codec of \<open>src/syncer/src/recovery.rs\<close>; each side encodes what the other
  decodes.  Python integers that \<open>struct\<close> reads are natural numbers, those it packs are
  integers that may not fit; the Rust integers are machine words.
\<close>

section \<open>The island side\<close>

definition no_donor :: nat where "no_donor = 0xFFFFFFFF"
definition source_peer :: nat where "source_peer = 1"
definition source_degraded :: nat where "source_degraded = 2"
definition max_text :: nat where "max_text = 4096"
definition hello_ext_magic :: bytes where "hello_ext_magic = [0x59, 0x45, 0x58, 0x31]"

text \<open>\<open>struct.pack\<close> of an unsigned integer of \<open>w\<close> bytes.\<close>

definition pack_uint :: "nat \<Rightarrow> int \<Rightarrow> wire_error + bytes" where
  "pack_uint w v = (if 0 \<le> v \<and> v < 256 ^ w then Inr (le_bytes w (nat v)) else Inl StructError)"

definition encode_hello_ext :: "int option \<Rightarrow> bool \<Rightarrow> bool \<Rightarrow> wire_error + bytes" where
  "encode_hello_ext syncer_epoch recover expert_tokens =
     (if syncer_epoch = None \<and> \<not> recover \<and> \<not> expert_tokens then Inr []
      else case (case syncer_epoch of Some e \<Rightarrow> if 0 \<le> e \<and> e \<le> 0xFFFFFFFFFFFFFFFF then None else Some e
                 | None \<Rightarrow> None) of
        Some e \<Rightarrow> Inl (EpochRange e)
      | None \<Rightarrow>
          let flags = (if syncer_epoch \<noteq> None then 1 else 0) OR (if recover then 2 else 0)
                OR (if expert_tokens then 4 else (0 :: int))
          in rbind (pack_uint 1 flags) (\<lambda>f.
             rbind (pack_uint 8 (case syncer_epoch of None \<Rightarrow> 0 | Some e \<Rightarrow> e)) (\<lambda>e.
             Inr (hello_ext_magic @ f @ e))))"

record reader =
  rd_data :: bytes
  rd_pos :: nat

definition reader_init :: "bytes \<Rightarrow> reader" where
  "reader_init data = \<lparr>rd_data = data, rd_pos = 0\<rparr>"

definition reader_take :: "nat \<Rightarrow> reader \<Rightarrow> wire_error + bytes \<times> reader" where
  "reader_take n r =
     (if rd_pos r + n > length (rd_data r) then Inl Truncated
      else Inr (take n (drop (rd_pos r) (rd_data r)), r\<lparr>rd_pos := rd_pos r + n\<rparr>))"

fun split_ints :: "nat list \<Rightarrow> bytes \<Rightarrow> nat list" where
  "split_ints [] bs = []"
| "split_ints (w # ws) bs = le_val (take w bs) # split_ints ws (drop w bs)"

text \<open>\<open>unpack\<close> of a little-endian format of unsigned integers with the given widths.\<close>

definition reader_unpack :: "nat list \<Rightarrow> reader \<Rightarrow> wire_error + nat list \<times> reader" where
  "reader_unpack ws r = rbind (reader_take (sum_list ws) r) (\<lambda>(bs, r). Inr (split_ints ws bs, r))"

definition reader_versions :: "nat \<Rightarrow> reader \<Rightarrow> wire_error + nat list \<times> reader" where
  "reader_versions fragments r =
     rbind (reader_unpack [4] r) (\<lambda>(ns, r).
       if hd ns \<noteq> fragments then Inl (VersionCount (hd ns) fragments)
       else reader_unpack (replicate (hd ns) 8) r)"

definition reader_text :: "reader \<Rightarrow> wire_error + utext \<times> reader" where
  "reader_text r =
     rbind (reader_unpack [4] r) (\<lambda>(ns, r).
       if hd ns > max_text then Inl (TextTooLong (hd ns))
       else rbind (reader_take (hd ns) r) (\<lambda>(bs, r).
         case utf8_decode bs of None \<Rightarrow> Inl NotUtf8 | Some t \<Rightarrow> Inr (t, r)))"

definition reader_end :: "reader \<Rightarrow> wire_error + unit" where
  "reader_end r =
     (if rd_pos r \<noteq> length (rd_data r) then Inl (TrailingBytes (length (rd_data r) - rd_pos r)) else Inr ())"

definition versions_bytes :: "int list \<Rightarrow> wire_error + bytes" where
  "versions_bytes vs =
     rbind (pack_uint 4 (int (length vs))) (\<lambda>n.
     rbind (rmap (pack_uint 8) vs) (\<lambda>bss. Inr (n @ concat bss)))"

definition text_bytes :: "utext \<Rightarrow> wire_error + bytes" where
  "text_bytes t =
     (case utf8_encode t of None \<Rightarrow> Inl NotUtf8
      | Some bs \<Rightarrow>
          let raw = take max_text bs
          in rbind (pack_uint 4 (int (length raw))) (\<lambda>n. Inr (n @ raw)))"

text \<open>\<open>None if donor == NO_DONOR else donor\<close>.\<close>

definition donor_of :: "nat \<Rightarrow> nat option" where
  "donor_of d = (if d = no_donor then None else Some d)"

record recovery_clock =
  rc_t_s :: nat
  rc_versions :: "nat list"
  rc_donor :: "nat option"

definition decode_clock :: "bytes \<Rightarrow> nat \<Rightarrow> wire_error + recovery_clock" where
  "decode_clock payload fragments =
     rbind (reader_unpack [8] (reader_init payload)) (\<lambda>(ts, r).
     rbind (reader_versions fragments r) (\<lambda>(vs, r).
     rbind (reader_unpack [4] r) (\<lambda>(ds, r).
     rbind (reader_end r) (\<lambda>_.
       Inr \<lparr>rc_t_s = hd ts, rc_versions = vs, rc_donor = donor_of (hd ds)\<rparr>))))"

record snapshot_request =
  sr_id :: nat
  sr_generation :: nat
  sr_t_s :: nat
  sr_versions :: "nat list"

definition decode_snapshot_request :: "bytes \<Rightarrow> nat \<Rightarrow> wire_error + snapshot_request" where
  "decode_snapshot_request payload fragments =
     rbind (reader_unpack [4, 8, 8] (reader_init payload)) (\<lambda>(hs, r).
     rbind (reader_versions fragments r) (\<lambda>(vs, r).
     rbind (reader_end r) (\<lambda>_.
       Inr \<lparr>sr_id = hs ! 0, sr_generation = hs ! 1, sr_t_s = hs ! 2, sr_versions = vs\<rparr>)))"

definition encode_snapshot_ready ::
    "snapshot_request \<Rightarrow> int list \<Rightarrow> bytes \<Rightarrow> utext \<Rightarrow> wire_error + bytes" where
  "encode_snapshot_ready request versions sha256 locator =
     (if length sha256 \<noteq> 32 then Inl BadSha256
      else if locator = [] then Inl EmptyLocator
      else rbind (pack_uint 4 (int (sr_id request))) (\<lambda>i.
           rbind (pack_uint 8 (int (sr_generation request))) (\<lambda>g.
           rbind (versions_bytes versions) (\<lambda>vs.
           rbind (text_bytes locator) (\<lambda>t. Inr (i @ g @ vs @ sha256 @ t))))))"

record recovery_source =
  rs_kind :: nat
  rs_donor :: "nat option"
  rs_versions :: "nat list"
  rs_sha256 :: bytes
  rs_text :: utext

definition is_peer :: "recovery_source \<Rightarrow> bool" where
  "is_peer s \<longleftrightarrow> rs_kind s = source_peer"

definition decode_source :: "bytes \<Rightarrow> nat \<Rightarrow> wire_error + recovery_source" where
  "decode_source payload fragments =
     rbind (reader_unpack [1, 4] (reader_init payload)) (\<lambda>(hs, r).
       if hs ! 0 \<notin> {source_peer, source_degraded} then Inl (BadSourceKind (hs ! 0))
       else rbind (reader_versions fragments r) (\<lambda>(vs, r).
            rbind (reader_take 32 r) (\<lambda>(sha, r).
            rbind (reader_text r) (\<lambda>(t, r).
            rbind (reader_end r) (\<lambda>_.
              Inr \<lparr>rs_kind = hs ! 0, rs_donor = donor_of (hs ! 1), rs_versions = vs,
                   rs_sha256 = sha, rs_text = t\<rparr>)))))"

definition encode_restored :: "int list option \<Rightarrow> wire_error + bytes" where
  "encode_restored versions =
     (case versions of
        None \<Rightarrow> rbind (versions_bytes []) (\<lambda>v. Inr (0 # v))
      | Some vs \<Rightarrow> rbind (versions_bytes vs) (\<lambda>v. Inr (1 # v)))"

definition encode_failed :: "utext \<Rightarrow> wire_error + bytes" where
  "encode_failed reason = text_bytes reason"

record recovery_done =
  rd_t_s :: nat
  rd_done_step :: nat
  rd_replayed :: nat
  rd_versions :: "nat list"

definition done_steps :: "recovery_done \<Rightarrow> nat" where
  "done_steps d = nat (max 0 (int (rd_done_step d) - int (rd_t_s d)))"

definition decode_done :: "bytes \<Rightarrow> nat \<Rightarrow> wire_error + recovery_done" where
  "decode_done payload fragments =
     rbind (reader_unpack [8, 8, 4] (reader_init payload)) (\<lambda>(hs, r).
     rbind (reader_versions fragments r) (\<lambda>(vs, r).
     rbind (reader_end r) (\<lambda>_.
       Inr \<lparr>rd_t_s = hs ! 0, rd_done_step = hs ! 1, rd_replayed = hs ! 2, rd_versions = vs\<rparr>)))"

section \<open>The syncer side\<close>

record rmember =
  learner_id :: u32
  generation :: u64

record hello_ext =
  he_epoch :: "u64 option"
  he_recover :: bool
  he_expert_tokens :: bool

definition hello_ext_len :: nat where "hello_ext_len = 13"
definition known_flags :: byte where "known_flags = 1 OR 2 OR 4"

definition hello_split :: "bytes \<Rightarrow> bytes \<times> hello_ext option" where
  "hello_split body =
     (if length body < hello_ext_len then (body, None)
      else
        let front = take (length body - hello_ext_len) body;
            tail = drop (length body - hello_ext_len) body;
            flags = tail ! 4;
            epoch = (word_of_nat (le_val (drop 5 tail)) :: u64)
        in if take 4 tail \<noteq> hello_ext_magic \<or> flags AND NOT known_flags \<noteq> 0 then (body, None)
           else if flags AND 1 = 0 \<and> epoch \<noteq> 0 then (body, None)
           else (front, Some \<lparr>he_epoch = (if flags AND 1 \<noteq> 0 then Some epoch else None),
                   he_recover = (flags AND 2 \<noteq> 0), he_expert_tokens = (flags AND 4 \<noteq> 0)\<rparr>))"

definition cursor_take :: "nat \<Rightarrow> bytes \<Rightarrow> wire_error + bytes \<times> bytes" where
  "cursor_take n c = (if length c \<ge> n then Inr (take n c, drop n c) else Inl Truncated)"

definition cursor_u8 :: "bytes \<Rightarrow> wire_error + byte \<times> bytes" where
  "cursor_u8 c = rbind (cursor_take 1 c) (\<lambda>(bs, c). Inr (bs ! 0, c))"

definition cursor_u32 :: "bytes \<Rightarrow> wire_error + u32 \<times> bytes" where
  "cursor_u32 c = rbind (cursor_take 4 c) (\<lambda>(bs, c). Inr (word_of_nat (le_val bs), c))"

definition cursor_u64 :: "bytes \<Rightarrow> wire_error + u64 \<times> bytes" where
  "cursor_u64 c = rbind (cursor_take 8 c) (\<lambda>(bs, c). Inr (word_of_nat (le_val bs), c))"

fun cursor_u64s :: "nat \<Rightarrow> bytes \<Rightarrow> wire_error + u64 list \<times> bytes" where
  "cursor_u64s 0 c = Inr ([], c)"
| "cursor_u64s (Suc n) c =
     rbind (cursor_u64 c) (\<lambda>(v, c). rbind (cursor_u64s n c) (\<lambda>(vs, c). Inr (v # vs, c)))"

definition cursor_versions :: "nat \<Rightarrow> bytes \<Rightarrow> wire_error + u64 list \<times> bytes" where
  "cursor_versions fragments c =
     rbind (cursor_u32 c) (\<lambda>(n, c).
       if unat n \<noteq> fragments then Inl (VersionCount (unat n) fragments) else cursor_u64s (unat n) c)"

definition cursor_text :: "bytes \<Rightarrow> wire_error + utext \<times> bytes" where
  "cursor_text c =
     rbind (cursor_u32 c) (\<lambda>(n, c).
       if unat n > max_text then Inl (TextTooLong (unat n))
       else rbind (cursor_take (unat n) c) (\<lambda>(bs, c).
         case utf8_decode bs of None \<Rightarrow> Inl NotUtf8 | Some t \<Rightarrow> Inr (t, c)))"

definition cursor_end :: "bytes \<Rightarrow> wire_error + unit" where
  "cursor_end c = (if c = [] then Inr () else Inl (TrailingBytes (length c)))"

text \<open>The bytes of a Rust string; its characters are never surrogates.\<close>

definition str_bytes :: "utext \<Rightarrow> bytes" where
  "str_bytes t = map word_of_nat (concat (map utf8_char t))"

definition put_versions :: "u64 list \<Rightarrow> bytes" where
  "put_versions vs = u32_bytes (word_of_nat (length vs)) @ concat (map u64_bytes vs)"

definition put_text :: "utext \<Rightarrow> bytes" where
  "put_text t = (let raw = take max_text (str_bytes t) in u32_bytes (word_of_nat (length raw)) @ raw)"

record snapshot_ready =
  rdy_recovering :: rmember
  rdy_versions :: "u64 list"
  rdy_sha256 :: bytes
  rdy_locator :: utext

definition decode_snapshot_ready :: "bytes \<Rightarrow> nat \<Rightarrow> wire_error + snapshot_ready" where
  "decode_snapshot_ready payload fragments =
     rbind (cursor_u32 payload) (\<lambda>(i, c).
     rbind (cursor_u64 c) (\<lambda>(g, c).
     rbind (cursor_versions fragments c) (\<lambda>(vs, c).
     rbind (cursor_take 32 c) (\<lambda>(sha, c).
     rbind (cursor_text c) (\<lambda>(loc, c).
     rbind (cursor_end c) (\<lambda>_.
       if loc = [] then Inl EmptyLocator
       else Inr \<lparr>rdy_recovering = \<lparr>learner_id = i, generation = g\<rparr>, rdy_versions = vs,
              rdy_sha256 = sha, rdy_locator = loc\<rparr>))))))"

definition decode_restored :: "bytes \<Rightarrow> nat \<Rightarrow> wire_error + u64 list option" where
  "decode_restored payload fragments =
     rbind (cursor_u8 payload) (\<lambda>(k, c).
     rbind (if k = 0 then rbind (cursor_u32 c) (\<lambda>(n, c).
              if n = 0 then Inr (None, c) else Inl (NonzeroCount (unat n)))
            else if k = 1 then rbind (cursor_versions fragments c) (\<lambda>(vs, c). Inr (Some vs, c))
            else Inl (BadHasVersions (unat k))) (\<lambda>(held, c).
     rbind (cursor_end c) (\<lambda>_. Inr held)))"

definition decode_failed :: "bytes \<Rightarrow> wire_error + utext" where
  "decode_failed payload =
     rbind (cursor_text payload) (\<lambda>(t, c). rbind (cursor_end c) (\<lambda>_. Inr t))"

definition donor_word :: "rmember option \<Rightarrow> u32" where
  "donor_word d = (case d of None \<Rightarrow> word_of_nat no_donor | Some m \<Rightarrow> learner_id m)"

definition encode_clock :: "u64 \<Rightarrow> u64 list \<Rightarrow> rmember option \<Rightarrow> bytes" where
  "encode_clock t_s vs donor = u64_bytes t_s @ put_versions vs @ u32_bytes (donor_word donor)"

definition encode_snapshot_request :: "rmember \<Rightarrow> u64 \<Rightarrow> u64 list \<Rightarrow> bytes" where
  "encode_snapshot_request recovering t_s vs =
     u32_bytes (learner_id recovering) @ u64_bytes (generation recovering) @ u64_bytes t_s @ put_versions vs"

definition encode_source :: "byte \<Rightarrow> rmember option \<Rightarrow> u64 list \<Rightarrow> bytes \<Rightarrow> utext \<Rightarrow> bytes" where
  "encode_source kind donor vs sha256 t =
     [kind] @ u32_bytes (donor_word donor) @ put_versions vs @ sha256 @ put_text t"

definition encode_done :: "u64 \<Rightarrow> u64 \<Rightarrow> nat \<Rightarrow> u64 list \<Rightarrow> bytes" where
  "encode_done t_s done_step replayed vs =
     u64_bytes t_s @ u64_bytes done_step @ u32_bytes (word_of_nat replayed) @ put_versions vs"

section \<open>Both readers satisfy the contract\<close>

definition reader_rest :: "reader \<Rightarrow> bytes" where
  "reader_rest r = drop (rd_pos r) (rd_data r)"

lemma reader_rest_init [simp]: "reader_rest (reader_init bs) = bs"
  by (simp add: reader_rest_def reader_init_def)

definition reader_ok :: "reader \<Rightarrow> bool" where
  "reader_ok r \<longleftrightarrow> rd_pos r \<le> length (rd_data r)"

lemma reader_ok_init [simp]: "reader_ok (reader_init bs)"
  by (simp add: reader_ok_def reader_init_def)

interpretation py: wire_reader reader_take reader_rest reader_ok
  by unfold_locales (auto simp: reader_take_def reader_rest_def reader_ok_def add.commute)

definition cursor_rest :: "bytes \<Rightarrow> bytes" where
  "cursor_rest c = c"

definition cursor_ok :: "bytes \<Rightarrow> bool" where
  "cursor_ok c \<longleftrightarrow> True"

interpretation rs: wire_reader cursor_take cursor_rest cursor_ok
  by unfold_locales (auto simp: cursor_take_def cursor_rest_def cursor_ok_def)

lemma reader_end_rest: "reader_ok r \<Longrightarrow> reader_end r = Inr () \<longleftrightarrow> reader_rest r = []"
  by (auto simp: reader_end_def reader_rest_def reader_ok_def)

lemma split_ints_concat:
  "list_all2 (\<lambda>w bs. length bs = w) ws bss \<Longrightarrow> split_ints ws (concat bss) = map le_val bss"
  by (induction rule: list_all2_induct) auto

lemma py_reads_unpack:
  assumes "list_all2 (\<lambda>w bs. length bs = w) ws bss"
  shows "py.reads (reader_unpack ws) (concat bss) (map le_val bss)"
proof -
  have "sum_list ws = length (concat bss)" using assms by (induction rule: list_all2_induct) auto
  then show ?thesis
    using py.reads_map [OF py.reads_take, of "sum_list ws" "concat bss" _ "split_ints ws"]
      split_ints_concat [OF assms]
    unfolding reader_unpack_def [abs_def] by simp
qed

lemma py_reads_versions:
  assumes "length vs < 2 ^ 32"
  shows "py.reads (reader_versions (length vs)) (put_versions vs) (map unat vs)"
proof -
  have n: "py.reads (reader_unpack [4]) (u32_bytes (word_of_nat (length vs))) [length vs]"
    using py_reads_unpack [of "[4]" "[u32_bytes (word_of_nat (length vs))]"] assms
    by (simp add: unat_of_nat)
  have "list_all2 (\<lambda>w bs. length bs = w) (replicate (length vs) 8) (map u64_bytes vs)"
    by (simp add: list_all2_conv_all_nth)
  from py_reads_unpack [OF this]
  have "py.reads (reader_unpack (replicate (length vs) 8)) (concat (map u64_bytes vs)) (map unat vs)"
    by (simp add: comp_def)
  then show ?thesis
    unfolding reader_versions_def [abs_def] put_versions_def
    by (intro py.reads_bind [OF n]) simp
qed

lemma py_reads_text:
  assumes "list_all scalar t" and "length (str_bytes t) \<le> max_text"
  shows "py.reads reader_text (put_text t) t"
proof -
  have e: "utf8_encode t = Some (str_bytes t)" using assms(1) by (simp add: utf8_encode_def str_bytes_def)
  have lt: "length (str_bytes t) < 2 ^ 32" using assms(2) by (simp add: max_text_def)
  have n: "py.reads (reader_unpack [4]) (u32_bytes (word_of_nat (length (str_bytes t)))) [length (str_bytes t)]"
    using py_reads_unpack [of "[4]" "[u32_bytes (word_of_nat (length (str_bytes t)))]"] lt
    by (simp add: unat_of_nat)
  let ?g = "\<lambda>bs (r :: reader). case utf8_decode bs of None \<Rightarrow> Inl NotUtf8 | Some t \<Rightarrow> Inr (t, r)"
  have d: "py.reads (?g (str_bytes t)) [] t"
    using utf8_decode_encode [OF e] py.reads_return by simp
  have "py.reads (\<lambda>r. rbind (reader_take (length (str_bytes t)) r) (\<lambda>(bs, r).
         case utf8_decode bs of None \<Rightarrow> Inl NotUtf8 | Some t \<Rightarrow> Inr (t, r))) (str_bytes t) t"
    using py.reads_bind [where g = ?g and x = "str_bytes t", OF py.reads_take [OF refl] d] by simp
  then show ?thesis
    unfolding reader_text_def [abs_def] put_text_def Let_def
    using assms(2) by (simp, intro py.reads_bind [OF n]) simp
qed

lemma rs_reads_u32: "rs.reads cursor_u32 (u32_bytes w) w"
  using rs.reads_map [OF rs.reads_take, of 4 "u32_bytes w" w "\<lambda>bs. word_of_nat (le_val bs)"]
  by (simp add: cursor_u32_def [abs_def])

lemma rs_reads_u64: "rs.reads cursor_u64 (u64_bytes w) w"
  using rs.reads_map [OF rs.reads_take, of 8 "u64_bytes w" w "\<lambda>bs. word_of_nat (le_val bs)"]
  by (simp add: cursor_u64_def [abs_def])

lemma rs_reads_u64s: "rs.reads (cursor_u64s (length vs)) (concat (map u64_bytes vs)) vs"
proof (induction vs)
  case Nil
  then show ?case using rs.reads_return by simp
next
  case (Cons v vs)
  let ?g = "\<lambda>v c. rbind (cursor_u64s (length vs) c) (\<lambda>(vs, c). Inr (v # vs, c))"
  have "rs.reads (?g v) (concat (map u64_bytes vs)) (v # vs)"
    by (rule rs.reads_map [OF Cons]) simp
  from rs.reads_bind [where g = ?g, OF rs_reads_u64 this] show ?case by simp
qed

lemma rs_reads_versions:
  assumes "length vs < 2 ^ 32"
  shows "rs.reads (cursor_versions (length vs)) (put_versions vs) vs"
  unfolding cursor_versions_def [abs_def] put_versions_def
  by (intro rs.reads_bind [OF rs_reads_u32] rs.reads_if)
    (use assms rs_reads_u64s in \<open>auto simp: unat_of_nat\<close>)

lemma rs_reads_text:
  assumes "list_all scalar t" and "length (str_bytes t) \<le> max_text"
  shows "rs.reads cursor_text (put_text t) t"
proof -
  have e: "utf8_encode t = Some (str_bytes t)" using assms(1) by (simp add: utf8_encode_def str_bytes_def)
  have lt: "length (str_bytes t) < 2 ^ 32" using assms(2) by (simp add: max_text_def)
  let ?g = "\<lambda>bs (c :: bytes). case utf8_decode bs of None \<Rightarrow> Inl NotUtf8 | Some t \<Rightarrow> Inr (t, c)"
  have d: "rs.reads (?g (str_bytes t)) [] t"
    using utf8_decode_encode [OF e] rs.reads_return by simp
  have "rs.reads (\<lambda>c. rbind (cursor_take (length (str_bytes t)) c) (\<lambda>(bs, c). ?g bs c)) (str_bytes t) t"
    using rs.reads_bind [where g = ?g and x = "str_bytes t", OF rs.reads_take [OF refl] d] by simp
  then show ?thesis
    unfolding cursor_text_def [abs_def] put_text_def Let_def
    using assms(2) lt by (simp, intro rs.reads_bind [OF rs_reads_u32]) (simp add: unat_of_nat)
qed

text \<open>The bytes Python packs for values that fit are the ones Rust writes.\<close>

lemma pack_uint_fits: "pack_uint w v = Inr bs \<longleftrightarrow> 0 \<le> v \<and> v < 256 ^ w \<and> bs = le_bytes w (nat v)"
  by (auto simp: pack_uint_def)

lemma pack_uint_u32: "pack_uint 4 (uint w) = Inr (u32_bytes (w :: u32))"
  using unsigned_less [where 'a=int, of w] by (simp add: pack_uint_def u32_bytes_def)

lemma pack_uint_u64: "pack_uint 8 (uint w) = Inr (u64_bytes (w :: u64))"
  using unsigned_less [where 'a=int, of w] by (simp add: pack_uint_def u64_bytes_def)

lemma versions_bytes_put:
  assumes "length vs < 2 ^ 32" shows "versions_bytes (map uint vs) = Inr (put_versions vs)"
proof -
  have "rmap (pack_uint 8) (map uint vs) = Inr (map u64_bytes vs)"
    by (simp add: rmap_Inr_iff list_all2_conv_all_nth pack_uint_u64)
  moreover have "pack_uint 4 (int (length vs)) = Inr (u32_bytes (word_of_nat (length vs)))"
    using assms pack_uint_u32 [of "word_of_nat (length vs)"] by (simp add: uint_nat unat_of_nat)
  ultimately show ?thesis by (simp add: versions_bytes_def put_versions_def)
qed

lemma text_bytes_put:
  assumes "list_all scalar t" shows "text_bytes t = Inr (put_text t)"
proof -
  have "length (take max_text (str_bytes t)) < 2 ^ 32" by (simp add: max_text_def)
  then have "pack_uint 4 (int (length (take max_text (str_bytes t))))
      = Inr (u32_bytes (word_of_nat (length (take max_text (str_bytes t)))))"
    using pack_uint_u32 [of "word_of_nat (length (take max_text (str_bytes t)))"]
    by (simp only: uint_nat unat_of_nat) simp
  then show ?thesis
    using assms by (simp add: text_bytes_def put_text_def utf8_encode_def str_bytes_def Let_def)
qed

section \<open>The island reads what the syncer sends\<close>

lemma py_end: "reader_ok r \<Longrightarrow> reader_rest r = [] \<Longrightarrow> rbind (reader_end r) k = k ()"
  by (simp add: reader_end_rest [THEN iffD2])

lemma rs_end: "cursor_rest c = [] \<Longrightarrow> rbind (cursor_end c) k = k ()"
  by (simp add: cursor_end_def cursor_rest_def)

lemma py_reads_ints2:
  assumes "length a = m" "length b = n"
  shows "py.reads (reader_unpack [m, n]) (a @ b) [le_val a, le_val b]"
  using py_reads_unpack [of "[m, n]" "[a, b]"] assms by simp

lemma py_reads_ints3:
  assumes "length a = m" "length b = n" "length c = k"
  shows "py.reads (reader_unpack [m, n, k]) (a @ b @ c) [le_val a, le_val b, le_val c]"
  using py_reads_unpack [of "[m, n, k]" "[a, b, c]"] assms by simp

lemma py_reads_ints1: "length a = m \<Longrightarrow> py.reads (reader_unpack [m]) a [le_val a]"
  using py_reads_unpack [of "[m]" "[a]"] by simp

lemma donor_of_word:
  assumes "\<And>m. donor = Some m \<Longrightarrow> unat (learner_id m) \<noteq> no_donor"
  shows "donor_of (unat (donor_word donor)) = map_option (unat \<circ> learner_id) donor"
  using assms by (cases donor) (auto simp: donor_of_def donor_word_def no_donor_def unat_of_nat)

lemma decode_clock_encode:
  assumes "length vs < 2 ^ 32" "\<And>m. donor = Some m \<Longrightarrow> unat (learner_id m) \<noteq> no_donor"
  shows "decode_clock (encode_clock t_s vs donor) (length vs)
    = Inr \<lparr>rc_t_s = unat t_s, rc_versions = map unat vs, rc_donor = map_option (unat \<circ> learner_id) donor\<rparr>"
  unfolding decode_clock_def encode_clock_def
  by (rule py.reads_step [OF py_reads_ints1 [of "u64_bytes t_s"]], simp, simp, simp,
      rule py.reads_step [OF py_reads_versions [OF assms(1)]], assumption, assumption,
      rule py.reads_step [OF py_reads_ints1 [of "u32_bytes (donor_word donor)"], where ys = "[]"])
    (simp_all add: py_end donor_of_word assms(2))

lemma decode_request_encode:
  assumes "length vs < 2 ^ 32"
  shows "decode_snapshot_request (encode_snapshot_request m t_s vs) (length vs)
    = Inr \<lparr>sr_id = unat (learner_id m), sr_generation = unat (generation m), sr_t_s = unat t_s,
           sr_versions = map unat vs\<rparr>"
  unfolding decode_snapshot_request_def encode_snapshot_request_def
  by (rule py.reads_step [OF py_reads_ints3 [of "u32_bytes (learner_id m)" 4 "u64_bytes (generation m)" 8
        "u64_bytes t_s" 8]], simp, simp, simp, simp, simp,
      rule py.reads_step [OF py_reads_versions [OF assms(1)], where ys = "[]"])
    (simp_all add: py_end)

lemma decode_done_encode:
  assumes "length vs < 2 ^ 32" and "replayed < 2 ^ 32"
  shows "decode_done (encode_done t_s done_step replayed vs) (length vs)
    = Inr \<lparr>rd_t_s = unat t_s, rd_done_step = unat done_step, rd_replayed = replayed,
           rd_versions = map unat vs\<rparr>"
  unfolding decode_done_def encode_done_def
  by (rule py.reads_step [OF py_reads_ints3 [of "u64_bytes t_s" 8 "u64_bytes done_step" 8
        "u32_bytes (word_of_nat replayed)" 4]], simp, simp, simp, simp, simp,
      rule py.reads_step [OF py_reads_versions [OF assms(1)], where ys = "[]"])
    (use assms(2) in \<open>simp_all add: py_end unat_of_nat\<close>)

lemma decode_source_encode:
  assumes "length vs < 2 ^ 32" "\<And>m. donor = Some m \<Longrightarrow> unat (learner_id m) \<noteq> no_donor"
    and "length sha = 32" and "list_all scalar t" and "length (str_bytes t) \<le> max_text"
    and "unat kind \<in> {source_peer, source_degraded}"
  shows "decode_source (encode_source kind donor vs sha t) (length vs)
    = Inr \<lparr>rs_kind = unat kind, rs_donor = map_option (unat \<circ> learner_id) donor,
           rs_versions = map unat vs, rs_sha256 = sha, rs_text = t\<rparr>"
  unfolding decode_source_def encode_source_def
  by (rule py.reads_step [OF py_reads_ints2 [of "[kind]" 1 "u32_bytes (donor_word donor)" 4]],
      simp, simp, simp, simp, subst if_not_P, use assms(6) in simp,
      rule py.reads_step [OF py_reads_versions [OF assms(1)]], assumption, assumption,
      rule py.reads_step [OF py.reads_take [of 32 sha]], simp add: assms(3), assumption, assumption,
      rule py.reads_step [OF py_reads_text [OF assms(4,5)], where ys = "[]"])
    (simp_all add: py_end donor_of_word assms(2))

section \<open>The syncer reads what the island sends\<close>

lemma decode_snapshot_ready_encode:
  assumes "length vs < 2 ^ 32" and "length sha = 32" and "list_all scalar loc" and "loc \<noteq> []"
    and "length (str_bytes loc) \<le> max_text"
    and req: "sr_id req = unat i" "sr_generation req = unat g"
  shows "rbind (encode_snapshot_ready req (map uint vs) sha loc) (\<lambda>bs. decode_snapshot_ready bs (length vs))
    = Inr \<lparr>rdy_recovering = \<lparr>learner_id = i, generation = g\<rparr>, rdy_versions = vs, rdy_sha256 = sha,
           rdy_locator = loc\<rparr>"
proof -
  have "encode_snapshot_ready req (map uint vs) sha loc
      = Inr (u32_bytes i @ u64_bytes g @ put_versions vs @ sha @ put_text loc)"
    using pack_uint_u32 [of i] pack_uint_u64 [of g] assms
    by (simp add: encode_snapshot_ready_def versions_bytes_put text_bytes_put)
  moreover have "decode_snapshot_ready (u32_bytes i @ u64_bytes g @ put_versions vs @ sha @ put_text loc) (length vs)
    = Inr \<lparr>rdy_recovering = \<lparr>learner_id = i, generation = g\<rparr>, rdy_versions = vs, rdy_sha256 = sha,
           rdy_locator = loc\<rparr>"
    unfolding decode_snapshot_ready_def
    by (rule rs.reads_step [OF rs_reads_u32 [of i]], simp add: cursor_ok_def, simp add: cursor_rest_def,
        rule rs.reads_step [OF rs_reads_u64 [of g]], assumption, assumption,
        rule rs.reads_step [OF rs_reads_versions [OF assms(1)]], assumption, assumption,
        rule rs.reads_step [OF rs.reads_take [of 32 sha]], simp add: assms(2), assumption, assumption,
        rule rs.reads_step [OF rs_reads_text [OF assms(3,5)], where ys = "[]"])
      (simp_all add: rs_end assms(4))
  ultimately show ?thesis by simp
qed

lemma rs_reads_u8: "rs.reads cursor_u8 [b] b"
  using rs.reads_map [OF rs.reads_take, of 1 "[b]" b "\<lambda>bs. bs ! 0"] by (simp add: cursor_u8_def [abs_def])

lemma decode_restored_none: "rbind (encode_restored None) (\<lambda>bs. decode_restored bs n) = Inr None"
proof -
  have "encode_restored None = Inr [0, 0, 0, 0, 0]" by code_simp
  moreover have "decode_restored [0, 0, 0, 0, 0] n = Inr None"
    by (simp add: decode_restored_def cursor_u8_def cursor_u32_def cursor_take_def cursor_end_def)
  ultimately show ?thesis by simp
qed

lemma decode_restored_some:
  assumes "length vs < 2 ^ 32"
  shows "rbind (encode_restored (Some (map uint vs))) (\<lambda>bs. decode_restored bs (length vs)) = Inr (Some vs)"
proof -
  have "rs.reads (\<lambda>c. rbind (cursor_versions (length vs) c) (\<lambda>(vs, c). Inr (Some vs, c)))
      (put_versions vs) (Some vs)"
    by (rule rs.reads_map [OF rs_reads_versions [OF assms]]) simp
  then have "decode_restored (1 # put_versions vs) (length vs) = Inr (Some vs)"
    unfolding decode_restored_def
    by (intro rs.reads_step [OF rs_reads_u8 [of 1], where ys = "put_versions vs"])
      (simp_all add: cursor_ok_def cursor_rest_def rs_end,
       rule rs.reads_step [where ys = "[]"],
       simp_all add: cursor_ok_def cursor_rest_def cursor_end_def)
  then show ?thesis using assms by (simp add: encode_restored_def versions_bytes_put)
qed

lemma decode_failed_encode:
  assumes "list_all scalar t" and "length (str_bytes t) \<le> max_text"
  shows "rbind (encode_failed t) decode_failed = Inr t"
proof -
  have "decode_failed (put_text t) = Inr t"
    unfolding decode_failed_def
    by (rule rs.reads_step [OF rs_reads_text [OF assms], where ys = "[]"])
      (simp_all add: cursor_ok_def cursor_rest_def rs_end cursor_end_def)
  then show ?thesis using assms by (simp add: encode_failed_def text_bytes_put)
qed

lemma hello_split_trailer:
  assumes "flags AND NOT known_flags = 0" and "flags AND 1 = 0 \<longrightarrow> e = 0"
  shows "hello_split (body @ hello_ext_magic @ [flags] @ u64_bytes e)
    = (body, Some \<lparr>he_epoch = (if flags AND 1 \<noteq> 0 then Some e else None),
         he_recover = (flags AND 2 \<noteq> 0), he_expert_tokens = (flags AND 4 \<noteq> 0)\<rparr>)"
proof -
  define t where "t = hello_ext_magic @ [flags] @ u64_bytes e"
  have t: "length t = hello_ext_len" "drop 5 t = u64_bytes e" "take 4 t = hello_ext_magic" "t ! 4 = flags"
    by (simp_all add: t_def hello_ext_magic_def hello_ext_len_def)
  have "hello_split (body @ t)
    = (body, Some \<lparr>he_epoch = (if flags AND 1 \<noteq> 0 then Some e else None),
         he_recover = (flags AND 2 \<noteq> 0), he_expert_tokens = (flags AND 4 \<noteq> 0)\<rparr>)"
    using assms by (simp add: hello_split_def t)
  then show ?thesis by (simp only: t_def)
qed

lemma hello_split_encode:
  assumes "epoch \<noteq> None \<or> recover \<or> tokens" and "\<And>e. epoch = Some e \<Longrightarrow> 0 \<le> e \<and> e < 2 ^ 64"
  shows "rbind (encode_hello_ext epoch recover tokens) (\<lambda>ext. Inr (hello_split (body @ ext)))
    = Inr (body, Some \<lparr>he_epoch = map_option word_of_int epoch, he_recover = recover,
        he_expert_tokens = tokens\<rparr>)"
proof -
  define e where "e = (case epoch of None \<Rightarrow> 0 | Some e \<Rightarrow> e)"
  define f where "f = (if epoch \<noteq> None then 1 else 0) OR (if recover then 2 else 0) OR (if tokens then 4 else (0 :: int))"
  define w where "w = (word_of_int e :: u64)"
  have e: "0 \<le> e" "e < 2 ^ 64" using assms(2) by (auto simp: e_def split: option.splits)
  have f: "0 \<le> f" "f < 8" by (auto simp: f_def)
  have "encode_hello_ext epoch recover tokens = Inr (hello_ext_magic @ [word_of_int f] @ u64_bytes w)"
  proof -
    have "pack_uint 1 f = Inr [word_of_int f]" using f by (simp add: pack_uint_def)
    moreover have "pack_uint 8 e = Inr (u64_bytes w)"
    proof -
      have "uint w = e" using e by (simp add: w_def uint_word_of_int)
      then show ?thesis using pack_uint_u64 [of w] by simp
    qed
    ultimately show ?thesis
      using assms by (auto simp: encode_hello_ext_def e_def f_def split: option.splits)
  qed
  moreover have "hello_split (body @ hello_ext_magic @ [word_of_int f] @ u64_bytes w)
    = (body, Some \<lparr>he_epoch = map_option word_of_int epoch, he_recover = recover, he_expert_tokens = tokens\<rparr>)"
    by (subst hello_split_trailer)
      (auto simp: known_flags_def f_def e_def w_def split: option.splits)
  ultimately show ?thesis by simp
qed

section \<open>Properties of the recovery messages\<close>

text \<open>
  C28. The island decodes every recovery message the syncer sends to exactly what was encoded:
  the clock, the snapshot request, the source and the end of a recovery.  A donor with the id
  \<open>NO_DONOR\<close> cannot be told from no donor, so it is excluded, and a text must fit \<open>MAX_TEXT\<close> bytes.
\<close>

theorem island_reads_syncer:
  assumes vs: "length vs < 2 ^ 32" and d: "\<forall>m. donor = Some m \<longrightarrow> unat (learner_id m) \<noteq> no_donor"
    and sha: "length sha = 32" and t: "list_all scalar t" "length (str_bytes t) \<le> max_text"
    and k: "unat kind \<in> {source_peer, source_degraded}" and n: "replayed < 2 ^ 32"
  shows "decode_clock (encode_clock t_s vs donor) (length vs)
      = Inr \<lparr>rc_t_s = unat t_s, rc_versions = map unat vs, rc_donor = map_option (unat \<circ> learner_id) donor\<rparr>
    \<and> decode_snapshot_request (encode_snapshot_request m t_s vs) (length vs)
      = Inr \<lparr>sr_id = unat (learner_id m), sr_generation = unat (generation m), sr_t_s = unat t_s,
             sr_versions = map unat vs\<rparr>
    \<and> decode_source (encode_source kind donor vs sha t) (length vs)
      = Inr \<lparr>rs_kind = unat kind, rs_donor = map_option (unat \<circ> learner_id) donor,
             rs_versions = map unat vs, rs_sha256 = sha, rs_text = t\<rparr>
    \<and> decode_done (encode_done t_s done_step replayed vs) (length vs)
      = Inr \<lparr>rd_t_s = unat t_s, rd_done_step = unat done_step, rd_replayed = replayed,
             rd_versions = map unat vs\<rparr>"
  using decode_clock_encode [OF vs d [rule_format]] decode_request_encode [OF vs]
    decode_source_encode [OF vs d [rule_format] sha t k] decode_done_encode [OF vs n] by simp

theorem island_reads_syncer_witness:
  "decode_source (encode_source 1 (Some \<lparr>learner_id = 2, generation = 5\<rparr>) [3, 4] (replicate 32 7) [0x73, 0xE9]) (Suc (Suc 0))
     = Inr \<lparr>rs_kind = 1, rs_donor = Some 2, rs_versions = [3, 4], rs_sha256 = replicate 32 7,
            rs_text = [0x73, 0xE9]\<rparr>"
proof -
  have t: "list_all scalar [0x73, 0xE9]" "length (str_bytes [0x73, 0xE9]) \<le> max_text"
    by (simp_all add: scalar_def str_bytes_def utf8_char_def max_text_def)
  have k: "unat (1 :: byte) \<in> {source_peer, source_degraded}" by (simp add: source_peer_def)
  have d: "\<forall>m. Some \<lparr>learner_id = 2, generation = 5\<rparr> = Some m \<longrightarrow> unat (learner_id m) \<noteq> no_donor"
    by (auto simp: no_donor_def)
  have "decode_source (encode_source 1 (Some \<lparr>learner_id = 2, generation = 5\<rparr>) [3, 4] (replicate 32 7)
      [0x73, 0xE9]) (length [3, 4 :: u64])
    = Inr \<lparr>rs_kind = unat (1 :: byte),
        rs_donor = map_option (unat \<circ> learner_id) (Some \<lparr>learner_id = 2, generation = 5\<rparr>),
        rs_versions = map unat [3, 4 :: u64], rs_sha256 = replicate 32 7, rs_text = [0x73, 0xE9]\<rparr>"
    using island_reads_syncer [where vs = "[3, 4]" and sha = "replicate 32 7" and replayed = 0, OF _ d _ t k] by simp
  then show ?thesis by simp
qed

text \<open>
  C29. The syncer decodes every message of a recovering island or donor to what the island
  encoded: the answer of a donor, the versions held after a restore, the reason of a failure,
  and the trailer of HELLO, which it strips from whatever body precedes it.
\<close>

theorem syncer_reads_island:
  assumes vs: "length vs < 2 ^ 32" and sha: "length sha = 32"
    and t: "list_all scalar t" "t \<noteq> []" "length (str_bytes t) \<le> max_text"
    and req: "sr_id req = unat i" "sr_generation req = unat g"
    and ext: "epoch \<noteq> None \<or> recover \<or> tokens" "\<forall>e. epoch = Some e \<longrightarrow> 0 \<le> e \<and> e < 2 ^ 64"
  shows "rbind (encode_snapshot_ready req (map uint vs) sha t) (\<lambda>bs. decode_snapshot_ready bs (length vs))
      = Inr \<lparr>rdy_recovering = \<lparr>learner_id = i, generation = g\<rparr>, rdy_versions = vs, rdy_sha256 = sha,
             rdy_locator = t\<rparr>
    \<and> rbind (encode_restored None) (\<lambda>bs. decode_restored bs n) = Inr None
    \<and> rbind (encode_restored (Some (map uint vs))) (\<lambda>bs. decode_restored bs (length vs)) = Inr (Some vs)
    \<and> rbind (encode_failed t) decode_failed = Inr t
    \<and> rbind (encode_hello_ext epoch recover tokens) (\<lambda>e. Inr (hello_split (body @ e)))
      = Inr (body, Some \<lparr>he_epoch = map_option word_of_int epoch, he_recover = recover,
          he_expert_tokens = tokens\<rparr>)"
  using decode_snapshot_ready_encode [OF vs sha t(1,2,3) req] decode_restored_none
    decode_restored_some [OF vs] decode_failed_encode [OF t(1,3)] hello_split_encode [OF ext(1) ext(2) [rule_format]] by simp

theorem syncer_reads_island_witness:
  "rbind (encode_hello_ext (Some 9) True False) (\<lambda>e. Inr (hello_split ([1, 2] @ e)))
     = Inr ([1, 2], Some \<lparr>he_epoch = Some 9, he_recover = True, he_expert_tokens = False\<rparr>)"
proof -
  have t: "list_all scalar [0x73]" "[0x73 :: nat] \<noteq> []" "length (str_bytes [0x73]) \<le> max_text"
    by (simp_all add: scalar_def str_bytes_def utf8_char_def max_text_def)
  have e: "\<forall>e. Some (9 :: int) = Some e \<longrightarrow> 0 \<le> e \<and> e < 2 ^ 64" by simp
  have "rbind (encode_hello_ext (Some 9) True False) (\<lambda>e. Inr (hello_split ([1, 2] @ e)))
      = Inr ([1, 2], Some \<lparr>he_epoch = map_option word_of_int (Some 9), he_recover = True,
          he_expert_tokens = False\<rparr>)"
    using syncer_reads_island [where vs = "[3, 4]" and sha = "replicate 32 7" and tokens = False
        and req = "\<lparr>sr_id = unat (2 :: u32), sr_generation = unat (5 :: u64), sr_t_s = 0, sr_versions = []\<rparr>"
        and i = 2 and g = 5 and recover = True and body = "[1, 2]", OF _ _ t _ _ _ e] by simp
  then show ?thesis by simp
qed



end
