(* ===== verification/Recovery_Machine.thy ===== *)
theory Recovery_Machine
  imports Recovery_Wire
begin

text \<open>
  The state machine of peer recovery in \<open>src/syncer/src/recovery.rs\<close>: which donor is asked for a
  snapshot, what happens when a donor fails, and when the recovering island is back.  A
  \<open>BTreeMap\<close> is an association list in ascending order of its keys, an \<open>Instant\<close> and a
  \<open>Duration\<close> are numbers of nanoseconds.  The text of a duration is a parameter of the messages that
  show one.
\<close>

section \<open>State\<close>

definition ascii :: "string \<Rightarrow> utext" where
  "ascii s = map of_char s"

definition show_u64 :: "u64 \<Rightarrow> utext" where "show_u64 w = ascii (show_nat (unat w))"
definition show_u32 :: "u32 \<Rightarrow> utext" where "show_u32 w = ascii (show_nat (unat w))"

definition msg_recovery_clock :: byte where "msg_recovery_clock = 40"
definition msg_peer_snapshot_req :: byte where "msg_peer_snapshot_req = 41"
definition msg_recovery_source :: byte where "msg_recovery_source = 43"
definition msg_recovery_done :: byte where "msg_recovery_done = 46"

record recovery_config =
  bound_steps :: "u64 option"
  max_donor_tries :: u32
  donor_timeout :: nat

datatype recovery_error =
  BadTries
| BadTimeout
| IndexPanic
| NotRecovering
| NoSourceYet
| RestoredLength nat nat
| RestoredAhead nat u64 u64

definition validate :: "recovery_config \<Rightarrow> recovery_error + unit" where
  "validate cfg =
     (if \<not> max_donor_tries cfg \<ge> 1 then Inl BadTries
      else if donor_timeout cfg = 0 then Inl BadTimeout
      else Inr ())"

record candidate =
  cd_member :: rmember
  cd_outstanding :: nat

record outbound =
  ob_to :: rmember
  ob_type :: byte
  ob_payload :: bytes

datatype source_kind = Peer rmember | Degraded

datatype phase = AwaitSnapshot rmember nat | AwaitRestore source_kind

record pending =
  p_member :: rmember
  p_t_s :: u64
  p_versions :: "u64 list"
  p_started :: nat
  p_phase :: phase
  p_tried :: "u32 list"
  p_attempts :: u32
  p_last_failure :: "utext option"

record recovery_record =
  rr_member :: rmember
  rr_source :: source_kind
  rr_t_s :: u64
  rr_done_step :: u64
  rr_steps :: u64
  rr_bound_steps :: "u64 option"
  rr_missed :: bool
  rr_donor_attempts :: u32
  rr_replayed :: nat
  rr_elapsed :: nat
  rr_last_failure :: "utext option"

record peer_recovery =
  pr_cfg :: recovery_config
  pr_pending :: "(u32, pending) dict"

definition recovery_new :: "recovery_config \<Rightarrow> peer_recovery" where
  "recovery_new cfg = \<lparr>pr_cfg = cfg, pr_pending = []\<rparr>"

fun phase_donor :: "phase \<Rightarrow> rmember option" where
  "phase_donor (AwaitSnapshot donor _) = Some donor"
| "phase_donor (AwaitRestore _) = None"

definition recovery_is_pending :: "peer_recovery \<Rightarrow> rmember \<Rightarrow> bool" where
  "recovery_is_pending pr m =
     (case dict_get (pr_pending pr) (learner_id m) of None \<Rightarrow> False | Some p \<Rightarrow> p_member p = m)"

definition recovery_is_empty :: "peer_recovery \<Rightarrow> bool" where
  "recovery_is_empty pr \<longleftrightarrow> pr_pending pr = []"

section \<open>Operations\<close>

text \<open>\<open>min_by_key\<close> returns the first of several minimal elements.\<close>

definition cand_le :: "candidate \<Rightarrow> candidate \<Rightarrow> bool" where
  "cand_le a b \<longleftrightarrow> cd_outstanding a < cd_outstanding b \<or> cd_outstanding a = cd_outstanding b
     \<and> learner_id (cd_member a) \<le> learner_id (cd_member b)"

fun min_candidate :: "candidate list \<Rightarrow> candidate option" where
  "min_candidate [] = None"
| "min_candidate (c # cs) =
     (case min_candidate cs of None \<Rightarrow> Some c | Some d \<Rightarrow> Some (if cand_le c d then c else d))"

definition pick_donor :: "peer_recovery \<Rightarrow> u32 \<Rightarrow> candidate list \<Rightarrow> rmember option" where
  "pick_donor pr i candidates =
     (case dict_get (pr_pending pr) i of None \<Rightarrow> None
      | Some p \<Rightarrow>
          if p_attempts p \<ge> max_donor_tries (pr_cfg pr) then None
          else map_option cd_member (min_candidate
            (filter (\<lambda>c. dict_get (pr_pending pr) (learner_id (cd_member c)) = None)
            (filter (\<lambda>c. learner_id (cd_member c) \<notin> set (p_tried p))
            (filter (\<lambda>c. learner_id (cd_member c) \<noteq> i) candidates)))))"

definition degraded_reason :: "pending \<Rightarrow> utext" where
  "degraded_reason p =
     (case p_last_failure p of
        Some failure \<Rightarrow> ascii ''no donor left after '' @ show_u32 (p_attempts p) @ ascii '' tries; last: '' @ failure
      | None \<Rightarrow> ascii ''no healthy donor island'')"

definition ask :: "u32 \<Rightarrow> rmember option \<Rightarrow> nat \<Rightarrow> peer_recovery \<Rightarrow> peer_recovery \<times> outbound list" where
  "ask i donor now pr =
     (case dict_get (pr_pending pr) i of None \<Rightarrow> (pr, [])
      | Some p \<Rightarrow>
          (case donor of
             Some d \<Rightarrow>
               (pr\<lparr>pr_pending := bt_insert i
                    (p\<lparr>p_attempts := p_attempts p + 1, p_tried := List.insert (learner_id d) (p_tried p),
                       p_phase := AwaitSnapshot d (now + donor_timeout (pr_cfg pr))\<rparr>) (pr_pending pr)\<rparr>,
                [\<lparr>ob_to = d, ob_type = msg_peer_snapshot_req,
                  ob_payload = encode_snapshot_request (p_member p) (p_t_s p) (p_versions p)\<rparr>])
           | None \<Rightarrow>
               (pr\<lparr>pr_pending := bt_insert i (p\<lparr>p_phase := AwaitRestore Degraded\<rparr>) (pr_pending pr)\<rparr>,
                [\<lparr>ob_to = p_member p, ob_type = msg_recovery_source,
                  ob_payload = encode_source (word_of_nat source_degraded) None
                    (replicate (length (p_versions p)) 0) (replicate 32 0) (degraded_reason p)\<rparr>])))"

definition recovery_begin ::
    "rmember \<Rightarrow> u64 \<Rightarrow> u64 list \<Rightarrow> candidate list \<Rightarrow> nat \<Rightarrow> peer_recovery \<Rightarrow> peer_recovery \<times> outbound list" where
  "recovery_begin m t_s versions candidates now pr =
     (let p = \<lparr>p_member = m, p_t_s = t_s, p_versions = versions, p_started = now,
               p_phase = AwaitRestore Degraded, p_tried = [], p_attempts = 0, p_last_failure = None\<rparr>;
          pr = pr\<lparr>pr_pending := bt_insert (learner_id m) p (pr_pending pr)\<rparr>;
          donor = pick_donor pr (learner_id m) candidates;
          clock = \<lparr>ob_to = m, ob_type = msg_recovery_clock, ob_payload = encode_clock t_s versions donor\<rparr>;
          (pr, out) = ask (learner_id m) donor now pr
      in (pr, clock # out))"

definition next_donor ::
    "u32 \<Rightarrow> utext \<Rightarrow> candidate list \<Rightarrow> nat \<Rightarrow> peer_recovery \<Rightarrow> peer_recovery \<times> outbound list" where
  "next_donor i failure candidates now pr =
     (let pr = (case dict_get (pr_pending pr) i of None \<Rightarrow> pr
                | Some p \<Rightarrow> pr\<lparr>pr_pending := bt_insert i (p\<lparr>p_last_failure := Some failure\<rparr>) (pr_pending pr)\<rparr>)
      in ask i (pick_donor pr i candidates) now pr)"

text \<open>The first fragment of the snapshot behind the clock; indexing past the end panics.\<close>

fun find_behind :: "nat \<Rightarrow> u64 list \<Rightarrow> u64 list \<Rightarrow> recovery_error + (nat \<times> u64 \<times> u64) option" where
  "find_behind p [] rs = Inr None"
| "find_behind p (v # vs) [] = Inl IndexPanic"
| "find_behind p (v # vs) (r # rs) = (if r < v then Inr (Some (p, r, v)) else find_behind (p + 1) vs rs)"

definition behind_text :: "rmember \<Rightarrow> nat \<times> u64 \<times> u64 \<Rightarrow> utext" where
  "behind_text from prv = (case prv of (p, r, v) \<Rightarrow>
     ascii ''donor '' @ show_u32 (learner_id from) @ ascii '' snapshot fragment '' @ ascii (show_nat p)
     @ ascii '' version '' @ show_u64 r @ ascii '' is behind the clock version '' @ show_u64 v)"

definition on_snapshot_ready ::
    "rmember \<Rightarrow> snapshot_ready \<Rightarrow> candidate list \<Rightarrow> nat \<Rightarrow> peer_recovery \<Rightarrow>
     recovery_error + peer_recovery \<times> outbound list" where
  "on_snapshot_ready from ready candidates now pr =
     (let i = learner_id (rdy_recovering ready)
      in case dict_get (pr_pending pr) i of None \<Rightarrow> Inr (pr, [])
         | Some p \<Rightarrow>
             if p_member p \<noteq> rdy_recovering ready \<or> phase_donor (p_phase p) \<noteq> Some from then Inr (pr, [])
             else rbind (find_behind 0 (p_versions p) (rdy_versions ready)) (\<lambda>b.
               case b of
                 Some prv \<Rightarrow> Inr (next_donor i (behind_text from prv) candidates now pr)
               | None \<Rightarrow>
                   Inr (pr\<lparr>pr_pending := bt_insert i (p\<lparr>p_phase := AwaitRestore (Peer from)\<rparr>) (pr_pending pr)\<rparr>,
                        [\<lparr>ob_to = p_member p, ob_type = msg_recovery_source,
                          ob_payload = encode_source (word_of_nat source_peer) (Some from)
                            (rdy_versions ready) (rdy_sha256 ready) (rdy_locator ready)\<rparr>])))"

definition on_failed ::
    "rmember \<Rightarrow> utext \<Rightarrow> candidate list \<Rightarrow> nat \<Rightarrow> peer_recovery \<Rightarrow> peer_recovery \<times> outbound list" where
  "on_failed from reason candidates now pr =
     (if \<not> recovery_is_pending pr from then (pr, [])
      else case dict_get (pr_pending pr) (learner_id from) of None \<Rightarrow> (pr, [])
        | Some p \<Rightarrow> if p_phase p = AwaitRestore Degraded then (pr, [])
                    else next_donor (learner_id from) reason candidates now pr)"

fun next_donors ::
    "(u32 \<times> utext) list \<Rightarrow> candidate list \<Rightarrow> nat \<Rightarrow> peer_recovery \<Rightarrow> peer_recovery \<times> outbound list" where
  "next_donors [] candidates now pr = (pr, [])"
| "next_donors ((i, failure) # fs) candidates now pr =
     (let (pr, out) = next_donor i failure candidates now pr;
          (pr, out') = next_donors fs candidates now pr
      in (pr, out @ out'))"

definition left_text :: "rmember \<Rightarrow> utext" where
  "left_text m = ascii ''donor '' @ show_u32 (learner_id m) @ ascii '' left before its snapshot was ready''"

definition on_gone :: "rmember \<Rightarrow> candidate list \<Rightarrow> nat \<Rightarrow> peer_recovery \<Rightarrow> peer_recovery \<times> outbound list" where
  "on_gone m candidates now pr =
     (let pr = (if recovery_is_pending pr m
                then pr\<lparr>pr_pending := dict_pop (learner_id m) (pr_pending pr)\<rparr> else pr);
          waiting = map fst (filter (\<lambda>(i, p). phase_donor (p_phase p) = Some m) (pr_pending pr))
      in next_donors (map (\<lambda>i. (i, left_text m)) waiting) candidates now pr)"

definition late :: "nat \<Rightarrow> peer_recovery \<Rightarrow> (u32 \<times> rmember) list" where
  "late now pr = List.map_filter (\<lambda>(i, p). case p_phase p of
      AwaitSnapshot donor deadline \<Rightarrow> if now \<ge> deadline then Some (i, donor) else None
    | AwaitRestore _ \<Rightarrow> None) (pr_pending pr)"

definition timeout_text :: "(nat \<Rightarrow> utext) \<Rightarrow> nat \<Rightarrow> rmember \<Rightarrow> utext" where
  "timeout_text dur t donor =
     ascii ''donor '' @ show_u32 (learner_id donor) @ ascii '' timed out after '' @ dur t"

definition on_tick ::
    "(nat \<Rightarrow> utext) \<Rightarrow> candidate list \<Rightarrow> nat \<Rightarrow> peer_recovery \<Rightarrow> peer_recovery \<times> outbound list" where
  "on_tick dur candidates now pr =
     next_donors (map (\<lambda>(i, donor). (i, timeout_text dur (donor_timeout (pr_cfg pr)) donor)) (late now pr))
       candidates now pr"

definition next_deadline :: "peer_recovery \<Rightarrow> nat option" where
  "next_deadline pr =
     (let ds = List.map_filter (\<lambda>(i, p). case p_phase p of AwaitSnapshot _ d \<Rightarrow> Some d
                 | AwaitRestore _ \<Rightarrow> None) (pr_pending pr)
      in if ds = [] then None else Some (Min (set ds)))"

definition on_restored ::
    "rmember \<Rightarrow> u64 list option \<Rightarrow> u64 list \<Rightarrow> peer_recovery \<Rightarrow> recovery_error + nat list" where
  "on_restored from held current pr =
     (case dict_get (pr_pending pr) (learner_id from) of None \<Rightarrow> Inl NotRecovering
      | Some p \<Rightarrow>
          if p_member p \<noteq> from then Inl NotRecovering
          else case p_phase p of AwaitSnapshot _ _ \<Rightarrow> Inl NoSourceYet
          | AwaitRestore _ \<Rightarrow>
              (case held of None \<Rightarrow> Inr [0..<length current]
               | Some held \<Rightarrow>
                   if length held \<noteq> length current then Inl (RestoredLength (length held) (length current))
                   else case find (\<lambda>p. held ! p > current ! p) [0..<length held] of
                     Some p \<Rightarrow> Inl (RestoredAhead p (held ! p) (current ! p))
                   | None \<Rightarrow> Inr (filter (\<lambda>p. current ! p > held ! p) [0..<length current])))"

definition recovery_finish ::
    "rmember \<Rightarrow> u64 \<Rightarrow> u64 list \<Rightarrow> nat \<Rightarrow> nat \<Rightarrow> peer_recovery \<Rightarrow>
     peer_recovery \<times> (recovery_record \<times> outbound) option" where
  "recovery_finish m done_step versions replayed now pr =
     (if \<not> recovery_is_pending pr m then (pr, None)
      else case dict_get (pr_pending pr) (learner_id m) of None \<Rightarrow> (pr, None)
      | Some p \<Rightarrow>
          let pr' = pr\<lparr>pr_pending := dict_pop (learner_id m) (pr_pending pr)\<rparr>
          in case p_phase p of AwaitSnapshot _ _ \<Rightarrow> (pr', None)
             | AwaitRestore source \<Rightarrow>
                 let steps = (if done_step \<ge> p_t_s p then done_step - p_t_s p else 0)
                 in (pr', Some
                   (\<lparr>rr_member = m, rr_source = source, rr_t_s = p_t_s p, rr_done_step = done_step,
                     rr_steps = steps, rr_bound_steps = bound_steps (pr_cfg pr),
                     rr_missed = (case bound_steps (pr_cfg pr) of None \<Rightarrow> False | Some b \<Rightarrow> steps > b),
                     rr_donor_attempts = p_attempts p, rr_replayed = replayed,
                     rr_elapsed = now - p_started p, rr_last_failure = p_last_failure p\<rparr>,
                    \<lparr>ob_to = m, ob_type = msg_recovery_done,
                     ob_payload = encode_done (p_t_s p) done_step replayed versions\<rparr>)))"

definition degraded_outside_training :: "rmember \<Rightarrow> nat \<Rightarrow> utext \<Rightarrow> outbound list" where
  "degraded_outside_training m fragments reason =
     [\<lparr>ob_to = m, ob_type = msg_recovery_source,
       ob_payload = encode_source (word_of_nat source_degraded) None (replicate fragments 0) (replicate 32 0) reason\<rparr>,
      \<lparr>ob_to = m, ob_type = msg_recovery_done, ob_payload = encode_done 0 0 0 (replicate fragments 0)\<rparr>]"

section \<open>Runs and the invariant\<close>

inductive rec_step :: "(nat \<Rightarrow> utext) \<Rightarrow> peer_recovery \<Rightarrow> peer_recovery \<Rightarrow> bool" for dur where
  step_begin: "recovery_begin m t_s vs cs now pr = (pr', out) \<Longrightarrow> rec_step dur pr pr'"
| step_ready: "on_snapshot_ready from ready cs now pr = Inr (pr', out) \<Longrightarrow> rec_step dur pr pr'"
| step_failed: "on_failed from reason cs now pr = (pr', out) \<Longrightarrow> rec_step dur pr pr'"
| step_gone: "on_gone m cs now pr = (pr', out) \<Longrightarrow> rec_step dur pr pr'"
| step_tick: "on_tick dur cs now pr = (pr', out) \<Longrightarrow> rec_step dur pr pr'"
| step_finish: "recovery_finish m done_step vs n now pr = (pr', r) \<Longrightarrow> rec_step dur pr pr'"

inductive rec_run :: "(nat \<Rightarrow> utext) \<Rightarrow> recovery_config \<Rightarrow> peer_recovery \<Rightarrow> bool" for dur cfg where
  run_new: "rec_run dur cfg (recovery_new cfg)"
| run_step: "rec_run dur cfg pr \<Longrightarrow> rec_step dur pr pr' \<Longrightarrow> rec_run dur cfg pr'"

fun phase_source :: "phase \<Rightarrow> rmember option" where
  "phase_source (AwaitSnapshot d _) = Some d"
| "phase_source (AwaitRestore (Peer d)) = Some d"
| "phase_source (AwaitRestore Degraded) = None"

definition pending_inv :: "recovery_config \<Rightarrow> u32 \<Rightarrow> pending \<Rightarrow> bool" where
  "pending_inv cfg i p \<longleftrightarrow> learner_id (p_member p) = i \<and> distinct (p_tried p)
     \<and> length (p_tried p) = unat (p_attempts p) \<and> p_attempts p \<le> max_donor_tries cfg
     \<and> i \<notin> set (p_tried p) \<and> (\<forall>d. phase_source (p_phase p) = Some d \<longrightarrow> learner_id d \<in> set (p_tried p))"

definition rec_inv :: "peer_recovery \<Rightarrow> bool" where
  "rec_inv pr \<longleftrightarrow> bt_ok (pr_pending pr)
     \<and> (\<forall>i p. dict_get (pr_pending pr) i = Some p \<longrightarrow> pending_inv (pr_cfg pr) i p)"

lemma rec_inv_insert:
  "rec_inv pr \<Longrightarrow> pending_inv (pr_cfg pr) i p \<Longrightarrow> rec_inv (pr\<lparr>pr_pending := bt_insert i p (pr_pending pr)\<rparr>)"
  by (auto simp: rec_inv_def)

lemma rec_inv_pop: "rec_inv pr \<Longrightarrow> rec_inv (pr\<lparr>pr_pending := dict_pop i (pr_pending pr)\<rparr>)"
  by (auto simp: rec_inv_def)

lemma unat_add_one: "a < b \<Longrightarrow> unat (a + 1) = Suc (unat (a :: 'w::len word))"
proof -
  assume "a < b"
  then have "a \<noteq> - 1" by (metis word_n1_ge linorder_not_le)
  then have "a + 1 \<noteq> 0" by (simp add: eq_neg_iff_add_eq_0)
  then show ?thesis using unatSuc [of a] by (simp add: add.commute)
qed

lemma min_candidate_in: "min_candidate cs = Some c \<Longrightarrow> c \<in> set cs \<and> (\<forall>d \<in> set cs. cand_le c d)"
proof (induction cs arbitrary: c)
  case (Cons a cs)
  have refl: "cand_le a a" by (simp add: cand_le_def)
  show ?case
  proof (cases "min_candidate cs")
    case None
    then have "cs = []" by (cases cs) (auto split: option.splits)
    then show ?thesis using Cons.prems refl by simp
  next
    case (Some d)
    have d: "d \<in> set cs" "\<forall>e \<in> set cs. cand_le d e" using Cons.IH [OF Some] by auto
    show ?thesis
    proof (cases "cand_le a d")
      case True
      then have "cand_le a e" if "e \<in> set cs" for e
        using d(2) that by (fastforce simp: cand_le_def)
      then show ?thesis using Cons.prems Some True refl by auto
    next
      case False
      then have "cand_le d a" by (auto simp: cand_le_def)
      then show ?thesis using Cons.prems Some False d by auto
    qed
  qed
qed simp

lemma min_candidate_None: "min_candidate cs = None \<longleftrightarrow> cs = []"
  by (cases cs) (auto split: option.splits)

lemma pick_donor_Some:
  assumes "pick_donor pr i cs = Some d"
  obtains p c where "dict_get (pr_pending pr) i = Some p" "p_attempts p < max_donor_tries (pr_cfg pr)"
    "c \<in> set cs" "d = cd_member c" "learner_id d \<noteq> i" "learner_id d \<notin> set (p_tried p)"
    "dict_get (pr_pending pr) (learner_id d) = None"
  using assms min_candidate_in unfolding pick_donor_def
  by (fastforce simp: not_le split: option.splits if_splits)

lemma ask_inv:
  assumes inv: "rec_inv pr" and d: "\<And>d. donor = Some d \<Longrightarrow> pick_donor pr i cs = Some d"
  shows "rec_inv (fst (ask i donor now pr))"
proof (cases "dict_get (pr_pending pr) i")
  case (Some p)
  then have p: "pending_inv (pr_cfg pr) i p" using inv by (simp add: rec_inv_def)
  show ?thesis
  proof (cases donor)
    case None
    have "pending_inv (pr_cfg pr) i (p\<lparr>p_phase := AwaitRestore Degraded\<rparr>)"
      using p by (simp add: pending_inv_def)
    then show ?thesis using inv Some None by (simp add: ask_def rec_inv_insert)
  next
    case (Some d')
    obtain p' where "dict_get (pr_pending pr) i = Some p'" "p_attempts p' < max_donor_tries (pr_cfg pr)"
      "learner_id d' \<noteq> i" "learner_id d' \<notin> set (p_tried p')"
      using pick_donor_Some [OF d [OF Some]] by metis
    then have "pending_inv (pr_cfg pr) i (p\<lparr>p_attempts := p_attempts p + 1,
        p_tried := List.insert (learner_id d') (p_tried p),
        p_phase := AwaitSnapshot d' (now + donor_timeout (pr_cfg pr))\<rparr>)"
      using p \<open>dict_get (pr_pending pr) i = Some p\<close>
      by (auto simp: pending_inv_def List.insert_def unat_add_one inc_le)
    then show ?thesis using inv Some \<open>dict_get (pr_pending pr) i = Some p\<close>
      by (simp add: ask_def rec_inv_insert)
  qed
qed (simp add: ask_def inv)

lemma ask_cfg [simp]: "pr_cfg (fst (ask i donor now pr)) = pr_cfg pr"
  by (simp add: ask_def split: option.split)

lemma next_donor_inv: "rec_inv pr \<Longrightarrow> rec_inv (fst (next_donor i f cs now pr))"
  unfolding next_donor_def Let_def
  by (rule ask_inv) (auto simp: rec_inv_def pending_inv_def split: option.splits)

lemma next_donor_cfg [simp]: "pr_cfg (fst (next_donor i f cs now pr)) = pr_cfg pr"
  by (simp add: next_donor_def Let_def split: option.split)

lemma next_donor_keeps:
  "next_donor i f cs now pr = (pr', out) \<Longrightarrow> rec_inv pr \<Longrightarrow> rec_inv pr' \<and> pr_cfg pr' = pr_cfg pr"
  using next_donor_inv [of pr i f cs now] next_donor_cfg [of i f cs now pr] by simp

lemma next_donors_inv:
  "rec_inv pr \<Longrightarrow> rec_inv (fst (next_donors fs cs now pr)) \<and> pr_cfg (fst (next_donors fs cs now pr)) = pr_cfg pr"
proof (induction fs arbitrary: pr)
  case (Cons a fs)
  obtain i f where a: "a = (i, f)" by (cases a)
  show ?case
    using Cons.IH [of "fst (next_donor i f cs now pr)"] Cons.prems next_donor_inv
    by (simp add: a case_prod_beta Let_def)
qed simp

lemma begin_inv: "rec_inv pr \<Longrightarrow> rec_inv (fst (recovery_begin m t vs cs now pr))"
  unfolding recovery_begin_def Let_def case_prod_beta fst_conv
  by (rule ask_inv [where cs = cs], rule rec_inv_insert) (auto simp: pending_inv_def)

lemma ready_inv:
  assumes "on_snapshot_ready from ready cs now pr = Inr (pr', out)" and inv: "rec_inv pr"
  shows "rec_inv pr' \<and> pr_cfg pr' = pr_cfg pr"
proof (cases "dict_get (pr_pending pr) (learner_id (rdy_recovering ready))")
  case (Some p)
  then have "pending_inv (pr_cfg pr) (learner_id (rdy_recovering ready)) p"
    using inv by (simp add: rec_inv_def)
  moreover have "phase_source (p_phase p) = Some from" if "phase_donor (p_phase p) = Some from"
    using that by (cases "p_phase p") auto
  ultimately have "pending_inv (pr_cfg pr) (learner_id (rdy_recovering ready)) (p\<lparr>p_phase := AwaitRestore (Peer from)\<rparr>)"
    if "phase_donor (p_phase p) = Some from"
    using that by (simp add: pending_inv_def)
  then show ?thesis
    using assms Some unfolding on_snapshot_ready_def Let_def
    by (auto simp: rbind_Inr_iff rec_inv_insert dest: next_donor_keeps split: if_splits option.splits)
qed (use assms in \<open>simp add: on_snapshot_ready_def\<close>)

lemma rec_step_inv: "rec_step dur pr pr' \<Longrightarrow> rec_inv pr \<Longrightarrow> rec_inv pr' \<and> pr_cfg pr' = pr_cfg pr"
proof (induction rule: rec_step.induct)
  case (step_begin m t_s vs cs now pr pr' out)
  then show ?case using begin_inv [of pr m t_s vs cs now]
    by (auto simp: recovery_begin_def Let_def case_prod_beta)
next
  case (step_ready fr ready cs now pr pr' out)
  then show ?case using ready_inv by blast
next
  case (step_failed fr reason cs now pr pr' out)
  then show ?case
    by (auto simp: on_failed_def dest: next_donor_keeps split: if_splits option.splits)
next
  case (step_gone m cs now pr pr' out)
  let ?pr = "if recovery_is_pending pr m then pr\<lparr>pr_pending := dict_pop (learner_id m) (pr_pending pr)\<rparr> else pr"
  have "rec_inv ?pr" "pr_cfg ?pr = pr_cfg pr" using step_gone.prems by (auto simp: rec_inv_pop)
  then show ?case using step_gone.hyps next_donors_inv [of ?pr] unfolding on_gone_def Let_def
    by (metis fst_conv)
next
  case (step_tick cs now pr pr' out)
  then show ?case unfolding on_tick_def using next_donors_inv by (metis fst_conv)
next
  case (step_finish m done_step vs n now pr pr' r)
  then show ?case
    by (auto simp: recovery_finish_def Let_def rec_inv_pop split: if_splits option.splits phase.splits)
qed

lemma rec_run_inv: "rec_run dur cfg pr \<Longrightarrow> rec_inv pr \<and> pr_cfg pr = cfg"
proof (induction rule: rec_run.induct)
  case run_new
  then show ?case by (simp add: rec_inv_def recovery_new_def bt_ok_def)
qed (use rec_step_inv in blast)

section \<open>Properties of the recovery\<close>

lemma ask_result:
  assumes inv: "rec_inv pr" and p: "dict_get (pr_pending pr) i = Some p"
  shows "\<exists>p'. dict_get (pr_pending (fst (ask i (pick_donor pr i cs) now pr))) i = Some p'
    \<and> p_member p' = p_member p
    \<and> (p_phase p' = AwaitRestore Degraded \<or> unat (p_attempts p') = Suc (unat (p_attempts p)))"
proof (cases "pick_donor pr i cs")
  case None
  then show ?thesis using p by (simp add: ask_def)
next
  case (Some d)
  then have "p_attempts p < max_donor_tries (pr_cfg pr)"
    using p by (metis option.inject pick_donor_Some)
  then show ?thesis using p Some by (simp add: ask_def unat_add_one)
qed

lemma next_donor_result:
  assumes inv: "rec_inv pr" and p: "dict_get (pr_pending pr) i = Some p"
  shows "\<exists>p'. dict_get (pr_pending (fst (next_donor i f cs now pr))) i = Some p'
    \<and> p_member p' = p_member p
    \<and> (p_phase p' = AwaitRestore Degraded \<or> unat (p_attempts p') = Suc (unat (p_attempts p)))"
proof -
  let ?p = "p\<lparr>p_last_failure := Some f\<rparr>"
  let ?pr = "pr\<lparr>pr_pending := bt_insert i ?p (pr_pending pr)\<rparr>"
  have "rec_inv ?pr" using inv p by (intro rec_inv_insert) (auto simp: rec_inv_def pending_inv_def)
  from ask_result [OF this, of i ?p cs now] show ?thesis by (simp add: next_donor_def p Let_def)
qed

definition refused :: "rmember \<Rightarrow> (utext \<times> candidate list \<times> nat) list \<Rightarrow> peer_recovery \<Rightarrow> peer_recovery" where
  "refused m fs pr = fold (\<lambda>(reason, cs, now) pr. fst (on_failed m reason cs now pr)) fs pr"

lemma on_failed_result:
  assumes inv: "rec_inv pr" and p: "dict_get (pr_pending pr) (learner_id m) = Some p" "p_member p = m"
  shows "\<exists>p'. dict_get (pr_pending (fst (on_failed m f cs now pr))) (learner_id m) = Some p'
    \<and> p_member p' = m
    \<and> (p_phase p' = AwaitRestore Degraded \<or> unat (p_attempts p') = Suc (unat (p_attempts p)))"
  using next_donor_result [OF inv p(1), of f cs now] p
  by (simp add: on_failed_def recovery_is_pending_def)

lemma on_failed_keeps: "rec_inv pr \<Longrightarrow> rec_inv (fst (on_failed m f cs now pr)) \<and> pr_cfg (fst (on_failed m f cs now pr)) = pr_cfg pr"
  using rec_step_inv [OF step_failed, of m f cs now pr "fst (on_failed m f cs now pr)" "snd (on_failed m f cs now pr)"]
  by simp

lemma refused_degrades:
  assumes "rec_inv pr" and "dict_get (pr_pending pr) (learner_id m) = Some p" "p_member p = m"
    and "p_phase p = AwaitRestore Degraded \<or> unat (max_donor_tries (pr_cfg pr)) < unat (p_attempts p) + length fs"
  shows "\<exists>p'. dict_get (pr_pending (refused m fs pr)) (learner_id m) = Some p' \<and> p_member p' = m
    \<and> p_phase p' = AwaitRestore Degraded"
  using assms
proof (induction fs arbitrary: pr p)
  case Nil
  then have "p_attempts p \<le> max_donor_tries (pr_cfg pr)" by (auto simp: rec_inv_def pending_inv_def)
  then have "unat (p_attempts p) \<le> unat (max_donor_tries (pr_cfg pr))" by (simp add: word_le_nat_alt)
  then show ?case using Nil by (simp add: refused_def)
next
  case (Cons a fs)
  obtain f cs now where a: "a = (f, cs, now)" by (cases a)
  let ?pr = "fst (on_failed m f cs now pr)"
  show ?case
  proof (cases "p_phase p = AwaitRestore Degraded")
    case True
    then have "?pr = pr" using Cons.prems by (simp add: on_failed_def recovery_is_pending_def)
    then show ?thesis using Cons.IH [OF Cons.prems(1-3)] True by (simp add: refused_def a)
  next
    case False
    obtain p' where p': "dict_get (pr_pending ?pr) (learner_id m) = Some p'" "p_member p' = m"
      "p_phase p' = AwaitRestore Degraded \<or> unat (p_attempts p') = Suc (unat (p_attempts p))"
      using on_failed_result [OF Cons.prems(1-3)] by blast
    have k: "rec_inv ?pr" "pr_cfg ?pr = pr_cfg pr" using on_failed_keeps [OF Cons.prems(1)] by auto
    have "p_phase p' = AwaitRestore Degraded \<or> unat (max_donor_tries (pr_cfg ?pr)) < unat (p_attempts p') + length fs"
      using p'(3) Cons.prems(4) False k by auto
    from Cons.IH [OF k(1) p'(1,2) this] show ?thesis by (simp add: refused_def a)
  qed
qed

text \<open>
  C19. A recovery never hangs on bad donors: in every reachable state, once the recovering
  island has refused snapshots more often than the donor tries that are left to it, it holds the
  degraded source, whichever candidates were offered in between; and every pending recovery asked
  at most \<open>max_donor_tries\<close> donors, all of them different and none of them the island itself.
\<close>

theorem recovery_degrades:
  assumes run: "rec_run dur cfg pr"
    and p: "dict_get (pr_pending pr) (learner_id m) = Some p" "p_member p = m"
    and fs: "unat (max_donor_tries cfg) < unat (p_attempts p) + length fs"
  shows "(\<exists>p'. dict_get (pr_pending (refused m fs pr)) (learner_id m) = Some p'
      \<and> p_phase p' = AwaitRestore Degraded)
    \<and> distinct (p_tried p) \<and> length (p_tried p) \<le> unat (max_donor_tries cfg)
    \<and> learner_id m \<notin> set (p_tried p)"
proof -
  have inv: "rec_inv pr" "pr_cfg pr = cfg" using rec_run_inv [OF run] by auto
  then have "pending_inv cfg (learner_id m) p" using p(1) by (auto simp: rec_inv_def)
  moreover have "\<exists>p'. dict_get (pr_pending (refused m fs pr)) (learner_id m) = Some p' \<and> p_member p' = m
      \<and> p_phase p' = AwaitRestore Degraded"
    using refused_degrades [OF inv(1) p] fs inv(2) by simp
  ultimately show ?thesis by (auto simp: pending_inv_def word_le_nat_alt)
qed

definition ex_cfg :: recovery_config where
  "ex_cfg = \<lparr>bound_steps = Some 4, max_donor_tries = 2, donor_timeout = 10\<rparr>"

definition ex_member :: "u32 \<Rightarrow> rmember" where
  "ex_member i = \<lparr>learner_id = i, generation = 7\<rparr>"

definition ex_cands :: "candidate list" where
  "ex_cands = [\<lparr>cd_member = ex_member 1, cd_outstanding = 2\<rparr>, \<lparr>cd_member = ex_member 2, cd_outstanding = 0\<rparr>]"

definition ex_rec :: peer_recovery where
  "ex_rec = fst (recovery_begin (ex_member 0) 10 [9, 10] ex_cands 0 (recovery_new ex_cfg))"

lemma ex_rec_run: "rec_run dur ex_cfg ex_rec"
proof (rule run_step [OF run_new])
  show "rec_step dur (recovery_new ex_cfg) ex_rec" unfolding ex_rec_def
    by (rule step_begin [of "ex_member 0" 10 "[9, 10]" ex_cands 0 _ _
          "snd (recovery_begin (ex_member 0) 10 [9, 10] ex_cands 0 (recovery_new ex_cfg))"]) simp
qed

definition ex_pending :: pending where
  "ex_pending = \<lparr>p_member = ex_member 0, p_t_s = 10, p_versions = [9, 10], p_started = 0,
     p_phase = AwaitSnapshot (ex_member 2) 10, p_tried = [2], p_attempts = 1, p_last_failure = None\<rparr>"

lemma ex_rec_pending: "dict_get (pr_pending ex_rec) 0 = Some ex_pending"
  by code_simp

theorem recovery_degrades_witness:
  "\<exists>p'. dict_get (pr_pending (refused (ex_member 0) [([], ex_cands, 1), ([], ex_cands, 2)] ex_rec)) 0 = Some p'
     \<and> p_phase p' = AwaitRestore Degraded"
proof -
  have "learner_id (ex_member 0) = 0" by (simp add: ex_member_def)
  then show ?thesis
    using recovery_degrades [OF ex_rec_run, where m = "ex_member 0" and p = ex_pending
        and fs = "[([], ex_cands, 1), ([], ex_cands, 2)]"] ex_rec_pending
    by (simp add: ex_pending_def ex_cfg_def)
qed

lemma find_behind_none:
  "length rs = length vs \<Longrightarrow> \<forall>k < length vs. vs ! k \<le> rs ! k \<Longrightarrow> find_behind n vs rs = Inr None"
proof (induction rs vs arbitrary: n rule: list_induct2)
  case (Cons r rs v vs)
  have "v \<le> r" using Cons.prems by (metis length_Cons nth_Cons_0 zero_less_Suc)
  moreover have "\<forall>k < length vs. vs ! k \<le> rs ! k" using Cons.prems by auto
  ultimately show ?case using Cons.IH by simp
qed simp

lemma find_behind_some:
  "length rs = length vs \<Longrightarrow> k < length vs \<Longrightarrow> rs ! k < vs ! k \<Longrightarrow> \<exists>b. find_behind n vs rs = Inr (Some b)"
proof (induction rs vs arbitrary: n k rule: list_induct2)
  case (Cons r rs v vs)
  then show ?case by (cases k) auto
qed simp

text \<open>
  C20. A snapshot is only handed to the recovering island when it is not behind the clock of the
  recovery.  When the donor that was asked answers, either some fragment is behind and the next
  donor is asked, or the island is sent one message, which it decodes to a peer source of that
  donor with the digest and locator of the answer and with every fragment at least at the
  version of the clock.
\<close>

theorem snapshot_ready_sound:
  assumes p: "dict_get (pr_pending pr) (learner_id (rdy_recovering ready)) = Some p"
      "p_member p = rdy_recovering ready" "phase_donor (p_phase p) = Some donor"
    and len: "length (rdy_versions ready) = length (p_versions p)" "length (p_versions p) < 2 ^ 32"
    and wire: "length (rdy_sha256 ready) = 32" "list_all scalar (rdy_locator ready)"
      "length (str_bytes (rdy_locator ready)) \<le> max_text" "unat (learner_id donor) \<noteq> no_donor"
  shows "if \<exists>k < length (p_versions p). rdy_versions ready ! k < p_versions p ! k
    then \<exists>f. on_snapshot_ready donor ready cs now pr
        = Inr (next_donor (learner_id (p_member p)) f cs now pr)
    else \<exists>pr' ob src p'. on_snapshot_ready donor ready cs now pr = Inr (pr', [ob]) \<and> ob_to ob = p_member p
        \<and> decode_source (ob_payload ob) (length (p_versions p)) = Inr src \<and> is_peer src
        \<and> rs_donor src = Some (unat (learner_id donor)) \<and> rs_sha256 src = rdy_sha256 ready
        \<and> rs_text src = rdy_locator ready \<and> length (rs_versions src) = length (p_versions p)
        \<and> (\<forall>k < length (p_versions p). unat (p_versions p ! k) \<le> rs_versions src ! k)
        \<and> dict_get (pr_pending pr') (learner_id (p_member p)) = Some p'
        \<and> p_phase p' = AwaitRestore (Peer donor)"
proof (cases "\<exists>k < length (p_versions p). rdy_versions ready ! k < p_versions p ! k")
  case True
  then obtain b where "find_behind 0 (p_versions p) (rdy_versions ready) = Inr (Some b)"
    using find_behind_some [OF len(1)] by blast
  then show ?thesis using True p by (auto simp: on_snapshot_ready_def)
next
  case False
  then have le: "\<forall>k < length (p_versions p). p_versions p ! k \<le> rdy_versions ready ! k"
    by (meson not_less)
  let ?payload = "encode_source (word_of_nat source_peer) (Some donor) (rdy_versions ready) (rdy_sha256 ready) (rdy_locator ready)"
  let ?src = "\<lparr>rs_kind = source_peer, rs_donor = Some (unat (learner_id donor)),
      rs_versions = map unat (rdy_versions ready), rs_sha256 = rdy_sha256 ready, rs_text = rdy_locator ready\<rparr>"
  have k: "unat (word_of_nat source_peer :: byte) = source_peer" by (simp add: source_peer_def)
  have src: "decode_source ?payload (length (p_versions p)) = Inr ?src"
    using decode_source_encode [of "rdy_versions ready" "Some donor" "rdy_sha256 ready" "rdy_locator ready"
        "word_of_nat source_peer"] len wire by (simp add: k)
  have out: "on_snapshot_ready donor ready cs now pr
      = Inr (pr\<lparr>pr_pending := bt_insert (learner_id (p_member p)) (p\<lparr>p_phase := AwaitRestore (Peer donor)\<rparr>) (pr_pending pr)\<rparr>,
          [\<lparr>ob_to = p_member p, ob_type = msg_recovery_source, ob_payload = ?payload\<rparr>])"
    using find_behind_none [OF len(1) le] p by (simp add: on_snapshot_ready_def)
  have vs: "\<forall>k < length (p_versions p). unat (p_versions p ! k) \<le> map unat (rdy_versions ready) ! k"
    using le len(1) by (simp add: word_le_nat_alt)
  show ?thesis unfolding if_not_P [OF False]
    by (rule exI, rule exI, rule exI [of _ ?src],
        rule exI [of _ "p\<lparr>p_phase := AwaitRestore (Peer donor)\<rparr>"], intro conjI, rule out)
      (use vs in \<open>simp_all add: src is_peer_def len(1)\<close>)
qed

definition ex_ready :: snapshot_ready where
  "ex_ready = \<lparr>rdy_recovering = ex_member 0, rdy_versions = [11, 10], rdy_sha256 = replicate 32 7,
     rdy_locator = [0x73]\<rparr>"

theorem snapshot_ready_sound_witness:
  "\<exists>pr' ob. on_snapshot_ready (ex_member 2) ex_ready [] 1 ex_rec = Inr (pr', [ob]) \<and> ob_to ob = ex_member 0"
proof -
  have p: "dict_get (pr_pending ex_rec) (learner_id (rdy_recovering ex_ready)) = Some ex_pending"
    "p_member ex_pending = rdy_recovering ex_ready" "phase_donor (p_phase ex_pending) = Some (ex_member 2)"
    using ex_rec_pending by (simp_all add: ex_ready_def ex_member_def ex_pending_def)
  have len: "length (rdy_versions ex_ready) = length (p_versions ex_pending)" "length (p_versions ex_pending) < 2 ^ 32"
    by (simp_all add: ex_ready_def ex_pending_def)
  have wire: "length (rdy_sha256 ex_ready) = 32" "list_all scalar (rdy_locator ex_ready)"
    "length (str_bytes (rdy_locator ex_ready)) \<le> max_text" "unat (learner_id (ex_member 2)) \<noteq> no_donor"
    by (simp_all add: ex_ready_def scalar_def str_bytes_def utf8_char_def max_text_def ex_member_def no_donor_def)
  have n: "\<not> (\<exists>k < length (p_versions ex_pending). rdy_versions ex_ready ! k < p_versions ex_pending ! k)"
    by (auto simp: ex_pending_def ex_ready_def nth_Cons split: nat.splits)
  have "p_member ex_pending = ex_member 0" by (simp add: ex_pending_def)
  then show ?thesis
    using snapshot_ready_sound [OF p len wire, of "[]" 1, unfolded if_not_P [OF n]] by metis
qed

text \<open>
  C30. After a restore the syncer resends exactly the fragments whose current version is newer than
  the one the island holds, in ascending order; once they arrived the island holds the
  current versions.  A restore that holds a newer version than the syncer is refused.
\<close>

theorem restored_replays_newer:
  assumes "on_restored m (Some held) current pr = Inr replay"
  shows "length held = length current \<and> (\<forall>k < length current. held ! k \<le> current ! k)
    \<and> sorted_wrt (<) replay
    \<and> (\<forall>k. k \<in> set replay \<longleftrightarrow> k < length current \<and> held ! k < current ! k)
    \<and> map (\<lambda>k. if k \<in> set replay then current ! k else held ! k) [0..<length current] = current"
proof -
  have len: "length held = length current"
    and none: "find (\<lambda>p. held ! p > current ! p) [0..<length held] = None"
    and r: "replay = filter (\<lambda>p. current ! p > held ! p) [0..<length current]"
    using assms by (auto simp: on_restored_def split: option.splits if_splits phase.splits)
  have le: "\<forall>k < length current. held ! k \<le> current ! k"
    using none len by (simp add: find_None_iff not_less) (meson not_less)
  have "map (\<lambda>k. if k \<in> set replay then current ! k else held ! k) [0..<length current]
      = map (\<lambda>k. current ! k) [0..<length current]"
    using le by (auto simp: r le_less)
  then have "map (\<lambda>k. if k \<in> set replay then current ! k else held ! k) [0..<length current] = current"
    by (simp only: map_nth)
  moreover have "sorted_wrt (<) replay" unfolding r by (intro sorted_wrt_filter sorted_wrt_upt)
  ultimately show ?thesis using len le r by auto
qed

definition ex_rec2 :: peer_recovery where
  "ex_rec2 = ex_rec\<lparr>pr_pending := [(0, ex_pending\<lparr>p_phase := AwaitRestore (Peer (ex_member 2))\<rparr>)]\<rparr>"

theorem restored_replays_newer_witness:
  "on_restored (ex_member 0) (Some [11, 10]) [11, 12] ex_rec2 = Inr [1]
   \<and> map (\<lambda>k. if k \<in> set [1] then [11, 12 :: u64] ! k else [11, 10] ! k) [0..<length [11, 12 :: u64]] = [11, 12]"
proof -
  have r: "on_restored (ex_member 0) (Some [11, 10]) [11, 12] ex_rec2 = Inr [1]"
    by (simp add: on_restored_def ex_rec2_def ex_pending_def ex_member_def upt_rec [of 0] upt_rec [of 1])
  show ?thesis using r restored_replays_newer [OF r] by (intro conjI) simp_all
qed

end
