(* ===== verification/Membership.thy ===== *)
theory Membership
  imports Complex_Main Recovery_Wire
begin

text \<open>
  Dynamic island membership, \<open>src/syncer/src/membership.rs\<close>: admission of connection
  generations, fencing of retired ones, leases, the re-JOIN with catch-up after an expiry, the
  capacity quorum and the persisted record.  Durations and instants are numbers of
  nanoseconds, the floating-point options are rationals.  A \<open>HashSet\<close> is a list without
  duplicates whose order is never read.
\<close>

section \<open>Configuration\<close>

datatype quorum_rule = Count | Capacity rat u32

record membership_config =
  mc_quorum_rule :: quorum_rule
  mc_lease :: "nat option"
  mc_soft_deadline :: "nat option"
  mc_carry_gamma :: rat
  mc_capacities :: "(u32, rat) dict"
  mc_max_learners :: "u32 option"
  mc_final_grace :: "nat option"

definition default_config :: membership_config where
  "default_config = \<lparr>mc_quorum_rule = Count, mc_lease = None, mc_soft_deadline = None,
     mc_carry_gamma = 1, mc_capacities = [], mc_max_learners = None, mc_final_grace = None\<rparr>"

definition is_static :: "membership_config \<Rightarrow> bool" where
  "is_static cfg \<longleftrightarrow> cfg = default_config"

definition id_limit_of :: "membership_config \<Rightarrow> u32 \<Rightarrow> u32" where
  "id_limit_of cfg learners = (case mc_max_learners cfg of None \<Rightarrow> learners | Some n \<Rightarrow> n)"

definition soft_min_arrivals :: "membership_config \<Rightarrow> nat" where
  "soft_min_arrivals cfg = (case mc_quorum_rule cfg of Count \<Rightarrow> 1 | Capacity _ q_min \<Rightarrow> unat (max q_min 1))"

definition min_launch_members :: "membership_config \<Rightarrow> u32 \<Rightarrow> nat" where
  "min_launch_members cfg quorum =
     (case mc_quorum_rule cfg of Count \<Rightarrow> unat quorum | Capacity _ q_min \<Rightarrow> unat (max q_min 1))"

definition capacity_in :: "(u32, rat) dict \<Rightarrow> u32 \<Rightarrow> rat" where
  "capacity_in caps i = (case dict_get caps i of None \<Rightarrow> 1 | Some c \<Rightarrow> c)"

definition mc_capacity :: "membership_config \<Rightarrow> u32 \<Rightarrow> rat" where
  "mc_capacity cfg i = capacity_in (mc_capacities cfg) i"

definition carry_discount :: "membership_config \<Rightarrow> u64 \<Rightarrow> rat" where
  "carry_discount cfg lag =
     (if mc_carry_gamma cfg = 1 \<or> lag = 0 then 1
      else mc_carry_gamma cfg ^ min (unat lag) 2147483647)"

datatype config_error =
  BadTheta rat
| BadQMin
| QuorumNotOne
| ZeroLease
| ZeroSoftDeadline
| BadGamma rat
| BadCapacity u32 rat
| CapacityOutside u32 u32
| MaxBelowLearners

definition check_capacities :: "membership_config \<Rightarrow> u32 \<Rightarrow> config_error + unit" where
  "check_capacities cfg learners =
     rfold (\<lambda>(i, cap) _.
       if \<not> cap > 0 then Inl (BadCapacity i cap)
       else if \<not> i < id_limit_of cfg learners then Inl (CapacityOutside i (id_limit_of cfg learners))
       else Inr ()) (mc_capacities cfg) ()"

definition mc_validate :: "membership_config \<Rightarrow> u32 \<Rightarrow> u32 \<Rightarrow> config_error + unit" where
  "mc_validate cfg learners quorum =
     rbind (case mc_quorum_rule cfg of Count \<Rightarrow> Inr ()
            | Capacity theta q_min \<Rightarrow>
                if \<not> (theta > 0 \<and> theta \<le> 1) then Inl (BadTheta theta)
                else if \<not> q_min \<ge> 1 then Inl BadQMin
                else if quorum \<noteq> 1 then Inl QuorumNotOne
                else Inr ()) (\<lambda>_.
     rbind (if mc_lease cfg = Some 0 then Inl ZeroLease else Inr ()) (\<lambda>_.
     rbind (if mc_soft_deadline cfg = Some 0 then Inl ZeroSoftDeadline else Inr ()) (\<lambda>_.
     rbind (if \<not> (0 \<le> mc_carry_gamma cfg \<and> mc_carry_gamma cfg \<le> 1 \<and> mc_carry_gamma cfg > 0)
            then Inl (BadGamma (mc_carry_gamma cfg)) else Inr ()) (\<lambda>_.
     rbind (check_capacities cfg learners) (\<lambda>_.
     case mc_max_learners cfg of None \<Rightarrow> Inr ()
     | Some n \<Rightarrow> if \<not> n \<ge> learners then Inl MaxBelowLearners else Inr ())))))"

record capacity_quorum =
  cq_theta :: rat
  cq_q_min :: nat
  cq_capacities :: "(u32, rat) dict"

definition round_quorum :: "membership_config \<Rightarrow> capacity_quorum option" where
  "round_quorum cfg =
     (case mc_quorum_rule cfg of Count \<Rightarrow> None
      | Capacity theta q_min \<Rightarrow>
          Some \<lparr>cq_theta = theta, cq_q_min = unat (max q_min 1), cq_capacities = mc_capacities cfg\<rparr>)"

definition cq_capacity_arrived :: "capacity_quorum \<Rightarrow> rmember list \<Rightarrow> rmember list \<Rightarrow> rat \<times> rat" where
  "cq_capacity_arrived cq expected arrived =
     (sum_list (map (\<lambda>m. capacity_in (cq_capacities cq) (learner_id m)) arrived),
      sum_list (map (\<lambda>m. capacity_in (cq_capacities cq) (learner_id m)) expected))"

definition cq_reached :: "capacity_quorum \<Rightarrow> rmember list \<Rightarrow> rmember list \<Rightarrow> bool" where
  "cq_reached cq expected arrived =
     (if length arrived < cq_q_min cq then False
      else let (cap_arrived, cap_total) = cq_capacity_arrived cq expected arrived
           in cap_total > 0 \<and> cap_arrived \<ge> cq_theta cq * cap_total)"

section \<open>Members\<close>

datatype admit_error =
  RetiredGeneration
| OutOfRange u32
| StaleSyncerEpoch u64 u64

datatype admission = Join "u64 option" | Rejoin

record live_member =
  lm_generation :: u64
  lm_last_seen :: nat
  lm_awaiting :: bool
  lm_floor :: "u64 list option"

record membership =
  ms_cfg :: membership_config
  ms_id_limit :: u32
  ms_live :: "(u32, live_member) dict"
  ms_retired :: "(u32, u64 list \<times> u64 list) dict"
  ms_expired :: "u32 list"
  ms_epoch :: u64
  ms_syncer_epoch :: u64
  ms_dirty :: bool

definition membership_new :: "membership_config \<Rightarrow> u32 \<Rightarrow> membership" where
  "membership_new cfg limit = \<lparr>ms_cfg = cfg, ms_id_limit = limit, ms_live = [], ms_retired = [],
     ms_expired = [], ms_epoch = 0, ms_syncer_epoch = 0, ms_dirty = False\<rparr>"

definition raise_syncer_epoch :: "u64 \<Rightarrow> membership \<Rightarrow> membership" where
  "raise_syncer_epoch e ms =
     (if e > ms_syncer_epoch ms then ms\<lparr>ms_syncer_epoch := e, ms_dirty := True\<rparr> else ms)"

definition check_syncer_epoch :: "u64 option \<Rightarrow> membership \<Rightarrow> admit_error + unit" where
  "check_syncer_epoch offered ms =
     (case offered of
        Some o1 \<Rightarrow> if o1 < ms_syncer_epoch ms then Inl (StaleSyncerEpoch o1 (ms_syncer_epoch ms)) else Inr ()
      | None \<Rightarrow> Inr ())"

definition take_dirty :: "membership \<Rightarrow> membership \<times> bool" where
  "take_dirty ms = (ms\<lparr>ms_dirty := False\<rparr>, ms_dirty ms)"

definition retired_per_island :: nat where "retired_per_island = 1024"

definition is_live :: "membership \<Rightarrow> rmember \<Rightarrow> bool" where
  "is_live ms m = (case dict_get (ms_live ms) (learner_id m) of None \<Rightarrow> False
     | Some lm \<Rightarrow> lm_generation lm = generation m)"

definition is_retired :: "membership \<Rightarrow> rmember \<Rightarrow> bool" where
  "is_retired ms m = (case dict_get (ms_retired ms) (learner_id m) of None \<Rightarrow> False
     | Some (_, s) \<Rightarrow> generation m \<in> set s)"

text \<open>The loop that forgets the oldest entries until at most \<open>limit\<close> are left.\<close>

fun trim_front :: "nat \<Rightarrow> 'a list \<Rightarrow> 'a list \<Rightarrow> 'a list \<times> 'a list" where
  "trim_front limit [] s = ([], s)"
| "trim_front limit (x # xs) s =
     (if length (x # xs) > limit then trim_front limit xs (removeAll x s) else (x # xs, s))"

definition retire :: "rmember \<Rightarrow> membership \<Rightarrow> membership" where
  "retire m ms =
     (let (order, s) = (case dict_get (ms_retired ms) (learner_id m) of None \<Rightarrow> ([], []) | Some r \<Rightarrow> r)
      in if generation m \<in> set s
         then ms\<lparr>ms_retired := bt_insert (learner_id m) (order, s) (ms_retired ms)\<rparr>
         else ms\<lparr>ms_dirty := True,
                ms_retired := bt_insert (learner_id m)
                  (trim_front retired_per_island (order @ [generation m]) (generation m # s)) (ms_retired ms)\<rparr>)"

definition admit :: "rmember \<Rightarrow> nat \<Rightarrow> membership \<Rightarrow> admit_error + membership \<times> admission" where
  "admit m now ms =
     (if learner_id m \<ge> ms_id_limit ms then Inl (OutOfRange (ms_id_limit ms))
      else if is_retired ms m \<or> is_live ms m then Inl RetiredGeneration
      else
        let rejoin = (learner_id m \<in> set (ms_expired ms));
            replaced = map_option lm_generation (dict_get (ms_live ms) (learner_id m));
            ms = ms\<lparr>ms_expired := removeAll (learner_id m) (ms_expired ms),
                    ms_live := bt_insert (learner_id m)
                      \<lparr>lm_generation = generation m, lm_last_seen = now, lm_awaiting = rejoin, lm_floor = None\<rparr>
                      (ms_live ms)\<rparr>;
            ms = (case replaced of None \<Rightarrow> ms
                  | Some g \<Rightarrow> retire \<lparr>learner_id = learner_id m, generation = g\<rparr> ms);
            ms = ms\<lparr>ms_epoch := ms_epoch ms + 1\<rparr>
        in Inr (ms, if rejoin then Rejoin else Join replaced))"

definition update_live :: "rmember \<Rightarrow> (live_member \<Rightarrow> live_member) \<Rightarrow> membership \<Rightarrow> membership" where
  "update_live m f ms =
     (case dict_get (ms_live ms) (learner_id m) of None \<Rightarrow> ms
      | Some lm \<Rightarrow> if lm_generation lm = generation m
                   then ms\<lparr>ms_live := bt_insert (learner_id m) (f lm) (ms_live ms)\<rparr> else ms)"

definition record_catch_up :: "rmember \<Rightarrow> u64 list \<Rightarrow> membership \<Rightarrow> membership" where
  "record_catch_up m versions ms =
     update_live m (\<lambda>lm. if lm_awaiting lm
        then lm\<lparr>lm_awaiting := False, lm_floor := Some versions\<rparr> else lm) ms"

definition renew :: "rmember \<Rightarrow> nat \<Rightarrow> membership \<Rightarrow> membership \<times> bool" where
  "renew m now ms = (update_live m (\<lambda>lm. lm\<lparr>lm_last_seen := now\<rparr>) ms, is_live ms m)"

definition live_status :: "nat \<Rightarrow> membership \<Rightarrow> (u32 \<times> rat \<times> nat option) list" where
  "live_status now ms =
     map (\<lambda>(i, lm). (i, mc_capacity (ms_cfg ms) i,
       map_option (\<lambda>lease. lease - (now - lm_last_seen lm)) (mc_lease (ms_cfg ms)))) (ms_live ms)"

definition depart :: "rmember \<Rightarrow> membership \<Rightarrow> membership" where
  "depart m ms =
     retire m (if is_live ms m
       then ms\<lparr>ms_live := dict_pop (learner_id m) (ms_live ms), ms_epoch := ms_epoch ms + 1\<rparr> else ms)"

definition lapsed :: "nat \<Rightarrow> nat \<Rightarrow> membership \<Rightarrow> rmember list" where
  "lapsed lease now ms =
     map (\<lambda>(i, lm). \<lparr>learner_id = i, generation = lm_generation lm\<rparr>)
       (filter (\<lambda>(i, lm). now - lm_last_seen lm \<ge> lease) (ms_live ms))"

definition expire_one :: "rmember \<Rightarrow> membership \<Rightarrow> membership" where
  "expire_one m ms =
     (let ms = retire m (ms\<lparr>ms_live := dict_pop (learner_id m) (ms_live ms),
                            ms_expired := List.insert (learner_id m) (ms_expired ms)\<rparr>)
      in ms\<lparr>ms_epoch := ms_epoch ms + 1\<rparr>)"

definition expire :: "nat \<Rightarrow> membership \<Rightarrow> membership \<times> rmember list" where
  "expire now ms =
     (case mc_lease (ms_cfg ms) of None \<Rightarrow> (ms, [])
      | Some lease \<Rightarrow> (fold expire_one (lapsed lease now ms) ms, lapsed lease now ms))"

definition next_expiry :: "membership \<Rightarrow> nat option" where
  "next_expiry ms =
     (case mc_lease (ms_cfg ms) of None \<Rightarrow> None
      | Some lease \<Rightarrow> if ms_live ms = [] then None
          else Some (Min ((\<lambda>(i, lm). lm_last_seen lm + lease) ` set (ms_live ms))))"

datatype push_error = PredatesCatchUp nat u64 u64

definition check_push_base :: "rmember \<Rightarrow> nat \<Rightarrow> u64 \<Rightarrow> membership \<Rightarrow> push_error + unit" where
  "check_push_base m fragment base ms =
     (case dict_get (ms_live ms) (learner_id m) of None \<Rightarrow> Inr ()
      | Some lm \<Rightarrow>
          if lm_generation lm \<noteq> generation m then Inr ()
          else case lm_floor lm of None \<Rightarrow> Inr ()
          | Some flr \<Rightarrow>
              if fragment < length flr \<and> \<not> base \<ge> flr ! fragment
              then Inl (PredatesCatchUp fragment base (flr ! fragment)) else Inr ())"

section \<open>The persisted record\<close>

definition persist_magic :: bytes where "persist_magic = [0x59, 0x4D, 0x42, 0x31]"

definition encode_island :: "u32 \<times> u64 list \<times> u64 list \<Rightarrow> bytes" where
  "encode_island r = (case r of (i, order, _) \<Rightarrow>
     u32_bytes i @ u32_bytes (word_of_nat (length order)) @ concat (map u64_bytes order))"

definition encode_persisted :: "membership \<Rightarrow> bytes" where
  "encode_persisted ms =
     persist_magic @ u64_bytes (ms_syncer_epoch ms) @ u32_bytes (word_of_nat (length (ms_retired ms)))
     @ concat (map encode_island (ms_retired ms))"

datatype persist_error = BadMagic | BadRecord wire_error | TooManyRetired nat u32

definition wire :: "wire_error + 'a \<Rightarrow> persist_error + 'a" where
  "wire r = (case r of Inl e \<Rightarrow> Inl (BadRecord e) | Inr x \<Rightarrow> Inr x)"

fun read_islands :: "nat \<Rightarrow> bytes \<Rightarrow> persist_error + rmember list \<times> bytes" where
  "read_islands 0 r = Inr ([], r)"
| "read_islands (Suc n) r =
     rbind (wire (cursor_u32 r)) (\<lambda>(i, r).
     rbind (wire (cursor_u32 r)) (\<lambda>(count, r).
       if unat count > retired_per_island then Inl (TooManyRetired (unat count) i)
       else rbind (wire (cursor_u64s (unat count) r)) (\<lambda>(gs, r).
            rbind (read_islands n r) (\<lambda>(ms, r).
              Inr (map (\<lambda>g. \<lparr>learner_id = i, generation = g\<rparr>) gs @ ms, r)))))"

definition restore_persisted :: "bytes \<Rightarrow> membership \<Rightarrow> persist_error + membership" where
  "restore_persisted bs ms =
     rbind (wire (cursor_take 4 bs)) (\<lambda>(magic, r).
       if magic \<noteq> persist_magic then Inl BadMagic
       else rbind (wire (cursor_u64 r)) (\<lambda>(epoch, r).
            rbind (wire (cursor_u32 r)) (\<lambda>(islands, r).
            rbind (read_islands (unat islands) r) (\<lambda>(retired, r).
            rbind (wire (cursor_end r)) (\<lambda>_.
              Inr (fold retire retired (raise_syncer_epoch epoch ms)))))))"

section \<open>Runs and the invariant\<close>

inductive mstep :: "membership \<Rightarrow> membership \<Rightarrow> bool" where
  m_admit: "admit m now ms = Inr (ms', a) \<Longrightarrow> mstep ms ms'"
| m_catch_up: "mstep ms (record_catch_up m vs ms)"
| m_renew: "renew m now ms = (ms', b) \<Longrightarrow> mstep ms ms'"
| m_depart: "mstep ms (depart m ms)"
| m_expire: "expire now ms = (ms', gone) \<Longrightarrow> mstep ms ms'"
| m_raise: "mstep ms (raise_syncer_epoch e ms)"
| m_dirty: "take_dirty ms = (ms', b) \<Longrightarrow> mstep ms ms'"

inductive mrun :: "membership \<Rightarrow> bool" where
  m_new: "mrun (membership_new cfg limit)"
| m_restored: "restore_persisted bs (membership_new cfg limit) = Inr ms \<Longrightarrow> mrun ms"
| m_step: "mrun ms \<Longrightarrow> mstep ms ms' \<Longrightarrow> mrun ms'"

definition retired_ok :: "u64 list \<times> u64 list \<Rightarrow> bool" where
  "retired_ok r \<longleftrightarrow> distinct (fst r) \<and> set (snd r) = set (fst r) \<and> length (fst r) \<le> retired_per_island"

definition retired_inv :: "membership \<Rightarrow> bool" where
  "retired_inv ms \<longleftrightarrow> bt_ok (ms_retired ms) \<and> (\<forall>i r. dict_get (ms_retired ms) i = Some r \<longrightarrow> retired_ok r)"

definition ms_inv :: "membership \<Rightarrow> bool" where
  "ms_inv ms \<longleftrightarrow> bt_ok (ms_live ms) \<and> retired_inv ms \<and> (\<forall>m. is_live ms m \<longrightarrow> \<not> is_retired ms m)"

lemma trim_front_order: "fst (trim_front n xs s) = drop (length xs - n) xs"
proof (induction xs arbitrary: s)
  case (Cons x xs)
  then show ?case by (cases "length xs - n") (auto simp: Suc_diff_le)
qed simp

lemma trim_front_set:
  "distinct xs \<Longrightarrow> set s = set xs \<Longrightarrow> set (snd (trim_front n xs s)) = set (drop (length xs - n) xs)"
proof (induction xs arbitrary: s)
  case (Cons x xs)
  have "set (removeAll x s) = set xs" using Cons.prems by auto
  then show ?case using Cons by (auto simp: Suc_diff_le)
qed simp

lemma retired_ok_trim:
  assumes "distinct xs" "set s = set xs"
  shows "retired_ok (trim_front retired_per_island xs s)"
  using trim_front_order [of retired_per_island xs s] trim_front_set [OF assms, of retired_per_island] assms(1)
  by (simp add: retired_ok_def)

lemma retire_fields [simp]:
  "ms_live (retire m ms) = ms_live ms" "ms_expired (retire m ms) = ms_expired ms"
  "ms_cfg (retire m ms) = ms_cfg ms" "ms_syncer_epoch (retire m ms) = ms_syncer_epoch ms"
  "ms_id_limit (retire m ms) = ms_id_limit ms"
  by (simp_all add: retire_def Let_def split: prod.split option.split)

lemma is_live_retire [simp]: "is_live (retire m ms) m' = is_live ms m'"
  by (simp add: is_live_def)

definition retired_entry :: "membership \<Rightarrow> u32 \<Rightarrow> u64 list \<times> u64 list" where
  "retired_entry ms i = (case dict_get (ms_retired ms) i of None \<Rightarrow> ([], []) | Some r \<Rightarrow> r)"

lemma is_retired_entry: "is_retired ms m \<longleftrightarrow> generation m \<in> set (snd (retired_entry ms (learner_id m)))"
  by (auto simp: is_retired_def retired_entry_def split: option.splits)

lemma retire_entry:
  "retired_entry (retire m ms) i =
     (if i \<noteq> learner_id m \<or> is_retired ms m then retired_entry ms i
      else trim_front retired_per_island (fst (retired_entry ms i) @ [generation m])
             (generation m # snd (retired_entry ms i)))"
  by (auto simp: retire_def Let_def retired_entry_def is_retired_def split: option.splits prod.splits)

lemma retired_ok_entry: "retired_inv ms \<Longrightarrow> retired_ok (retired_entry ms i)"
  by (auto simp: retired_inv_def retired_entry_def retired_ok_def split: option.splits)

lemma retire_inv: assumes "retired_inv ms" shows "retired_inv (retire m ms)"
proof -
  note ok = retired_ok_entry [OF assms, of "learner_id m"]
  have "retired_ok (trim_front retired_per_island (fst (retired_entry ms (learner_id m)) @ [generation m])
      (generation m # snd (retired_entry ms (learner_id m))))" if "\<not> is_retired ms m"
    using ok that by (intro retired_ok_trim) (auto simp: retired_ok_def is_retired_entry)
  then show ?thesis using assms ok
    by (auto simp: retired_inv_def retire_def Let_def is_retired_entry retired_entry_def
        split: option.splits prod.splits)
qed

text \<open>What \<open>retire\<close> does to the fence: it adds the generation and may forget the oldest one.\<close>

lemma retire_retires: assumes "retired_inv ms" shows "is_retired (retire m ms) m"
proof (cases "is_retired ms m")
  case False
  let ?e = "retired_entry ms (learner_id m)"
  have ok: "distinct (fst ?e)" "set (snd ?e) = set (fst ?e)"
    using retired_ok_entry [OF assms] by (auto simp: retired_ok_def)
  have d: "distinct (fst ?e @ [generation m])" "set (generation m # snd ?e) = set (fst ?e @ [generation m])"
    using ok False by (auto simp: is_retired_entry)
  have "generation m \<in> set (drop (length (fst ?e @ [generation m]) - retired_per_island) (fst ?e @ [generation m]))"
    by (simp add: retired_per_island_def)
  then show ?thesis
    unfolding is_retired_entry retire_entry using False trim_front_set [OF d, of retired_per_island]
    by simp
qed (simp add: is_retired_entry retire_entry)

lemma retire_only:
  assumes "retired_inv ms" "is_retired (retire m ms) m'" shows "m' = m \<or> is_retired ms m'"
proof -
  let ?e = "retired_entry ms (learner_id m)"
  have ok: "distinct (fst ?e)" "set (snd ?e) = set (fst ?e)"
    using retired_ok_entry [OF assms(1)] by (auto simp: retired_ok_def)
  show ?thesis
  proof (cases "learner_id m' \<noteq> learner_id m \<or> is_retired ms m")
    case False
    then have d: "distinct (fst ?e @ [generation m])" "set (generation m # snd ?e) = set (fst ?e @ [generation m])"
      using ok by (auto simp: is_retired_entry)
    have "generation m' \<in> set (fst ?e @ [generation m])"
      using assms(2) False trim_front_set [OF d, of retired_per_island]
      by (auto simp: is_retired_entry retire_entry dest: in_set_dropD)
    then consider "generation m' = generation m" | "generation m' \<in> set (snd ?e)" using ok(2) by auto
    then show ?thesis
    proof cases
      case 1
      then have "m' = m" using False by (intro rmember.equality) auto
      then show ?thesis ..
    next
      case 2
      then show ?thesis using False by (simp add: is_retired_entry)
    qed
  qed (use assms(2) in \<open>auto simp: is_retired_entry retire_entry\<close>)
qed

lemma retire_keeps:
  assumes "retired_inv ms" "is_retired ms m'"
    and "learner_id m' = learner_id m \<Longrightarrow> length (fst (retired_entry ms (learner_id m))) < retired_per_island"
  shows "is_retired (retire m ms) m'"
proof (cases "learner_id m' \<noteq> learner_id m \<or> is_retired ms m")
  case False
  let ?e = "retired_entry ms (learner_id m)"
  have ok: "distinct (fst ?e)" "set (snd ?e) = set (fst ?e)"
    using retired_ok_entry [OF assms(1)] by (auto simp: retired_ok_def)
  then have d: "distinct (fst ?e @ [generation m])" "set (generation m # snd ?e) = set (fst ?e @ [generation m])"
    using False by (auto simp: is_retired_entry)
  have "generation m' \<in> set (fst ?e @ [generation m])" using assms(2) False ok by (auto simp: is_retired_entry)
  moreover have "length (fst ?e @ [generation m]) - retired_per_island = 0" using assms(3) False by simp
  ultimately show ?thesis using False trim_front_set [OF d, of retired_per_island]
    by (simp add: is_retired_entry retire_entry)
qed (use assms(2) in \<open>auto simp: is_retired_entry retire_entry\<close>)

lemma frame_simps [simp]:
  "is_retired (ms\<lparr>ms_live := l\<rparr>) = is_retired ms" "is_retired (ms\<lparr>ms_expired := e\<rparr>) = is_retired ms"
  "is_retired (ms\<lparr>ms_epoch := n\<rparr>) = is_retired ms" "is_retired (ms\<lparr>ms_dirty := d\<rparr>) = is_retired ms"
  "is_retired (ms\<lparr>ms_syncer_epoch := n\<rparr>) = is_retired ms"
  "is_live (ms\<lparr>ms_expired := e\<rparr>) = is_live ms" "is_live (ms\<lparr>ms_epoch := n\<rparr>) = is_live ms"
  "is_live (ms\<lparr>ms_dirty := d\<rparr>) = is_live ms" "is_live (ms\<lparr>ms_syncer_epoch := n\<rparr>) = is_live ms"
  "retired_inv (ms\<lparr>ms_live := l\<rparr>) = retired_inv ms" "retired_inv (ms\<lparr>ms_expired := e\<rparr>) = retired_inv ms"
  "retired_inv (ms\<lparr>ms_epoch := n\<rparr>) = retired_inv ms" "retired_inv (ms\<lparr>ms_dirty := d\<rparr>) = retired_inv ms"
  "retired_inv (ms\<lparr>ms_syncer_epoch := n\<rparr>) = retired_inv ms"
  by (simp_all add: is_retired_def is_live_def retired_inv_def fun_eq_iff)

lemma is_live_insert [simp]:
  "is_live (ms\<lparr>ms_live := bt_insert i lm (ms_live ms)\<rparr>) m =
     (if learner_id m = i then lm_generation lm = generation m else is_live ms m)"
  by (simp add: is_live_def)

lemma is_live_pop [simp]:
  "is_live (ms\<lparr>ms_live := dict_pop i (ms_live ms)\<rparr>) m = (learner_id m \<noteq> i \<and> is_live ms m)"
  by (simp add: is_live_def)

text \<open>A step is fenced when every generation that stops being live is retired.\<close>

definition fenced_step :: "membership \<Rightarrow> membership \<Rightarrow> bool" where
  "fenced_step ms ms' \<longleftrightarrow> ms_inv ms' \<and> (\<forall>m. is_live ms m \<longrightarrow> is_live ms' m \<or> is_retired ms' m)"

lemma fenced_same_live:
  assumes "ms_inv ms" "bt_ok (ms_live ms')" "retired_inv ms'" "\<And>m. is_live ms' m = is_live ms m"
    "\<And>m. is_retired ms' m = is_retired ms m"
  shows "fenced_step ms ms'"
  using assms by (auto simp: fenced_step_def ms_inv_def)

lemma fenced_update_live:
  assumes inv: "ms_inv ms" and f: "\<And>lm. lm_generation (f lm) = lm_generation lm"
  shows "fenced_step ms (update_live m f ms)"
proof (rule fenced_same_live [OF inv])
  show "is_live (update_live m f ms) m' = is_live ms m'" for m'
    by (auto simp: update_live_def f is_live_def split: option.splits)
qed (use inv in \<open>auto simp: update_live_def ms_inv_def split: option.split\<close>)

lemma fenced_leave:
  assumes inv: "ms_inv ms" and m: "is_live ms m"
  shows "fenced_step ms (retire m (ms\<lparr>ms_live := dict_pop (learner_id m) (ms_live ms)\<rparr>))"
proof -
  let ?ms = "ms\<lparr>ms_live := dict_pop (learner_id m) (ms_live ms)\<rparr>"
  have ri: "retired_inv ?ms" using inv by (simp add: ms_inv_def)
  have same: "m' = m" if "is_live ms m'" "learner_id m' = learner_id m" for m'
    using m that by (intro rmember.equality) (auto simp: is_live_def split: option.splits)
  have "\<not> is_retired (retire m ?ms) m'" if "is_live (retire m ?ms) m'" for m'
    using retire_only [OF ri, of m m'] that inv by (auto simp: ms_inv_def)
  moreover have "is_live (retire m ?ms) m' \<or> is_retired (retire m ?ms) m'" if "is_live ms m'" for m'
    using that same [of m'] retire_retires [OF ri, of m] by auto
  ultimately show ?thesis using inv retire_inv [OF ri, of m] by (auto simp: fenced_step_def ms_inv_def)
qed

lemma fenced_admit:
  assumes inv: "ms_inv ms" and a: "admit m now ms = Inr (ms', r)"
  shows "fenced_step ms ms'"
proof -
  define rejoin where "rejoin = (learner_id m \<in> set (ms_expired ms))"
  define ms1 where "ms1 = ms\<lparr>ms_expired := removeAll (learner_id m) (ms_expired ms),
      ms_live := bt_insert (learner_id m)
        \<lparr>lm_generation = generation m, lm_last_seen = now, lm_awaiting = rejoin, lm_floor = None\<rparr> (ms_live ms)\<rparr>"
  have new: "\<not> is_retired ms m" "\<not> is_live ms m"
    and ms': "ms' = (case map_option lm_generation (dict_get (ms_live ms) (learner_id m)) of None \<Rightarrow> ms1
        | Some g \<Rightarrow> retire \<lparr>learner_id = learner_id m, generation = g\<rparr> ms1)\<lparr>ms_epoch := ms_epoch ms'\<rparr>"
    using a by (auto simp: admit_def Let_def ms1_def rejoin_def split: if_splits option.splits)
  have live1: "is_live ms1 m' = (if learner_id m' = learner_id m then generation m' = generation m else is_live ms m')" for m'
    by (auto simp: ms1_def is_live_def)
  have ri: "retired_inv ms1" "bt_ok (ms_live ms1)" using inv by (auto simp: ms1_def ms_inv_def)
  have ret1: "is_retired ms1 = is_retired ms" by (simp add: ms1_def)
  have eq: "m' = m" if "learner_id m' = learner_id m" "generation m' = generation m" for m'
    using that by (intro rmember.equality) auto
  have clean: "\<not> is_retired ms m'" if "is_live ms1 m'" for m'
  proof (cases "learner_id m' = learner_id m")
    case True
    then have "m' = m" using that eq by (simp add: live1)
    then show ?thesis using new by simp
  next
    case False
    then show ?thesis using that inv by (simp add: live1 ms_inv_def)
  qed
  show ?thesis
  proof (cases "dict_get (ms_live ms) (learner_id m)")
    case None
    then have "\<not> is_live ms m'" if "learner_id m' = learner_id m" for m' using that by (simp add: is_live_def)
    then show ?thesis using None clean ri
      by (subst ms') (auto simp: fenced_step_def ms_inv_def ret1 live1)
  next
    case (Some lm)
    let ?old = "\<lparr>learner_id = learner_id m, generation = lm_generation lm\<rparr>"
    have old: "m' = ?old" if "is_live ms m'" "learner_id m' = learner_id m" for m'
      using that Some by (intro rmember.equality) (auto simp: is_live_def)
    have "is_live ms ?old" using Some by (simp add: is_live_def)
    then have "m \<noteq> ?old" using new by metis
    have "m' \<noteq> ?old" if "is_live ms1 m'" for m'
    proof
      assume "m' = ?old"
      then have "m' = m" using that eq by (simp add: live1)
      then show False using \<open>m' = ?old\<close> \<open>m \<noteq> ?old\<close> by simp
    qed
    then have "\<not> is_retired (retire ?old ms1) m'" if "is_live ms1 m'" for m'
      using retire_only [OF ri(1), of ?old m'] clean [OF that] that unfolding ret1 by blast
    moreover have "is_live ms1 m' \<or> is_retired (retire ?old ms1) m'" if "is_live ms m'" for m'
      using that old [of m'] retire_retires [OF ri(1), of ?old] by (cases "learner_id m' = learner_id m") (auto simp: live1)
    ultimately show ?thesis using Some ri retire_inv [OF ri(1), of ?old]
      by (subst ms') (auto simp: fenced_step_def ms_inv_def)
  qed
qed

lemma retire_other: "learner_id m' \<noteq> learner_id m \<Longrightarrow> is_retired (retire m ms) m' = is_retired ms m'"
  by (simp add: is_retired_entry retire_entry)

lemma live_unique: "is_live ms a \<Longrightarrow> is_live ms b \<Longrightarrow> learner_id a = learner_id b \<Longrightarrow> a = b"
  by (intro rmember.equality) (auto simp: is_live_def split: option.splits)

lemma expire_one_ok:
  assumes inv: "ms_inv ms" and m: "is_live ms m"
  shows "ms_inv (expire_one m ms)"
    and "is_live (expire_one m ms) a \<longleftrightarrow> is_live ms a \<and> a \<noteq> m"
    and "is_retired (expire_one m ms) m"
    and "learner_id a \<noteq> learner_id m \<Longrightarrow> is_retired (expire_one m ms) a = is_retired ms a"
proof -
  let ?ms = "ms\<lparr>ms_live := dict_pop (learner_id m) (ms_live ms), ms_expired := List.insert (learner_id m) (ms_expired ms)\<rparr>"
  have live: "is_live ?ms b \<longleftrightarrow> learner_id b \<noteq> learner_id m \<and> is_live ms b" for b by (simp add: is_live_def)
  have ri: "retired_inv ?ms" using inv by (simp add: ms_inv_def)
  have e: "is_retired (expire_one m ms) = is_retired (retire m ?ms)" "is_live (expire_one m ms) = is_live (retire m ?ms)"
    "retired_inv (expire_one m ms) = retired_inv (retire m ?ms)" "ms_live (expire_one m ms) = ms_live ?ms"
    by (simp_all add: expire_one_def Let_def)
  have "\<not> is_retired (retire m ?ms) b" if "is_live ?ms b" for b
    using retire_only [OF ri, of m b] that inv by (auto simp: live ms_inv_def)
  then show "ms_inv (expire_one m ms)" using inv retire_inv [OF ri, of m] by (simp add: ms_inv_def e)
  show "is_live (expire_one m ms) a \<longleftrightarrow> is_live ms a \<and> a \<noteq> m"
    using live_unique [OF _ m, of a] by (auto simp: e live)
  show "is_retired (expire_one m ms) m" using retire_retires [OF ri] by (simp add: e)
  show "is_retired (expire_one m ms) a = is_retired ms a" if "learner_id a \<noteq> learner_id m"
    using that by (simp add: e retire_other)
qed

lemma fold_expire_ok:
  assumes "ms_inv ms" "\<forall>m \<in> set L. is_live ms m" "distinct (map learner_id L)"
  shows "ms_inv (fold expire_one L ms)
    \<and> (\<forall>a. is_live (fold expire_one L ms) a \<longleftrightarrow> is_live ms a \<and> a \<notin> set L)
    \<and> (\<forall>a \<in> set L. is_retired (fold expire_one L ms) a)
    \<and> (\<forall>a. learner_id a \<notin> learner_id ` set L \<longrightarrow> is_retired (fold expire_one L ms) a = is_retired ms a)"
  using assms
proof (induction L arbitrary: ms)
  case (Cons m L)
  have m: "is_live ms m" using Cons.prems by simp
  note ok = expire_one_ok [OF Cons.prems(1) m]
  have "\<forall>a \<in> set L. is_live (expire_one m ms) a" using Cons.prems ok(2) by auto
  from Cons.IH [OF ok(1) this] Cons.prems(3)
  show ?case using ok(2,3,4) by auto
qed simp

lemma lapsed_live:
  assumes "ms_inv ms" "m \<in> set (lapsed lease now ms)" shows "is_live ms m"
  using assms by (auto simp: lapsed_def is_live_def ms_inv_def dest: bt_ok_dict simp: dict_item_get)

lemma lapsed_ids: "ms_inv ms \<Longrightarrow> distinct (map learner_id (lapsed lease now ms))"
proof -
  assume "ms_inv ms"
  then have "distinct (map fst (ms_live ms))" using bt_ok_dict by (auto simp: ms_inv_def dict_ok_def)
  moreover have "map learner_id (lapsed lease now ms)
      = map fst (filter (\<lambda>(i, lm). now - lm_last_seen lm \<ge> lease) (ms_live ms))"
    by (auto simp: lapsed_def)
  ultimately show ?thesis by (simp add: distinct_map_filter)
qed

lemma expire_ok:
  assumes inv: "ms_inv ms" and e: "expire now ms = (ms', gone)"
  shows "ms_inv ms' \<and> (\<forall>a. is_live ms' a \<longleftrightarrow> is_live ms a \<and> a \<notin> set gone) \<and> (\<forall>a \<in> set gone. is_retired ms' a)"
proof (cases "mc_lease (ms_cfg ms)")
  case None
  then show ?thesis using e inv by (auto simp: expire_def)
next
  case (Some lease)
  then have "ms' = fold expire_one gone ms" "gone = lapsed lease now ms" using e by (auto simp: expire_def)
  then show ?thesis using fold_expire_ok [OF inv] lapsed_live [OF inv] lapsed_ids [OF inv] by blast
qed

lemma fenced_step_mstep: "mstep ms ms' \<Longrightarrow> ms_inv ms \<Longrightarrow> fenced_step ms ms'"
proof (induction rule: mstep.induct)
  case (m_admit m now ms ms' a)
  then show ?case using fenced_admit by blast
next
  case (m_catch_up ms m vs)
  then show ?case unfolding record_catch_up_def by (intro fenced_update_live) auto
next
  case (m_renew m now ms ms' b)
  have "fenced_step ms (update_live m (\<lambda>lm. lm\<lparr>lm_last_seen := now\<rparr>) ms)"
    using m_renew.prems by (intro fenced_update_live) auto
  then show ?case using m_renew.hyps by (simp add: renew_def)
next
  case (m_depart ms m)
  show ?case
  proof (cases "is_live ms m")
    case True
    then have "depart m ms = (retire m (ms\<lparr>ms_live := dict_pop (learner_id m) (ms_live ms)\<rparr>))\<lparr>ms_epoch := ms_epoch ms + 1\<rparr>"
      by (simp add: depart_def retire_def Let_def split: prod.split)
    then show ?thesis using fenced_leave [OF m_depart True] by (simp add: fenced_step_def ms_inv_def)
  next
    case False
    have ri: "retired_inv ms" using m_depart by (simp add: ms_inv_def)
    show ?thesis using False m_depart retire_inv [OF ri] retire_only [OF ri, of m]
      by (auto simp: depart_def fenced_step_def ms_inv_def)
  qed
next
  case (m_expire now ms ms' gone)
  then show ?case using expire_ok by (fastforce simp: fenced_step_def)
next
  case (m_raise ms e)
  then show ?case by (auto simp: raise_syncer_epoch_def fenced_step_def ms_inv_def)
next
  case (m_dirty ms ms' b)
  then show ?case by (auto simp: take_dirty_def fenced_step_def ms_inv_def)
qed

lemma fold_retire_inv:
  "retired_inv ms \<Longrightarrow> ms_live ms = [] \<Longrightarrow> retired_inv (fold retire ms' ms) \<and> ms_live (fold retire ms' ms) = []"
  by (induction ms' arbitrary: ms) (auto simp: retire_inv)

lemma mrun_inv: "mrun ms \<Longrightarrow> ms_inv ms"
proof (induction rule: mrun.induct)
  case (m_new cfg limit)
  then show ?case by (simp add: membership_new_def ms_inv_def bt_ok_def retired_inv_def is_live_def)
next
  case (m_restored bs cfg limit ms)
  then obtain e retired where ms: "ms = fold retire retired (raise_syncer_epoch e (membership_new cfg limit))"
    by (auto simp: restore_persisted_def rbind_Inr_iff split: if_splits)
  have "retired_inv (raise_syncer_epoch e (membership_new cfg limit))" "ms_live (raise_syncer_epoch e (membership_new cfg limit)) = []"
    by (auto simp: raise_syncer_epoch_def membership_new_def retired_inv_def bt_ok_def)
  from fold_retire_inv [OF this] show ?case by (simp add: ms ms_inv_def bt_ok_def is_live_def)
next
  case (m_step ms ms')
  then show ?case using fenced_step_mstep by (auto simp: fenced_step_def)
qed

section \<open>Reading the record back\<close>

lemma trim_front_short: "length xs \<le> n \<Longrightarrow> trim_front n xs s = (xs, s)"
  by (cases xs) auto

lemma fold_retire_entry:
  assumes "set (snd (retired_entry ms i)) = set (fst (retired_entry ms i))"
    and "distinct (fst (retired_entry ms i) @ gs)" "length (fst (retired_entry ms i) @ gs) \<le> retired_per_island"
  shows "retired_entry (fold retire (map (\<lambda>g. \<lparr>learner_id = i, generation = g\<rparr>) gs) ms) j =
    (if j = i then (fst (retired_entry ms i) @ gs, rev gs @ snd (retired_entry ms i)) else retired_entry ms j)"
  using assms
proof (induction gs arbitrary: ms)
  case (Cons g gs)
  let ?m = "\<lparr>learner_id = i, generation = g\<rparr>"
  have n: "\<not> is_retired ms ?m" using Cons.prems by (auto simp: is_retired_entry)
  have e: "retired_entry (retire ?m ms) k = (if k = i then (fst (retired_entry ms i) @ [g], g # snd (retired_entry ms i))
      else retired_entry ms k)" for k
    using n Cons.prems(3) by (simp add: retire_entry trim_front_short)
  show ?case using Cons.IH [of "retire ?m ms"] Cons.prems by (simp add: e)
qed simp

lemma fold_retire_dict:
  assumes "distinct (map fst d)" "\<forall>(i, r) \<in> set d. retired_ok r" "\<forall>i \<in> fst ` set d. retired_entry ms i = ([], [])"
  shows "set (snd (retired_entry (fold retire (concat (map (\<lambda>(i, r).
      map (\<lambda>g. \<lparr>learner_id = i, generation = g\<rparr>) (fst r)) d)) ms) j))
    = (case dict_get d j of None \<Rightarrow> set (snd (retired_entry ms j)) | Some r \<Rightarrow> set (snd r))"
  using assms
proof (induction d arbitrary: ms)
  case (Cons a d)
  obtain i r where a: "a = (i, r)" by (cases a)
  have r: "distinct (fst r)" "set (snd r) = set (fst r)" "length (fst r) \<le> retired_per_island"
    using Cons.prems(2) by (auto simp: a retired_ok_def)
  have i: "retired_entry ms i = ([], [])" "i \<notin> fst ` set d" using Cons.prems(1,3) by (auto simp: a)
  let ?ms = "fold retire (map (\<lambda>g. \<lparr>learner_id = i, generation = g\<rparr>) (fst r)) ms"
  have e: "retired_entry ?ms k = (if k = i then (fst r, rev (fst r)) else retired_entry ms k)" for k
    using fold_retire_entry [of ms i "fst r" k] r i(1) by simp
  have "\<forall>k \<in> fst ` set d. retired_entry ?ms k = ([], [])" using Cons.prems(3) i(2) by (auto simp: e a)
  from Cons.IH [OF _ _ this] Cons.prems(1,2)
  have "set (snd (retired_entry (fold retire (concat (map (\<lambda>(i, r).
      map (\<lambda>g. \<lparr>learner_id = i, generation = g\<rparr>) (fst r)) d)) ?ms) j))
    = (case dict_get d j of None \<Rightarrow> set (snd (retired_entry ?ms j)) | Some r \<Rightarrow> set (snd r))"
    by (simp add: a)
  moreover have "dict_get d i = None" using i(2) by (simp add: map_of_eq_None_iff)
  ultimately show ?case using r(2) by (cases "j = i") (simp_all add: a e split: option.splits)
qed simp

lemma wire_simps [simp]: "wire (Inr x) = Inr x" "wire (Inl e) = Inl (BadRecord e)"
  by (simp_all add: wire_def)

lemma cursor_append [simp]:
  "cursor_u32 (u32_bytes w @ r) = Inr (w, r)" "cursor_u64 (u64_bytes v @ r) = Inr (v, r)"
  "cursor_u64s (length vs) (concat (map u64_bytes vs) @ r) = Inr (vs, r)"
proof -
  show "cursor_u32 (u32_bytes w @ r) = Inr (w, r)" "cursor_u64 (u64_bytes v @ r) = Inr (v, r)"
    by (simp_all add: cursor_u32_def cursor_u64_def cursor_take_def)
  then show "cursor_u64s (length vs) (concat (map u64_bytes vs) @ r) = Inr (vs, r)"
    by (induction vs) (simp_all add: cursor_u64_def cursor_take_def)
qed

lemma read_islands_encode:
  assumes "\<forall>(i, r) \<in> set d. length (fst r) \<le> retired_per_island"
  shows "read_islands (length d) (concat (map encode_island d) @ rest) =
    Inr (concat (map (\<lambda>(i, r). map (\<lambda>g. \<lparr>learner_id = i, generation = g\<rparr>) (fst r)) d), rest)"
  using assms
proof (induction d)
  case (Cons a d)
  obtain i order s where a: "a = (i, order, s)" by (cases a)
  have "length order \<le> retired_per_island" using Cons.prems by (auto simp: a)
  then have "length order < 2 ^ 32" by (simp add: retired_per_island_def)
  then have u: "unat (word_of_nat (length order) :: u32) = length order" by (simp add: unat_of_nat)
  show ?case using Cons \<open>length order \<le> retired_per_island\<close> by (simp add: a encode_island_def u)
qed simp

lemma restore_encode:
  assumes inv: "ms_inv ms" and n: "length (ms_retired ms) < 2 ^ 32"
  shows "restore_persisted (encode_persisted ms) ms0
    = Inr (fold retire (concat (map (\<lambda>(i, r). map (\<lambda>g. \<lparr>learner_id = i, generation = g\<rparr>) (fst r)) (ms_retired ms)))
        (raise_syncer_epoch (ms_syncer_epoch ms) ms0))"
proof -
  have ok: "\<forall>(i, r) \<in> set (ms_retired ms). length (fst r) \<le> retired_per_island"
    using inv by (auto simp: ms_inv_def retired_inv_def retired_ok_def dest!: bt_ok_dict simp: dict_item_get)
  have magic: "cursor_take 4 (persist_magic @ r) = Inr (persist_magic, r)" for r
    by (simp add: cursor_take_def persist_magic_def)
  have u: "unat (word_of_nat (length (ms_retired ms)) :: u32) = length (ms_retired ms)"
    using n by (simp add: unat_of_nat)
  show ?thesis using read_islands_encode [OF ok, of "[]"]
    by (simp add: restore_persisted_def encode_persisted_def magic u cursor_end_def)
qed

section \<open>Properties of the membership\<close>

text \<open>
  C10. Stale connections stay out: over every step of a membership, a generation that stops
  being live (superseded, departed or expired) is retired in the same step, a live generation is
  never retired, a retired one is refused by \<open>admit\<close>, and at most 1024 retired generations are
  remembered for an island.
\<close>

theorem membership_fencing:
  assumes run: "mrun ms" and step: "mstep ms ms'"
  shows "(\<forall>m. is_live ms m \<longrightarrow> \<not> is_live ms' m \<longrightarrow> is_retired ms' m)
    \<and> (\<forall>m. is_live ms' m \<longrightarrow> \<not> is_retired ms' m)
    \<and> (\<forall>m now. is_retired ms' m \<longrightarrow> (\<exists>e. admit m now ms' = Inl e))
    \<and> (\<forall>i. length (fst (retired_entry ms' i)) \<le> 1024)"
proof -
  have f: "fenced_step ms ms'" using fenced_step_mstep [OF step mrun_inv [OF run]] .
  then have "retired_inv ms'" by (simp add: fenced_step_def ms_inv_def)
  then have "length (fst (retired_entry ms' i)) \<le> 1024" for i
    using retired_ok_entry [of ms' i] by (simp add: retired_ok_def retired_per_island_def)
  moreover have "\<exists>e. admit m now ms' = Inl e" if "is_retired ms' m" for m now
    using that by (simp add: admit_def)
  ultimately show ?thesis using f by (auto simp: fenced_step_def ms_inv_def)
qed

definition ex_config :: membership_config where
  "ex_config = default_config\<lparr>mc_lease := Some 10\<rparr>"

definition ex_ms1 :: membership where
  "ex_ms1 = fst (projr (admit \<lparr>learner_id = 0, generation = 7\<rparr> 0 (membership_new ex_config 4)))"

lemma ex_ms1_run: "mrun ex_ms1"
proof (rule m_step [OF m_new])
  show "mstep (membership_new ex_config 4) ex_ms1"
    by (rule m_admit [of "\<lparr>learner_id = 0, generation = 7\<rparr>" 0 _ _ "Join None"]) code_simp
qed

theorem membership_fencing_witness:
  "is_retired (fst (expire 20 ex_ms1)) \<lparr>learner_id = 0, generation = 7\<rparr>"
proof -
  have "mstep ex_ms1 (fst (expire 20 ex_ms1))"
    by (rule m_expire [of 20 _ _ "snd (expire 20 ex_ms1)"]) simp
  moreover have "is_live ex_ms1 \<lparr>learner_id = 0, generation = 7\<rparr>" by code_simp
  moreover have "\<not> is_live (fst (expire 20 ex_ms1)) \<lparr>learner_id = 0, generation = 7\<rparr>" by code_simp
  ultimately show ?thesis using membership_fencing [OF ex_ms1_run] by blast
qed

text \<open>
  \<open>expire\<close> removes exactly the live generations that were silent for the lease, keeps every
  other one, and finds somebody exactly from the instant \<open>next_expiry\<close> names on, so a scheduler
  that sleeps until then always makes progress.
\<close>

theorem lease_expiry_exact:
  assumes run: "mrun ms" and lease: "mc_lease (ms_cfg ms) = Some L" "0 < L"
    and e: "expire now ms = (ms', gone)"
  shows "(\<forall>m lm. dict_get (ms_live ms) (learner_id m) = Some lm \<and> lm_generation lm = generation m \<longrightarrow>
        (m \<in> set gone \<longleftrightarrow> lm_last_seen lm + L \<le> now))
    \<and> (\<forall>m. is_live ms' m \<longleftrightarrow> is_live ms m \<and> m \<notin> set gone)
    \<and> (gone \<noteq> [] \<longleftrightarrow> (\<exists>t. next_expiry ms = Some t \<and> t \<le> now))"
proof -
  have inv: "ms_inv ms" using mrun_inv [OF run] .
  have ok: "dict_ok (ms_live ms)" using inv bt_ok_dict by (auto simp: ms_inv_def)
  have gone: "gone = lapsed L now ms" using e lease by (simp add: expire_def)
  have late: "L \<le> now - t \<longleftrightarrow> t + L \<le> now" for t using lease(2) by linarith
  have mem: "m \<in> set gone \<longleftrightarrow> lm_last_seen lm + L \<le> now"
    if lm: "dict_get (ms_live ms) (learner_id m) = Some lm" "lm_generation lm = generation m" for m lm
  proof -
    have "m \<in> set gone \<longleftrightarrow> (\<exists>i l. (i, l) \<in> set (ms_live ms) \<and> l = lm \<and> i = learner_id m \<and> L \<le> now - lm_last_seen l)"
      using lm ok by (force simp: gone lapsed_def dict_item_get image_iff intro!: rmember.equality)
    then show ?thesis using lm ok by (auto simp: dict_item_get late)
  qed
  have "gone \<noteq> [] \<longleftrightarrow> (\<exists>(i, lm) \<in> set (ms_live ms). lm_last_seen lm + L \<le> now)"
    by (auto simp: gone lapsed_def filter_empty_conv late)
  moreover have "(\<exists>t. next_expiry ms = Some t \<and> t \<le> now) \<longleftrightarrow> (\<exists>(i, lm) \<in> set (ms_live ms). lm_last_seen lm + L \<le> now)"
  proof (cases "ms_live ms = []")
    case False
    then have "next_expiry ms = Some (Min ((\<lambda>(i, lm). lm_last_seen lm + L) ` set (ms_live ms)))"
      using lease by (simp add: next_expiry_def)
    then show ?thesis using False by (auto simp: Min_le_iff case_prod_beta)
  qed (use lease in \<open>simp add: next_expiry_def\<close>)
  ultimately show ?thesis using mem expire_ok [OF inv e] by blast
qed

theorem lease_expiry_exact_witness:
  "snd (expire 10 ex_ms1) \<noteq> [] \<and> next_expiry ex_ms1 = Some 10"
proof -
  have l: "mc_lease (ms_cfg ex_ms1) = Some 10" and n: "next_expiry ex_ms1 = Some 10" by code_simp+
  show ?thesis
    using lease_expiry_exact [OF ex_ms1_run l, of 10 "fst (expire 10 ex_ms1)" "snd (expire 10 ex_ms1)"] n
    by simp
qed

lemma fold_expire_expired:
  "m \<in> set L \<or> learner_id m \<in> set (ms_expired ms) \<Longrightarrow> learner_id m \<in> set (ms_expired (fold expire_one L ms))"
  by (induction L arbitrary: ms) (auto simp: expire_one_def Let_def)

text \<open>
  C32. After an expiry the island can only come back as a re-JOIN, and its late work is fenced: the next
  generation of an expired island is admitted as \<open>Rejoin\<close>, and once its catch-up to the fragment
  versions \<open>vs\<close> is recorded, a push is refused exactly when its base is older than the version the
  island was caught up to.
\<close>

theorem rejoin_is_fenced:
  assumes e: "expire now ms = (ms1, gone)" "m \<in> set gone" "learner_id m' = learner_id m"
    and a: "admit m' t ms1 = Inr (ms2, adm)"
  shows "adm = Rejoin
    \<and> check_push_base m' f base (record_catch_up m' vs ms2)
      = (if f < length vs \<and> base < vs ! f then Inl (PredatesCatchUp f base (vs ! f)) else Inr ())"
proof -
  have x: "learner_id m' \<in> set (ms_expired ms1)"
    using e fold_expire_expired by (auto simp: expire_def split: option.splits)
  then have adm: "adm = Rejoin"
    and live: "ms_live ms2 = bt_insert (learner_id m')
        \<lparr>lm_generation = generation m', lm_last_seen = t, lm_awaiting = True, lm_floor = None\<rparr> (ms_live ms1)"
    using a by (auto simp: admit_def Let_def split: if_splits option.splits)
  have "dict_get (ms_live (record_catch_up m' vs ms2)) (learner_id m')
      = Some \<lparr>lm_generation = generation m', lm_last_seen = t, lm_awaiting = False, lm_floor = Some vs\<rparr>"
    by (simp add: record_catch_up_def update_live_def live)
  then show ?thesis using adm by (simp add: check_push_base_def not_le)
qed

theorem rejoin_is_fenced_witness:
  "check_push_base \<lparr>learner_id = 0, generation = 8\<rparr> 1 4 (record_catch_up \<lparr>learner_id = 0, generation = 8\<rparr> [3, 5]
     (fst (projr (admit \<lparr>learner_id = 0, generation = 8\<rparr> 30 (fst (expire 20 ex_ms1))))))
   = Inl (PredatesCatchUp 1 4 5)"
proof -
  let ?m = "\<lparr>learner_id = 0, generation = 8\<rparr>"
  have e: "expire 20 ex_ms1 = (fst (expire 20 ex_ms1), [\<lparr>learner_id = 0, generation = 7\<rparr>])" by code_simp
  have a: "admit ?m 30 (fst (expire 20 ex_ms1)) = Inr (fst (projr (admit ?m 30 (fst (expire 20 ex_ms1)))), Rejoin)"
    by code_simp
  show ?thesis using rejoin_is_fenced [OF e _ _ a, where f = 1 and base = 4 and vs = "[3, 5]"] by simp
qed

text \<open>
  C33. The persisted record survives a restart: restoring what \<open>encode_persisted\<close> wrote into a fresh
  membership succeeds, and gives the same syncer epoch and exactly the same retired generations.
\<close>

theorem persisted_roundtrip:
  assumes run: "mrun ms" and n: "length (ms_retired ms) < 2 ^ 32"
  shows "\<exists>ms'. restore_persisted (encode_persisted ms) (membership_new cfg limit) = Inr ms'
    \<and> ms_syncer_epoch ms' = ms_syncer_epoch ms \<and> (\<forall>m. is_retired ms' m \<longleftrightarrow> is_retired ms m)"
proof -
  have inv: "ms_inv ms" using mrun_inv [OF run] .
  let ?ms0 = "raise_syncer_epoch (ms_syncer_epoch ms) (membership_new cfg limit)"
  let ?ms' = "fold retire (concat (map (\<lambda>(i, r). map (\<lambda>g. \<lparr>learner_id = i, generation = g\<rparr>) (fst r)) (ms_retired ms))) ?ms0"
  have empty: "retired_entry ?ms0 i = ([], [])" for i
    by (simp add: retired_entry_def raise_syncer_epoch_def membership_new_def)
  have d: "dict_ok (ms_retired ms)" using inv bt_ok_dict by (auto simp: ms_inv_def retired_inv_def)
  have ok: "\<forall>(i, r) \<in> set (ms_retired ms). retired_ok r"
    using inv d by (auto simp: ms_inv_def retired_inv_def dict_item_get)
  have "is_retired ?ms' m \<longleftrightarrow> is_retired ms m" for m
    using fold_retire_dict [of "ms_retired ms" ?ms0 "learner_id m"] d ok empty
    by (simp add: is_retired_entry dict_ok_def) (simp add: retired_entry_def split: option.split)
  moreover have "ms_syncer_epoch (fold retire L ms0) = ms_syncer_epoch ms0" for L ms0
    by (induction L arbitrary: ms0) auto
  then have "ms_syncer_epoch ?ms' = ms_syncer_epoch ms"
    by (simp add: raise_syncer_epoch_def membership_new_def word_gt_0)
  ultimately show ?thesis using restore_encode [OF inv n, of "membership_new cfg limit"] by blast
qed

theorem persisted_roundtrip_witness:
  "\<exists>ms'. restore_persisted (encode_persisted (fst (expire 20 ex_ms1))) (membership_new ex_config 4) = Inr ms'
     \<and> is_retired ms' \<lparr>learner_id = 0, generation = 7\<rparr>"
proof -
  have "mrun (fst (expire 20 ex_ms1))"
    by (rule m_step [OF ex_ms1_run m_expire [of 20 _ _ "snd (expire 20 ex_ms1)"]]) simp
  moreover have "length (ms_retired (fst (expire 20 ex_ms1))) = 1"
    and "is_retired (fst (expire 20 ex_ms1)) \<lparr>learner_id = 0, generation = 7\<rparr>" by code_simp+
  ultimately show ?thesis using persisted_roundtrip [of "fst (expire 20 ex_ms1)" ex_config 4] by auto
qed

end
