(* ===== verification/Members.thy ===== *)
theory Members
  imports Wire_Format
begin

text \<open>
  The table of island processes with a lease, \<open>syncer/src/members.rs\<close>: which incarnation of an
  island is current, which incarnations are retired, and why.  The task dispenser, the rollout
  subscribers and the sample relay of a syncer share one table.

  A \<open>BTreeMap\<close> is an association list in key order, a \<open>HashMap\<close> an association list, an
  \<open>Instant\<close> or a \<open>Duration\<close> a number of nanoseconds.
\<close>

section \<open>Operations\<close>

datatype retired = Superseded | Expired | Restart

definition retired_name :: "retired \<Rightarrow> string" where
  "retired_name r = (case r of Superseded \<Rightarrow> ''superseded'' | Expired \<Rightarrow> ''lease expired''
     | Restart \<Rightarrow> ''from before a syncer restart'')"

definition retired_limit :: nat where "retired_limit = 4096"

datatype holder = Holder (h_learner: u32) (h_incarnation: u64)

text \<open>The derived \<open>Ord\<close> of a holder: by learner, then by incarnation.\<close>

instantiation holder :: linorder
begin

definition less_eq_holder :: "holder \<Rightarrow> holder \<Rightarrow> bool" where
  "less_eq_holder a b \<longleftrightarrow> h_learner a < h_learner b
     \<or> h_learner a = h_learner b \<and> h_incarnation a \<le> h_incarnation b"

definition less_holder :: "holder \<Rightarrow> holder \<Rightarrow> bool" where
  "less_holder a b \<longleftrightarrow> h_learner a < h_learner b
     \<or> h_learner a = h_learner b \<and> h_incarnation a < h_incarnation b"

instance
  by standard (auto simp: less_eq_holder_def less_holder_def intro: holder.expand)

end

datatype join_outcome = Joined "holder option" | Reconnected

record members =
  mb_lease :: nat
  mb_last_seen :: "(holder, nat) dict"
  mb_current :: "(u32, u64) dict"
  mb_order :: "holder list"
  mb_reasons :: "(holder, retired) dict"
  mb_retirements :: nat

definition members_new :: "nat \<Rightarrow> members" where
  "members_new lease = \<lparr>mb_lease = lease, mb_last_seen = [], mb_current = [], mb_order = [], mb_reasons = [],
     mb_retirements = 0\<rparr>"

definition mb_is_live :: "members \<Rightarrow> holder \<Rightarrow> bool" where
  "mb_is_live mb h \<longleftrightarrow> dict_get (mb_last_seen mb) h \<noteq> None"

definition mb_is_retired :: "members \<Rightarrow> holder \<Rightarrow> bool" where
  "mb_is_retired mb h \<longleftrightarrow> dict_get (mb_reasons mb) h \<noteq> None"

definition retired_reason :: "members \<Rightarrow> holder \<Rightarrow> retired option" where
  "retired_reason mb h = dict_get (mb_reasons mb) h"

definition hex_digit :: "nat \<Rightarrow> char" where
  "hex_digit d = (if d < 10 then char_of (48 + d) else char_of (87 + d))"

definition hex16 :: "u64 \<Rightarrow> string" where
  "hex16 w = map (\<lambda>i. hex_digit (unat w div 16 ^ (15 - i) mod 16)) [0..<16]"

definition fenced_text :: "members \<Rightarrow> holder \<Rightarrow> string" where
  "fenced_text mb h =
     ''incarnation '' @ hex16 (h_incarnation h) @ '' of member '' @ show_nat (unat (h_learner h)) @ '' is retired (''
     @ (case retired_reason mb h of None \<Rightarrow> ''retired'' | Some r \<Rightarrow> retired_name r) @ '')''"

definition mb_len :: "members \<Rightarrow> nat" where
  "mb_len mb = length (mb_last_seen mb)"

definition current :: "members \<Rightarrow> u32 \<Rightarrow> holder option" where
  "current mb i = map_option (Holder i) (dict_get (mb_current mb) i)"

text \<open>The loop that forgets the oldest retired incarnations.\<close>

fun trim_retired :: "nat \<Rightarrow> holder list \<Rightarrow> (holder, retired) dict \<Rightarrow> holder list \<times> (holder, retired) dict" where
  "trim_retired limit [] m = ([], m)"
| "trim_retired limit (x # xs) m =
     (if length (x # xs) > limit then trim_retired limit xs (dict_pop x m) else (x # xs, m))"

definition mb_retire :: "holder \<Rightarrow> retired \<Rightarrow> members \<Rightarrow> members" where
  "mb_retire h reason mb =
     (let mb = mb\<lparr>mb_last_seen := dict_pop h (mb_last_seen mb)\<rparr>;
          mb = (if dict_get (mb_current mb) (h_learner h) = Some (h_incarnation h)
                then mb\<lparr>mb_current := dict_pop (h_learner h) (mb_current mb)\<rparr> else mb)
      in if dict_get (mb_reasons mb) h \<noteq> None then mb
         else let (order, reasons) = trim_retired retired_limit (mb_order mb @ [h]) (dict_set h reason (mb_reasons mb))
              in mb\<lparr>mb_order := order, mb_reasons := reasons, mb_retirements := mb_retirements mb + 1\<rparr>)"

definition mb_join :: "holder \<Rightarrow> nat \<Rightarrow> members \<Rightarrow> members \<times> join_outcome" where
  "mb_join h now mb =
     (if dict_get (mb_last_seen mb) h \<noteq> None
      then (mb\<lparr>mb_last_seen := bt_insert h now (mb_last_seen mb)\<rparr>, Reconnected)
      else
        let superseded = current mb (h_learner h);
            mb = (case superseded of None \<Rightarrow> mb | Some old \<Rightarrow> mb_retire old Superseded mb);
            mb = mb\<lparr>mb_current := dict_set (h_learner h) (h_incarnation h) (mb_current mb)\<rparr>;
            mb = mb\<lparr>mb_last_seen := bt_insert h now (mb_last_seen mb)\<rparr>
        in (mb, Joined superseded))"

definition mb_touch :: "holder \<Rightarrow> nat \<Rightarrow> members \<Rightarrow> members \<times> bool" where
  "mb_touch h now mb =
     (if dict_get (mb_last_seen mb) h \<noteq> None
      then (mb\<lparr>mb_last_seen := bt_insert h now (mb_last_seen mb)\<rparr>, True) else (mb, False))"

definition mb_expired :: "nat \<Rightarrow> members \<Rightarrow> holder list" where
  "mb_expired now mb = map fst (filter (\<lambda>(h, seen). now - seen \<ge> mb_lease mb) (mb_last_seen mb))"

definition mb_expire :: "nat \<Rightarrow> members \<Rightarrow> members \<times> holder list" where
  "mb_expire now mb = (fold (\<lambda>h. mb_retire h Expired) (mb_expired now mb) mb, mb_expired now mb)"

definition mb_next_expiry :: "members \<Rightarrow> nat option" where
  "mb_next_expiry mb = (if mb_last_seen mb = [] then None
     else Some (Min ((\<lambda>(h, seen). seen + mb_lease mb) ` set (mb_last_seen mb))))"

definition fence_list :: "members \<Rightarrow> holder list" where
  "fence_list mb =
     (let out = mb_order mb @ filter (\<lambda>h. dict_get (mb_reasons mb) h = None) (map fst (mb_last_seen mb))
      in if length out > retired_limit then drop (length out - retired_limit) out else out)"

section \<open>Runs and the invariant\<close>

text \<open>\<open>join\<close> is called only for a holder that is not retired: its callers check first.\<close>

inductive mbstep :: "members \<Rightarrow> members \<Rightarrow> bool" where
  mb_join_step: "\<not> mb_is_retired mb h \<Longrightarrow> mbstep mb (fst (mb_join h now mb))"
| mb_touch_step: "mbstep mb (fst (mb_touch h now mb))"
| mb_retire_step: "mbstep mb (mb_retire h reason mb)"
| mb_expire_step: "mbstep mb (fst (mb_expire now mb))"

inductive mbrun :: "members \<Rightarrow> bool" where
  mb_new: "mbrun (members_new lease)"
| mb_step: "mbrun mb \<Longrightarrow> mbstep mb mb' \<Longrightarrow> mbrun mb'"

definition mb_inv :: "members \<Rightarrow> bool" where
  "mb_inv mb \<longleftrightarrow> bt_ok (mb_last_seen mb)
     \<and> (\<forall>h. mb_is_live mb h \<longleftrightarrow> dict_get (mb_current mb) (h_learner h) = Some (h_incarnation h))
     \<and> distinct (mb_order mb) \<and> (\<forall>h. h \<in> set (mb_order mb) \<longleftrightarrow> mb_is_retired mb h)
     \<and> length (mb_order mb) \<le> retired_limit
     \<and> (\<forall>h. mb_is_live mb h \<longrightarrow> \<not> mb_is_retired mb h)"

lemma trim_retired_order: "fst (trim_retired n xs m) = drop (length xs - n) xs"
proof (induction xs arbitrary: m)
  case (Cons x xs)
  then show ?case by (cases "length xs - n") (auto simp: Suc_diff_le)
qed simp

lemma trim_retired_get:
  "dict_get (snd (trim_retired n xs m)) k = (if k \<in> set (take (length xs - n) xs) then None else dict_get m k)"
  by (induction xs arbitrary: m) (auto simp: Suc_diff_le)

lemma mb_retire_live: "mb_is_live (mb_retire h r mb) k \<longleftrightarrow> mb_is_live mb k \<and> k \<noteq> h"
  by (auto simp: mb_retire_def mb_is_live_def Let_def split: prod.splits)

lemma mb_retire_current:
  "dict_get (mb_current (mb_retire h r mb)) i =
     (if i = h_learner h \<and> dict_get (mb_current mb) i = Some (h_incarnation h) then None else dict_get (mb_current mb) i)"
  by (auto simp: mb_retire_def Let_def split: prod.splits)

lemma mb_retire_order:
  "mb_order (mb_retire h r mb) =
     (if mb_is_retired mb h then mb_order mb
      else drop (Suc (length (mb_order mb)) - retired_limit) (mb_order mb @ [h]))"
  using trim_retired_order [of retired_limit "mb_order mb @ [h]" "dict_set h r (mb_reasons mb)"]
  by (auto simp: mb_retire_def mb_is_retired_def Let_def split: prod.splits)

lemma mb_retire_reason:
  "dict_get (mb_reasons (mb_retire h r mb)) k =
     (if mb_is_retired mb h then dict_get (mb_reasons mb) k
      else if k \<in> set (take (Suc (length (mb_order mb)) - retired_limit) (mb_order mb @ [h])) then None
      else if k = h then Some r else dict_get (mb_reasons mb) k)"
  using trim_retired_get [of retired_limit "mb_order mb @ [h]" "dict_set h r (mb_reasons mb)" k]
  by (auto simp: mb_retire_def mb_is_retired_def Let_def split: prod.splits)

lemma mb_retire_lease [simp]: "mb_lease (mb_retire h r mb) = mb_lease mb"
  by (auto simp: mb_retire_def Let_def split: prod.splits)

lemma mb_retire_bt [simp]: "bt_ok (mb_last_seen mb) \<Longrightarrow> bt_ok (mb_last_seen (mb_retire h r mb))"
  by (auto simp: mb_retire_def Let_def split: prod.splits)

lemma distinct_take_drop: "distinct xs \<Longrightarrow> set (drop n xs) = set xs - set (take n xs)"
proof -
  assume d: "distinct xs"
  have "set xs = set (take n xs) \<union> set (drop n xs)" by (metis append_take_drop_id set_append)
  moreover have "set (take n xs) \<inter> set (drop n xs) = {}" using d by (rule set_take_disj_set_drop_if_distinct) simp
  ultimately show ?thesis by blast
qed

lemma mb_retire_inv:
  assumes "mb_inv mb" shows "mb_inv (mb_retire h r mb)"
proof -
  let ?n = "Suc (length (mb_order mb)) - retired_limit"
  have d: "distinct (mb_order mb)" and o: "\<And>k. k \<in> set (mb_order mb) \<longleftrightarrow> mb_is_retired mb k"
    and l: "length (mb_order mb) \<le> retired_limit"
    using assms by (auto simp: mb_inv_def)
  have order: "k \<in> set (mb_order (mb_retire h r mb)) \<longleftrightarrow> mb_is_retired (mb_retire h r mb) k" for k
  proof (cases "mb_is_retired mb h")
    case True
    then show ?thesis using o by (simp add: mb_retire_order mb_is_retired_def mb_retire_reason)
  next
    case False
    then have "distinct (mb_order mb @ [h])" using d o by auto
    from distinct_take_drop [OF this, of ?n] False show ?thesis
      using o [of k] by (auto simp: mb_retire_order mb_is_retired_def mb_retire_reason)
  qed
  have dist: "distinct (mb_order (mb_retire h r mb))" and len: "length (mb_order (mb_retire h r mb)) \<le> retired_limit"
    using d o l distinct_drop [of "mb_order mb @ [h]" ?n] by (auto simp: mb_retire_order simp del: drop_append)
  have live: "mb_is_live (mb_retire h r mb) k \<longleftrightarrow>
      dict_get (mb_current (mb_retire h r mb)) (h_learner k) = Some (h_incarnation k)" for k
    using assms by (auto simp: mb_inv_def mb_retire_live mb_retire_current intro: holder.expand)
  have "\<not> mb_is_retired (mb_retire h r mb) k" if "mb_is_live (mb_retire h r mb) k" for k
    using that assms by (auto simp: mb_inv_def mb_retire_live mb_is_retired_def mb_retire_reason)
  then show ?thesis using assms order dist len live by (auto simp: mb_inv_def)
qed

lemma mb_retired_now: "mb_inv mb \<Longrightarrow> mb_is_retired (mb_retire h r mb) h"
  by (auto simp: mb_inv_def mb_is_retired_def mb_retire_reason retired_limit_def dest: in_set_takeD)

lemma mb_touch_inv: "mb_inv mb \<Longrightarrow> mb_inv (fst (mb_touch h now mb))"
  by (auto simp: mb_touch_def mb_inv_def mb_is_live_def mb_is_retired_def)

text \<open>The table after the current incarnation of the joining holder's island was retired.\<close>

definition superseded_by :: "holder \<Rightarrow> members \<Rightarrow> members" where
  "superseded_by h mb = (case current mb (h_learner h) of None \<Rightarrow> mb | Some old \<Rightarrow> mb_retire old Superseded mb)"

lemma mb_join_new:
  "dict_get (mb_last_seen mb) h = None \<Longrightarrow> mb_join h now mb =
     ((superseded_by h mb)\<lparr>mb_current := dict_set (h_learner h) (h_incarnation h) (mb_current (superseded_by h mb)),
        mb_last_seen := bt_insert h now (mb_last_seen (superseded_by h mb))\<rparr>, Joined (current mb (h_learner h)))"
  by (simp add: mb_join_def superseded_by_def Let_def)

lemma superseded_by_inv: "mb_inv mb \<Longrightarrow> mb_inv (superseded_by h mb)"
  by (auto simp: superseded_by_def split: option.split intro: mb_retire_inv)

lemma current_iff: "mb_inv mb \<Longrightarrow> current mb i = Some k \<longleftrightarrow> mb_is_live mb k \<and> h_learner k = i"
  by (cases k) (auto simp: mb_inv_def current_def)

lemma superseded_by_live:
  assumes "mb_inv mb"
  shows "mb_is_live (superseded_by h mb) k \<longleftrightarrow> mb_is_live mb k \<and> h_learner k \<noteq> h_learner h"
  using current_iff [OF assms, of "h_learner h"]
  by (auto simp: superseded_by_def mb_retire_live split: option.split) (metis option.inject)+

lemma superseded_by_retired:
  assumes "\<not> mb_is_retired mb h" "\<not> mb_is_live mb h" "mb_inv mb"
  shows "\<not> mb_is_retired (superseded_by h mb) h"
  using assms current_iff [OF assms(3), of "h_learner h"]
  by (auto simp: superseded_by_def mb_is_retired_def mb_retire_reason split: option.split)

lemma mb_join_inv:
  assumes inv: "mb_inv mb" and r: "\<not> mb_is_retired mb h"
  shows "mb_inv (fst (mb_join h now mb))"
proof (cases "dict_get (mb_last_seen mb) h")
  case None
  let ?m = "superseded_by h mb"
  have get: "mb_is_live (fst (mb_join h now mb)) k \<longleftrightarrow> k = h \<or> mb_is_live ?m k"
    "mb_is_retired (fst (mb_join h now mb)) k = mb_is_retired ?m k" for k
    by (auto simp: mb_join_new [OF None] mb_is_live_def mb_is_retired_def)
  have m: "mb_inv ?m" "\<And>k. h_learner k = h_learner h \<Longrightarrow> \<not> mb_is_live ?m k" "\<not> mb_is_retired ?m h"
    using inv superseded_by_inv superseded_by_live superseded_by_retired [OF r _ inv] None by (auto simp: mb_is_live_def)
  show ?thesis unfolding mb_inv_def get
    using m by (auto simp: mb_inv_def mb_join_new [OF None] intro: holder.expand) metis
next
  case (Some t)
  then show ?thesis using inv by (auto simp: mb_join_def mb_inv_def mb_is_live_def mb_is_retired_def)
qed

lemma mb_expire_inv: "mb_inv mb \<Longrightarrow> mb_inv (fst (mb_expire now mb))"
proof -
  have "mb_inv mb \<Longrightarrow> mb_inv (fold (\<lambda>h. mb_retire h Expired) L mb)" for L
    by (induction L arbitrary: mb) (auto intro: mb_retire_inv)
  then show "mb_inv mb \<Longrightarrow> mb_inv (fst (mb_expire now mb))" by (simp add: mb_expire_def)
qed

lemma mb_new_inv: "mb_inv (members_new lease)"
  by (simp add: mb_inv_def members_new_def mb_is_live_def mb_is_retired_def bt_ok_def)

lemma mbstep_inv: "mbstep mb mb' \<Longrightarrow> mb_inv mb \<Longrightarrow> mb_inv mb'"
  by (induction rule: mbstep.induct) (auto intro: mb_join_inv mb_touch_inv mb_retire_inv mb_expire_inv)

lemma mbrun_inv: "mbrun mb \<Longrightarrow> mb_inv mb"
  by (induction rule: mbrun.induct) (auto intro: mb_new_inv mbstep_inv)

section \<open>Properties of the member table\<close>

text \<open>
  One sampler process has one membership: in every reachable table, an admitted holder that
  joins becomes the only live incarnation of its island and every other island is untouched; the
  incarnation it replaces is retired as superseded, is not live on any channel any more (its
  \<open>touch\<close> is refused and changes nothing), and the joined holder itself is not retired.
\<close>

theorem join_supersedes:
  assumes run: "mbrun mb" and nr: "\<not> mb_is_retired mb h" and nl: "\<not> mb_is_live mb h"
    and j: "mb_join h now mb = (mb', out)"
  shows "out = Joined (current mb (h_learner h))
    \<and> (\<forall>k. mb_is_live mb' k \<longleftrightarrow> k = h \<or> mb_is_live mb k \<and> h_learner k \<noteq> h_learner h)
    \<and> \<not> mb_is_retired mb' h
    \<and> (\<forall>old. mb_is_live mb old \<and> h_learner old = h_learner h \<longrightarrow>
         retired_reason mb' old = Some Superseded \<and> mb_touch old t mb' = (mb', False))"
proof -
  have inv: "mb_inv mb" using mbrun_inv [OF run] .
  have None: "dict_get (mb_last_seen mb) h = None" using nl by (simp add: mb_is_live_def)
  note join = mb_join_new [OF None, of now, unfolded j]
  have live: "mb_is_live mb' k \<longleftrightarrow> k = h \<or> mb_is_live mb k \<and> h_learner k \<noteq> h_learner h" for k
    using join superseded_by_live [OF inv, of h k] by (auto simp: mb_is_live_def)
  have nret: "\<not> mb_is_retired mb' h"
    using join superseded_by_retired [OF nr nl inv] by (simp add: mb_is_retired_def)
  have "retired_reason mb' old = Some Superseded \<and> mb_touch old t mb' = (mb', False)"
    if old: "mb_is_live mb old" "h_learner old = h_learner h" for old
  proof -
    have cur: "current mb (h_learner h) = Some old"
      using old current_iff [OF inv] by blast
    have "old \<notin> set (mb_order mb)" "\<not> mb_is_retired mb old" using old inv by (auto simp: mb_inv_def)
    then have "dict_get (mb_reasons (superseded_by h mb)) old = Some Superseded"
      using inv by (auto simp: superseded_by_def cur mb_retire_reason retired_limit_def mb_inv_def dest: in_set_takeD)
    moreover have "old \<noteq> h" using old nl by auto
    ultimately show ?thesis using live [of old] old join
      by (simp add: retired_reason_def mb_touch_def mb_is_live_def)
  qed
  then show ?thesis using live nret join by blast
qed

theorem join_supersedes_witness:
  "let mb = fst (mb_join (Holder 3 7) 0 (members_new 10)) in
     retired_reason (fst (mb_join (Holder 3 9) 4 mb)) (Holder 3 7) = Some Superseded"
proof -
  let ?mb = "fst (mb_join (Holder 3 7) 0 (members_new 10))"
  have run: "mbrun ?mb"
    by (rule mb_step [OF mb_new mb_join_step]) (simp add: mb_is_retired_def members_new_def)
  have "\<not> mb_is_retired ?mb (Holder 3 9)" "\<not> mb_is_live ?mb (Holder 3 9)" "mb_is_live ?mb (Holder 3 7)"
    by (simp_all add: mb_is_retired_def mb_is_live_def mb_join_def members_new_def current_def)
  then show ?thesis
    using join_supersedes [OF run, of "Holder 3 9" 4 "fst (mb_join (Holder 3 9) 4 ?mb)" "snd (mb_join (Holder 3 9) 4 ?mb)" 5]
    by (simp add: Let_def)
qed

lemma mb_fence_fold:
  assumes "mb_inv mb" "\<forall>k. \<not> mb_is_live mb k" "distinct L" "\<forall>h \<in> set L. \<not> mb_is_retired mb h"
    "length (mb_order mb) + length L \<le> retired_limit"
  shows "mb_order (fold (\<lambda>h. mb_retire h Restart) L mb) = mb_order mb @ L
    \<and> mb_inv (fold (\<lambda>h. mb_retire h Restart) L mb)"
  using assms
proof (induction L arbitrary: mb)
  case (Cons x L)
  have "mb_order (mb_retire x Restart mb) = mb_order mb @ [x]" using Cons.prems by (simp add: mb_retire_order)
  moreover have "\<not> mb_is_retired (mb_retire x Restart mb) h" if "h \<in> set L" for h
    using that Cons.prems by (auto simp: mb_is_retired_def mb_retire_reason)
  moreover have "mb_inv (mb_retire x Restart mb)" using Cons.prems mb_retire_inv by blast
  ultimately show ?case using Cons.IH [of "mb_retire x Restart mb"] Cons.prems by (auto simp: mb_retire_live)
qed simp

text \<open>
  What a restart must fence is fenced: when the fence list of a reachable table is retired
  into a fresh table, every incarnation that was live or retired before is retired afterwards
  (while at most 4096 of them are known) and nobody is live.
\<close>

theorem restart_fences:
  assumes run: "mbrun mb" and n: "length (mb_order mb) + mb_len mb \<le> 4096"
  shows "let mb' = fold (\<lambda>h. mb_retire h Restart) (fence_list mb) (members_new lease) in
    (\<forall>h. mb_is_retired mb' h \<longleftrightarrow> mb_is_live mb h \<or> mb_is_retired mb h) \<and> (\<forall>h. \<not> mb_is_live mb' h)"
proof -
  have inv: "mb_inv mb" using mbrun_inv [OF run] .
  let ?live = "filter (\<lambda>h. dict_get (mb_reasons mb) h = None) (map fst (mb_last_seen mb))"
  let ?mb' = "fold (\<lambda>h. mb_retire h Restart) (fence_list mb) (members_new lease)"
  have "length ?live \<le> mb_len mb" using length_filter_le [of _ "map fst (mb_last_seen mb)"] by (simp add: mb_len_def)
  then have len: "length (mb_order mb @ ?live) \<le> retired_limit" using n by (simp add: retired_limit_def)
  have L: "fence_list mb = mb_order mb @ ?live" using len by (auto simp: fence_list_def Let_def)
  have "distinct (map fst (mb_last_seen mb))" using inv bt_ok_dict by (auto simp: mb_inv_def dict_ok_def)
  then have "distinct (fence_list mb)" using inv unfolding L by (auto simp: mb_inv_def mb_is_retired_def)
  then have fold: "mb_order ?mb' = fence_list mb" "mb_inv ?mb'"
    using mb_fence_fold [of "members_new lease" "fence_list mb"] mb_new_inv [of lease] len L
    by (auto simp: members_new_def mb_is_live_def mb_is_retired_def)
  have "\<not> mb_is_live (fold (\<lambda>h. mb_retire h Restart) M m) h" if "\<not> mb_is_live m h" for M m h
    using that by (induction M arbitrary: m) (auto simp: mb_retire_live)
  then have "\<not> mb_is_live ?mb' h" for h by (simp add: members_new_def mb_is_live_def)
  moreover have "mb_is_retired ?mb' h \<longleftrightarrow> mb_is_live mb h \<or> mb_is_retired mb h" for h
  proof -
    have "mb_is_retired ?mb' h \<longleftrightarrow> h \<in> set (fence_list mb)" using fold by (simp add: mb_inv_def)
    also have "\<dots> \<longleftrightarrow> mb_is_live mb h \<or> mb_is_retired mb h"
      using inv unfolding L by (auto simp: mb_inv_def mb_is_live_def mb_is_retired_def dict_key_image)
    finally show ?thesis .
  qed
  ultimately show ?thesis by (simp add: Let_def)
qed

theorem restart_fences_witness:
  "mb_is_retired (fold (\<lambda>h. mb_retire h Restart) (fence_list (fst (mb_join (Holder 3 7) 0 (members_new 10)))) (members_new 10))
     (Holder 3 7)"
proof -
  let ?mb = "fst (mb_join (Holder 3 7) 0 (members_new 10))"
  have run: "mbrun ?mb"
    by (rule mb_step [OF mb_new mb_join_step]) (simp add: mb_is_retired_def members_new_def)
  have "mb_is_live ?mb (Holder 3 7)" "length (mb_order ?mb) + mb_len ?mb \<le> 4096"
    by (simp_all add: mb_is_live_def mb_join_def members_new_def current_def mb_len_def)
  then show ?thesis using restart_fences [OF run, of 10] by (simp add: Let_def)
qed

end
