(* ===== verification/Dispense.thy ===== *)
theory Dispense
  imports Members Recovery_Wire
begin

text \<open>
  The task dispenser of the RL syncer, \<open>syncer/src/dispense.rs\<close>: which island trains which rows.
  The dispenser gives out positions of the global row sequence in blocks, takes reports on them,
  and puts the unreported positions of a holder that expired or was superseded back to the front
  of the queue.

  Positions, block numbers, sequence numbers and counters are natural numbers (no operation
  brings a \<open>u64\<close> counter near its width, except the sum of the declared rows, which is taken
  modulo \<open>2 ^ 64\<close>); the \<open>i128\<close> arithmetic of the interleave is on \<open>int\<close>.  A \<open>BTreeMap\<close> is an
  association list in key order.  An operation returns the new state with its result, since
  refused requests are logged too.  The event log keeps the events as values; their JSON text is
  not modelled.
\<close>

section \<open>Positions and declarations\<close>

unbundle bit_operations_syntax

definition stream_shift :: nat where "stream_shift = 40"
definition stream_positions :: nat where "stream_positions = 2 ^ stream_shift"
definition max_streams :: nat where "max_streams = 256"
definition max_stream_name :: nat where "max_stream_name = 64"
definition max_stream_weight :: nat where "max_stream_weight = 2 ^ 62"
definition live_limit :: nat where "live_limit = 4096"

definition stream_of :: "nat \<Rightarrow> nat" where
  "stream_of p = drop_bit stream_shift p"

definition local_of :: "nat \<Rightarrow> nat" where
  "local_of p = p AND (stream_positions - 1)"

definition position_of :: "nat \<Rightarrow> nat \<Rightarrow> nat" where
  "position_of s l = push_bit stream_shift s OR l"

record dispense_config =
  dc_lease :: nat
  dc_passes :: "nat option"
  dc_max_redo :: nat
  dc_max_block :: nat

definition dispense_default :: dispense_config where
  "dispense_default = \<lparr>dc_lease = 300 * 10 ^ 9, dc_passes = None, dc_max_redo = 1, dc_max_block = 2 ^ 16\<rparr>"

datatype dc_error = LeaseNotPositive | PassesZero | MaxBlockZero

definition dc_validate :: "dispense_config \<Rightarrow> dc_error + unit" where
  "dc_validate c = (if dc_lease c = 0 then Inl LeaseNotPositive else if dc_passes c = Some 0 then Inl PassesZero
     else if \<not> dc_max_block c \<ge> 1 then Inl MaxBlockZero else Inr ())"

record stream_decl =
  sd_rows :: nat
  sd_weight :: nat
  sd_name :: utext

record data_decl =
  dd_streams :: "stream_decl list"
  dd_fingerprint :: bytes

definition dd_single :: "nat \<Rightarrow> bytes \<Rightarrow> data_decl" where
  "dd_single rows fp = \<lparr>dd_streams = [\<lparr>sd_rows = rows, sd_weight = 1, sd_name = []\<rparr>], dd_fingerprint = fp\<rparr>"

definition total_rows :: "data_decl \<Rightarrow> nat" where
  "total_rows dd = sum_list (map sd_rows (dd_streams dd)) mod 2 ^ 64"

datatype decl_error = StreamCount nat | StreamRows nat nat | StreamWeight nat nat | StreamName nat nat

definition is_control :: "nat \<Rightarrow> bool" where
  "is_control c \<longleftrightarrow> c < 32 \<or> 127 \<le> c \<and> c < 160"

definition stream_validate :: "nat \<times> stream_decl \<Rightarrow> unit \<Rightarrow> decl_error + unit" where
  "stream_validate x _ = (case x of (i, s) \<Rightarrow>
     if sd_rows s = 0 \<or> sd_rows s \<ge> stream_positions then Inl (StreamRows i (sd_rows s))
     else if sd_weight s = 0 \<or> sd_weight s > max_stream_weight then Inl (StreamWeight i (sd_weight s))
     else if length (str_bytes (sd_name s)) > max_stream_name \<or> list_ex is_control (sd_name s)
     then Inl (StreamName i (length (str_bytes (sd_name s)))) else Inr ())"

definition dd_validate :: "data_decl \<Rightarrow> decl_error + unit" where
  "dd_validate dd =
     (if dd_streams dd = [] \<or> length (dd_streams dd) > max_streams then Inl (StreamCount (length (dd_streams dd)))
      else rfold stream_validate (enumerate 0 (dd_streams dd)) ())"

record span =
  sp_start :: nat
  sp_end :: nat
  sp_redo :: nat

definition sp_len :: "span \<Rightarrow> nat" where
  "sp_len sp = sp_end sp - sp_start sp"

datatype report_kind = Trained | Dropped | Requeue | Release

definition report_kind_of :: "nat \<Rightarrow> report_kind option" where
  "report_kind_of v = (if v = 1 then Some Trained else if v = 2 then Some Dropped else if v = 3 then Some Requeue
     else if v = 4 then Some Release else None)"

type_synonym ranges = "(nat \<times> nat) list"

record report_entry =
  re_block :: nat
  re_kind :: report_kind
  re_ranges :: ranges

datatype claim_answer = Grant nat ranges | Wait | End

record report_totals =
  rt_settled :: nat
  rt_requeued :: nat
  rt_exhausted :: nat

datatype open_outcome = OpenJoined "u64 option" nat | OpenReconnected

datatype range_error = EmptyRange nat nat | NotUnreported nat | Diverges

datatype refusal =
  ZeroRows | BadDecl decl_error | AcceptsNone | AcceptsUnknown nat nat | TooManyLive
| OldRequest nat nat | WasReport nat | WasClaim nat | BadWanted nat nat | NotHeld nat holder | BadRange nat range_error

datatype dispense_error = Fenced string | Mismatch u32 data_decl data_decl | Refused refusal

datatype reclaim_reason = ReclaimExpired | ReclaimSuperseded

datatype dispense_event =
  EvOpen holder "u64 option" bool nat "nat list option"
| EvStreams "stream_decl list" bytes
| EvGrant holder nat ranges nat nat
| EvPassStart nat nat
| EvWait holder
| EvEnd holder
| EvReport holder nat report_kind ranges ranges
| EvBlockDone holder nat
| EvReclaim holder reclaim_reason ranges
| EvFenced holder string
| EvRestore nat nat nat
| EvCheckpoint nat nat nat

definition count_ranges :: "ranges \<Rightarrow> nat" where
  "count_ranges rs = sum_list (map (\<lambda>(a, b). b - a) rs)"

section \<open>The state\<close>

record block =
  bl_holder :: holder
  bl_open :: "(nat, nat \<times> nat) dict"

datatype answer = AnsClaim claim_answer | AnsReport report_totals

record live =
  lv_blocks :: "nat list"
  lv_waiting :: bool
  lv_last :: "(nat \<times> answer) option"
  lv_accept :: "nat list"

record totals =
  tt_granted :: nat
  tt_trained :: nat
  tt_dropped :: nat
  tt_requeued :: nat
  tt_exhausted :: nat
  tt_released :: nat
  tt_reclaimed :: nat

record stream_state =
  ss_next :: nat
  ss_queue :: "span list"
  ss_passes :: nat

record dispenser =
  dp_cfg :: dispense_config
  dp_data :: "data_decl option"
  dp_streams :: "stream_state list"
  dp_blocks :: "(nat, block) dict"
  dp_next_block :: nat
  dp_live :: "(holder, live) dict"
  dp_members :: members
  dp_totals :: totals
  dp_events :: "dispense_event list"

definition zero_totals :: totals where
  "zero_totals = \<lparr>tt_granted = 0, tt_trained = 0, tt_dropped = 0, tt_requeued = 0, tt_exhausted = 0, tt_released = 0,
     tt_reclaimed = 0\<rparr>"

definition dispenser_with_members :: "dispense_config \<Rightarrow> members \<Rightarrow> dispenser" where
  "dispenser_with_members cfg mb = \<lparr>dp_cfg = cfg, dp_data = None, dp_streams = [], dp_blocks = [], dp_next_block = 1,
     dp_live = [], dp_members = mb, dp_totals = zero_totals, dp_events = []\<rparr>"

definition dispenser_new :: "dispense_config \<Rightarrow> dispenser" where
  "dispenser_new cfg = dispenser_with_members cfg (members_new (dc_lease cfg))"

definition dp_log :: "dispense_event \<Rightarrow> dispenser \<Rightarrow> dispenser" where
  "dp_log e d = d\<lparr>dp_events := dp_events d @ [e]\<rparr>"

definition next_position :: "dispenser \<Rightarrow> nat" where
  "next_position d = sum_list (map ss_next (dp_streams d))"

definition take_events :: "dispenser \<Rightarrow> dispenser \<times> dispense_event list" where
  "take_events d = (d\<lparr>dp_events := []\<rparr>, dp_events d)"

definition dp_is_live :: "dispenser \<Rightarrow> holder \<Rightarrow> bool" where
  "dp_is_live d h \<longleftrightarrow> dict_get (dp_live d) h \<noteq> None"

definition queued :: "dispenser \<Rightarrow> nat" where
  "queued d = sum_list (map sp_len (concat (map ss_queue (dp_streams d))))"

definition outstanding :: "dispenser \<Rightarrow> nat" where
  "outstanding d = sum_list (concat (map (\<lambda>(_, b). map (\<lambda>(s, e, _). e - s) (bl_open b)) (dp_blocks d)))"

text \<open>
  Reading the rows of a stream panics when the data is not fixed or the stream is not declared;
  both are excluded in every reachable state, where an open holder accepts declared streams only
  (lemma \<open>dp_inv_accept\<close>).
\<close>

definition stream_rows :: "dispenser \<Rightarrow> nat \<Rightarrow> nat" where
  "stream_rows d s = (case dp_data d of None \<Rightarrow> 0 | Some dd \<Rightarrow> sd_rows (dd_streams dd ! s))"

definition stream_limit :: "dispenser \<Rightarrow> nat \<Rightarrow> nat" where
  "stream_limit d s = (case dc_passes (dp_cfg d) of
     Some p \<Rightarrow> min (min (stream_rows d s * p) (2 ^ 64 - 1)) stream_positions | None \<Rightarrow> stream_positions)"

definition stream_exhausted :: "dispenser \<Rightarrow> nat \<Rightarrow> bool" where
  "stream_exhausted d s \<longleftrightarrow> ss_next (dp_streams d ! s) \<ge> stream_limit d s"

definition dp_retire :: "holder \<Rightarrow> retired \<Rightarrow> dispenser \<Rightarrow> dispenser" where
  "dp_retire h r d = d\<lparr>dp_members := mb_retire h r (dp_members d)\<rparr>"

definition push_one :: "span \<Rightarrow> stream_state list \<Rightarrow> stream_state list" where
  "push_one sp ss = (let s = stream_of (sp_start sp) in ss[s := (ss ! s)\<lparr>ss_queue := sp # ss_queue (ss ! s)\<rparr>])"

definition push_front :: "span list \<Rightarrow> dispenser \<Rightarrow> dispenser" where
  "push_front spans d = d\<lparr>dp_streams := foldr push_one (sort_key sp_start spans) (dp_streams d)\<rparr>"

section \<open>Admission and leases\<close>

definition open_spans :: "(nat, nat \<times> nat) dict \<Rightarrow> span list" where
  "open_spans op = map (\<lambda>(s, e, r). \<lparr>sp_start = s, sp_end = e, sp_redo = r\<rparr>) op"

definition span_range :: "span \<Rightarrow> nat \<times> nat" where
  "span_range sp = (sp_start sp, sp_end sp)"

fun remove_blocks :: "nat list \<Rightarrow> (nat, block) dict \<Rightarrow> (nat, block) dict \<times> span list" where
  "remove_blocks [] bs = (bs, [])"
| "remove_blocks (i # ids) bs =
     (case dict_get bs i of None \<Rightarrow> remove_blocks ids bs
      | Some b \<Rightarrow> (case remove_blocks ids (dict_pop i bs) of (bs', spans) \<Rightarrow> (bs', open_spans (bl_open b) @ spans)))"

definition reclaim :: "holder \<Rightarrow> reclaim_reason \<Rightarrow> dispenser \<Rightarrow> dispenser \<times> nat" where
  "reclaim h reason d =
     (case dict_get (dp_live d) h of None \<Rightarrow> (d, 0)
      | Some lv \<Rightarrow>
          let d = d\<lparr>dp_live := dict_pop h (dp_live d)\<rparr>;
              d = dp_retire h (case reason of ReclaimExpired \<Rightarrow> Expired | ReclaimSuperseded \<Rightarrow> Superseded) d;
              (blocks, spans) = remove_blocks (lv_blocks lv) (dp_blocks d);
              positions = sum_list (map sp_len spans);
              d = d\<lparr>dp_blocks := blocks,
                    dp_totals := (dp_totals d)\<lparr>tt_reclaimed := tt_reclaimed (dp_totals d) + positions\<rparr>\<rparr>;
              d = dp_log (EvReclaim h reason (sort_key fst (sort_key snd (map span_range spans)))) d
          in (push_front spans d, positions))"

definition fix_data :: "data_decl \<Rightarrow> dispenser \<Rightarrow> dispenser" where
  "fix_data dd d =
     (let d = d\<lparr>dp_streams := map (\<lambda>_. \<lparr>ss_next = 0, ss_queue = [], ss_passes = 0\<rparr>) (dd_streams dd)\<rparr>;
          d = dp_log (EvStreams (dd_streams dd) (dd_fingerprint dd)) d
      in d\<lparr>dp_data := Some dd\<rparr>)"

definition accept_list :: "nat \<Rightarrow> nat list option \<Rightarrow> refusal + nat list" where
  "accept_list streams accept =
     (case accept of None \<Rightarrow> Inr [0..<streams]
      | Some ids \<Rightarrow>
          let l = remdups_adj (sort ids) in
          if l = [] then Inl AcceptsNone
          else case find (\<lambda>s. s \<ge> streams) l of Some bad \<Rightarrow> Inl (AcceptsUnknown bad streams) | None \<Rightarrow> Inr l)"

definition supersede :: "holder \<Rightarrow> dispenser \<times> u64 option \<times> nat \<Rightarrow> dispenser \<times> u64 option \<times> nat" where
  "supersede old x = (case x of (d, previous, reclaimed) \<Rightarrow>
     case reclaim old ReclaimSuperseded d of (d, n) \<Rightarrow> (d, Some (h_incarnation old), reclaimed + n))"

definition admit_holder ::
  "holder \<Rightarrow> data_decl \<Rightarrow> nat list \<Rightarrow> nat \<Rightarrow> dispenser \<Rightarrow> dispenser \<times> (dispense_error + open_outcome)" where
  "admit_holder h dd acc now d =
     (let logged = (if length acc < length (dp_streams d) then Some acc else None) in
      case dict_get (dp_live d) h of
        Some lv \<Rightarrow>
          let d = d\<lparr>dp_members := fst (mb_touch h now (dp_members d)),
                    dp_live := bt_insert h (lv\<lparr>lv_accept := acc\<rparr>) (dp_live d)\<rparr>
          in (dp_log (EvOpen h None True (total_rows dd) logged) d, Inr OpenReconnected)
      | None \<Rightarrow>
          if length (dp_live d) \<ge> live_limit then (d, Inl (Refused TooManyLive))
          else
            let d = d\<lparr>dp_members := fst (mb_join h now (dp_members d))\<rparr>;
                older = filter (\<lambda>k. h_learner k = h_learner h \<and> k \<noteq> h) (map fst (dp_live d));
                (d, previous, reclaimed) = fold supersede older (d, None, 0);
                d = d\<lparr>dp_live := bt_insert h \<lparr>lv_blocks = [], lv_waiting = False, lv_last = None, lv_accept = acc\<rparr>
                        (dp_live d)\<rparr>
            in (dp_log (EvOpen h previous False (total_rows dd) logged) d, Inr (OpenJoined previous reclaimed)))"

definition open_with ::
  "holder \<Rightarrow> data_decl \<Rightarrow> nat list option \<Rightarrow> nat \<Rightarrow> dispenser \<Rightarrow> dispenser \<times> (dispense_error + open_outcome)" where
  "open_with h dd accept now d =
     (if mb_is_retired (dp_members d) h
      then (dp_log (EvFenced h ''open'') d, Inl (Fenced (fenced_text (dp_members d) h)))
      else if total_rows dd = 0 then (d, Inl (Refused ZeroRows))
      else case dd_validate dd of Inl e \<Rightarrow> (d, Inl (Refused (BadDecl e)))
      | Inr _ \<Rightarrow>
        (case dp_data d of
           Some run \<Rightarrow> if run \<noteq> dd then (d, Inl (Mismatch (h_learner h) dd run))
             else (case accept_list (length (dp_streams d)) accept of
                     Inl r \<Rightarrow> (d, Inl (Refused r)) | Inr acc \<Rightarrow> admit_holder h dd acc now d)
         | None \<Rightarrow>
             let d = fix_data dd d in
             case accept_list (length (dp_streams d)) accept of
               Inl r \<Rightarrow> (d, Inl (Refused r)) | Inr acc \<Rightarrow> admit_holder h dd acc now d))"

definition no_lease_text :: "holder \<Rightarrow> string" where
  "no_lease_text h = ''incarnation '' @ hex16 (h_incarnation h) @ '' of island '' @ show_nat (unat (h_learner h))
     @ '' holds no lease''"

definition require_live :: "holder \<Rightarrow> string \<Rightarrow> nat \<Rightarrow> dispenser \<Rightarrow> dispenser \<times> (dispense_error + unit)" where
  "require_live h request now d =
     (if dict_get (dp_live d) h \<noteq> None \<and> snd (mb_touch h now (dp_members d))
      then (d\<lparr>dp_members := fst (mb_touch h now (dp_members d))\<rparr>, Inr ())
      else (dp_log (EvFenced h request) d,
            Inl (Fenced (if mb_is_retired (dp_members d) h then fenced_text (dp_members d) h else no_lease_text h))))"

definition dp_heartbeat :: "holder \<Rightarrow> nat \<Rightarrow> dispenser \<Rightarrow> dispenser \<times> (dispense_error + unit)" where
  "dp_heartbeat h now d = require_live h ''heartbeat'' now d"

definition dp_replay :: "holder \<Rightarrow> nat \<Rightarrow> dispenser \<Rightarrow> dispense_error + answer option" where
  "dp_replay h seq d =
     (case dict_get (dp_live d) h of None \<Rightarrow> Inr None
      | Some lv \<Rightarrow> (case lv_last lv of None \<Rightarrow> Inr None
          | Some (l, ans) \<Rightarrow> if l = seq then Inr (Some ans)
              else if l > seq then Inl (Refused (OldRequest seq l)) else Inr None))"

definition update_holder :: "holder \<Rightarrow> (live \<Rightarrow> live) \<Rightarrow> dispenser \<Rightarrow> dispenser" where
  "update_holder h f d =
     (case dict_get (dp_live d) h of None \<Rightarrow> d | Some lv \<Rightarrow> d\<lparr>dp_live := bt_insert h (f lv) (dp_live d)\<rparr>)"

definition remember :: "holder \<Rightarrow> nat \<Rightarrow> answer \<Rightarrow> dispenser \<Rightarrow> dispenser" where
  "remember h seq ans d = update_holder h (\<lambda>lv. lv\<lparr>lv_last := Some (seq, ans)\<rparr>) d"

definition dp_expire :: "nat \<Rightarrow> dispenser \<Rightarrow> dispenser \<times> holder list" where
  "dp_expire now d =
     (let mb = fst (mb_expire now (dp_members d));
          d = d\<lparr>dp_members := mb\<rparr>;
          retired = filter (mb_is_retired mb) (map fst (dp_live d))
      in fold (\<lambda>(h, reason) (d, gone).
           case reason of Some Superseded \<Rightarrow> (fst (reclaim h ReclaimSuperseded d), gone)
           | _ \<Rightarrow> (fst (reclaim h ReclaimExpired d), gone @ [h]))
         (map (\<lambda>h. (h, retired_reason mb h)) retired) (d, []))"

section \<open>Claims\<close>

text \<open>
  One pass over the open streams finds the stream with the earliest deadline among those that are
  due, and the one furthest behind.
\<close>

fun scan_streams ::
  "int list \<Rightarrow> int \<Rightarrow> int \<Rightarrow> nat list \<Rightarrow> nat list \<Rightarrow> int \<Rightarrow> nat list
   \<Rightarrow> (nat \<times> int) option \<Rightarrow> (nat \<times> int) option \<Rightarrow> (nat \<times> int) option \<times> (nat \<times> int) option" where
  "scan_streams weights sumw m limits counts n [] due behind = (due, behind)"
| "scan_streams weights sumw m limits counts n (s # open) due behind =
     (if counts ! s \<ge> limits ! s then scan_streams weights sumw m limits counts n open due behind
      else
        let c = int (counts ! s);
            deficit = weights ! s * n - c * sumw;
            a = m * (c + 1) - 1;
            due = (if m * deficit \<ge> sumw
                   then (case due of None \<Rightarrow> Some (s, a)
                         | Some (b, bn) \<Rightarrow> if a * weights ! b < bn * weights ! s then Some (s, a) else due)
                   else due);
            behind = (case behind of None \<Rightarrow> Some (s, deficit)
                      | Some (_, x) \<Rightarrow> if deficit > x then Some (s, deficit) else behind)
        in scan_streams weights sumw m limits counts n open due behind)"

definition pick_one :: "int list \<Rightarrow> int \<Rightarrow> int \<Rightarrow> nat list \<Rightarrow> nat list \<Rightarrow> int \<Rightarrow> nat list \<Rightarrow> nat option" where
  "pick_one weights sumw m limits counts n open =
     (case scan_streams weights sumw m limits counts n open None None of
        (Some (s, _), _) \<Rightarrow> Some s | (None, Some (s, _)) \<Rightarrow> Some s | (None, None) \<Rightarrow> None)"

fun pick_loop ::
  "int list \<Rightarrow> int \<Rightarrow> int \<Rightarrow> nat list \<Rightarrow> nat list \<Rightarrow> nat \<Rightarrow> nat list \<Rightarrow> int \<Rightarrow> nat list \<Rightarrow> nat list" where
  "pick_loop weights sumw m limits open 0 counts given taken = taken"
| "pick_loop weights sumw m limits open (Suc need) counts given taken =
     (case pick_one weights sumw m limits counts (given + 1) open of
        None \<Rightarrow> taken
      | Some s \<Rightarrow> pick_loop weights sumw m limits open need (counts[s := counts ! s + 1]) (given + 1)
                    (taken[s := taken ! s + 1]))"

definition stream_weights :: "dispenser \<Rightarrow> int list" where
  "stream_weights d = (case dp_data d of None \<Rightarrow> [] | Some dd \<Rightarrow> map (\<lambda>s. int (sd_weight s)) (dd_streams dd))"

definition pick_fresh :: "nat list \<Rightarrow> nat \<Rightarrow> dispenser \<Rightarrow> (nat \<times> nat) list" where
  "pick_fresh accept need d =
     (let open = filter (\<lambda>s. \<not> stream_exhausted d s) accept in
      if open = [] \<or> need = 0 then []
      else if length (dp_streams d) = 1
      then let s = open ! 0 in [(s, min need (stream_limit d s - ss_next (dp_streams d ! s)))]
      else
        let weights = stream_weights d;
            sumw = sum_list weights;
            m = 2 * (int (length (dp_streams d)) - 1);
            limits = map (stream_limit d) [0..<length (dp_streams d)];
            counts = map ss_next (dp_streams d);
            given = sum_list (map int counts);
            taken = pick_loop weights sumw m limits open need counts given (replicate (length (dp_streams d)) 0)
        in filter (\<lambda>(_, n). n > 0) (enumerate 0 taken))"

fun take_queue :: "nat \<Rightarrow> span list \<Rightarrow> nat \<times> span list \<times> span list" where
  "take_queue need [] = (need, [], [])"
| "take_queue need (f # q) =
     (if need = 0 then (need, [], f # q)
      else if sp_len f \<le> need
      then (case take_queue (need - sp_len f) q of (n, taken, q') \<Rightarrow> (n, f # taken, q'))
      else (0, [f\<lparr>sp_end := sp_start f + need\<rparr>], f\<lparr>sp_start := sp_start f + need\<rparr> # q))"

fun take_queues :: "nat list \<Rightarrow> nat \<Rightarrow> stream_state list \<Rightarrow> nat \<times> span list \<times> stream_state list" where
  "take_queues [] need ss = (need, [], ss)"
| "take_queues (s # accept) need ss =
     (case take_queue need (ss_queue (ss ! s)) of (n, taken, q) \<Rightarrow>
        let ss = ss[s := (ss ! s)\<lparr>ss_queue := q\<rparr>] in
        if n = 0 then (n, taken, ss)
        else (case take_queues accept n ss of (n', taken', ss') \<Rightarrow> (n', taken @ taken', ss')))"

definition start_pass :: "nat \<Rightarrow> nat \<Rightarrow> dispenser \<Rightarrow> dispenser" where
  "start_pass s pass d =
     (if pass \<ge> ss_passes (dp_streams d ! s)
      then dp_log (EvPassStart s pass)
        (d\<lparr>dp_streams := (dp_streams d)[s := (dp_streams d ! s)\<lparr>ss_passes := pass + 1\<rparr>]\<rparr>)
      else d)"

definition give_fresh :: "nat \<times> nat \<Rightarrow> dispenser \<times> span list \<Rightarrow> dispenser \<times> span list" where
  "give_fresh x y = (case (x, y) of ((s, n), (d, spans)) \<Rightarrow>
     let rows = stream_rows d s;
         start = ss_next (dp_streams d ! s);
         end1 = start + n;
         d = fold (start_pass s) [start div rows..<(end1 - 1) div rows + 1] d;
         d = d\<lparr>dp_streams := (dp_streams d)[s := (dp_streams d ! s)\<lparr>ss_next := end1\<rparr>]\<rparr>
     in (d, spans @ [\<lparr>sp_start = position_of s start, sp_end = position_of s end1, sp_redo = 0\<rparr>]))"

definition holds_any :: "nat list \<Rightarrow> dispenser \<Rightarrow> bool" where
  "holds_any streams d \<longleftrightarrow>
     list_ex (\<lambda>(_, b). list_ex (\<lambda>(start, _). stream_of start \<in> set streams) (bl_open b)) (dp_blocks d)"

definition pass_of :: "dispenser \<Rightarrow> nat \<Rightarrow> nat" where
  "pass_of d p = local_of p div stream_rows d (stream_of p)"

definition open_of :: "span list \<Rightarrow> (nat, nat \<times> nat) dict" where
  "open_of spans = fold (\<lambda>sp. bt_insert (sp_start sp) (sp_end sp, sp_redo sp)) spans []"

definition grant_block :: "holder \<Rightarrow> span list \<Rightarrow> dispenser \<Rightarrow> dispenser \<times> claim_answer" where
  "grant_block h spans d =
     (let i = dp_next_block d;
          rs = map span_range spans;
          first_pass = Min (set (map (\<lambda>(a, b). pass_of d a) rs));
          last_pass = Max (set (map (\<lambda>(a, b). pass_of d (b - 1)) rs));
          d = d\<lparr>dp_next_block := i + 1\<rparr>;
          d = update_holder h (\<lambda>lv. lv\<lparr>lv_waiting := False, lv_blocks := insort_insert i (lv_blocks lv)\<rparr>) d;
          d = d\<lparr>dp_totals := (dp_totals d)\<lparr>tt_granted := tt_granted (dp_totals d) + count_ranges rs\<rparr>,
                dp_blocks := bt_insert i \<lparr>bl_holder = h, bl_open = open_of spans\<rparr> (dp_blocks d)\<rparr>
      in (dp_log (EvGrant h i rs first_pass last_pass) d, Grant i rs))"

definition nothing_to_give :: "holder \<Rightarrow> nat list \<Rightarrow> dispenser \<Rightarrow> dispenser \<times> claim_answer" where
  "nothing_to_give h accept d =
     (if list_all (stream_exhausted d) accept \<and> \<not> holds_any accept d
      then (dp_log (EvEnd h) d, End)
      else (case dict_get (dp_live d) h of
              Some lv \<Rightarrow> (if \<not> lv_waiting lv
                then dp_log (EvWait h) (update_holder h (\<lambda>lv. lv\<lparr>lv_waiting := True\<rparr>) d) else d, Wait)
            | None \<Rightarrow> (d, Wait)))"

definition claim_new :: "holder \<Rightarrow> nat \<Rightarrow> dispenser \<Rightarrow> dispenser \<times> (dispense_error + claim_answer)" where
  "claim_new h wanted d =
     (if wanted = 0 \<or> wanted > dc_max_block (dp_cfg d)
      then (d, Inl (Refused (BadWanted wanted (dc_max_block (dp_cfg d)))))
      else
        let accept = (case dict_get (dp_live d) h of Some lv \<Rightarrow> lv_accept lv | None \<Rightarrow> []);
            (need, returned, ss) = take_queues accept wanted (dp_streams d);
            d = d\<lparr>dp_streams := ss\<rparr>;
            (d, spans) = fold give_fresh (pick_fresh accept need d) (d, returned);
            (d, c) = (if spans = [] then nothing_to_give h accept d else grant_block h spans d)
        in (d, Inr c))"

definition dp_claim :: "holder \<Rightarrow> nat \<Rightarrow> nat \<Rightarrow> nat \<Rightarrow> dispenser \<Rightarrow> dispenser \<times> (dispense_error + claim_answer)" where
  "dp_claim h seq wanted now d =
     (case require_live h ''claim'' now d of
        (d, Inl e) \<Rightarrow> (d, Inl e)
      | (d, Inr _) \<Rightarrow>
        (case dp_replay h seq d of
           Inl e \<Rightarrow> (d, Inl e)
         | Inr (Some (AnsClaim c)) \<Rightarrow> (d, Inr c)
         | Inr (Some (AnsReport _)) \<Rightarrow> (d, Inl (Refused (WasReport seq)))
         | Inr None \<Rightarrow>
           (case claim_new h wanted d of
              (d, Inl e) \<Rightarrow> (d, Inl e)
            | (d, Inr c) \<Rightarrow> (remember h seq (AnsClaim c) d, Inr c))))"

section \<open>Reports\<close>

text \<open>
  The unreported spans that follow \<open>cursor\<close> without a gap up to \<open>end1\<close>.  The loop of the code
  does not end on an empty span; that is the value \<open>Diverges\<close> here, and blocks hold no empty spans.
\<close>

function pieces_from :: "(nat, nat \<times> nat) dict \<Rightarrow> nat \<Rightarrow> nat \<Rightarrow> range_error + (nat \<times> nat \<times> nat) list" where
  "pieces_from op end1 cursor =
     (if cursor \<ge> end1 then Inr []
      else case dict_get op cursor of
        None \<Rightarrow> Inl (NotUnreported cursor)
      | Some (e, r) \<Rightarrow> if e \<le> cursor then Inl Diverges
          else rbind (pieces_from op end1 e) (\<lambda>ps. Inr ((cursor, e, r) # ps)))"
  by pat_completeness auto
termination by (relation "measure (\<lambda>(_, end1, cursor). end1 - cursor)") auto

declare pieces_from.simps [simp del]

definition last_at :: "nat \<Rightarrow> (nat, nat \<times> nat) dict \<Rightarrow> (nat \<times> nat \<times> nat) option" where
  "last_at start op = (case filter (\<lambda>(s, _). s \<le> start) op of [] \<Rightarrow> None | xs \<Rightarrow> Some (last xs))"

definition take_piece ::
  "nat \<Rightarrow> nat \<Rightarrow> nat \<times> nat \<times> nat \<Rightarrow> (nat, nat \<times> nat) dict \<times> span list \<Rightarrow> (nat, nat \<times> nat) dict \<times> span list" where
  "take_piece start end1 x y = (case (x, y) of ((s, e, r), (op, taken)) \<Rightarrow>
     let op = dict_pop s op;
         op = (if s < start then bt_insert s (start, r) op else op);
         op = (if e > end1 then bt_insert end1 (e, r) op else op)
     in (op, taken @ [\<lparr>sp_start = max s start, sp_end = min e end1, sp_redo = r\<rparr>]))"

definition take_range ::
  "nat \<times> nat \<Rightarrow> (nat, nat \<times> nat) dict \<Rightarrow> range_error + (nat, nat \<times> nat) dict \<times> span list" where
  "take_range rg op = (case rg of (start, end1) \<Rightarrow>
     if start \<ge> end1 then Inl (EmptyRange start end1)
     else case last_at start op of
       None \<Rightarrow> Inl (NotUnreported start)
     | Some (s, e, r) \<Rightarrow>
         if \<not> e > start then Inl (NotUnreported start)
         else rbind (pieces_from op end1 e) (\<lambda>ps.
           Inr (fold (take_piece start end1) ((s, e, r) # ps) (op, []))))"

fun take_ranges ::
  "ranges \<Rightarrow> (nat, nat \<times> nat) dict \<Rightarrow> range_error + (nat, nat \<times> nat) dict \<times> span list" where
  "take_ranges [] op = Inr (op, [])"
| "take_ranges (rg # rs) op =
     rbind (take_range rg op) (\<lambda>(op, spans).
     rbind (take_ranges rs op) (\<lambda>(op, spans'). Inr (op, spans @ spans')))"

definition staged_block :: "holder \<Rightarrow> dispenser \<Rightarrow> (nat, block) dict \<Rightarrow> nat \<Rightarrow> block option" where
  "staged_block h d staged i =
     (case dict_get staged i of Some b \<Rightarrow> Some b
      | None \<Rightarrow> (case dict_get (dp_blocks d) i of None \<Rightarrow> None
                | Some b \<Rightarrow> if bl_holder b = h then Some b else None))"

fun stage_entries ::
  "holder \<Rightarrow> dispenser \<Rightarrow> report_entry list \<Rightarrow> (nat, block) dict
   \<Rightarrow> dispense_error + (nat, block) dict \<times> (report_entry \<times> span list) list" where
  "stage_entries h d [] staged = Inr (staged, [])"
| "stage_entries h d (e # es) staged =
     (case staged_block h d staged (re_block e) of
        None \<Rightarrow> Inl (Refused (NotHeld (re_block e) h))
      | Some b \<Rightarrow>
          (case take_ranges (re_ranges e) (bl_open b) of
             Inl m \<Rightarrow> Inl (Refused (BadRange (re_block e) m))
           | Inr (op, spans) \<Rightarrow>
               rbind (stage_entries h d es (bt_insert (re_block e) (b\<lparr>bl_open := op\<rparr>) staged))
                 (\<lambda>(staged, removed). Inr (staged, (e, spans) # removed))))"

type_synonym settling = "dispenser \<times> report_totals \<times> span list"

definition requeue_span :: "span \<Rightarrow> settling \<times> ranges \<Rightarrow> settling \<times> ranges" where
  "requeue_span sp x = (case x of ((d, t, front), exhausted) \<Rightarrow>
     if sp_redo sp < dc_max_redo (dp_cfg d)
     then ((d\<lparr>dp_totals := (dp_totals d)\<lparr>tt_requeued := tt_requeued (dp_totals d) + sp_len sp\<rparr>\<rparr>,
            t\<lparr>rt_requeued := rt_requeued t + sp_len sp\<rparr>, front @ [sp\<lparr>sp_redo := sp_redo sp + 1\<rparr>]), exhausted)
     else ((d\<lparr>dp_totals := (dp_totals d)\<lparr>tt_exhausted := tt_exhausted (dp_totals d) + sp_len sp\<rparr>\<rparr>,
            t\<lparr>rt_exhausted := rt_exhausted t + sp_len sp\<rparr>, front), exhausted @ [span_range sp]))"

definition settle_kind :: "report_kind \<Rightarrow> nat \<Rightarrow> span list \<Rightarrow> settling \<Rightarrow> settling \<times> ranges" where
  "settle_kind k positions spans x = (case x of (d, t, front) \<Rightarrow>
     let tt = dp_totals d in
     case k of
       Trained \<Rightarrow> ((d\<lparr>dp_totals := tt\<lparr>tt_trained := tt_trained tt + positions\<rparr>\<rparr>, t, front), [])
     | Dropped \<Rightarrow> ((d\<lparr>dp_totals := tt\<lparr>tt_dropped := tt_dropped tt + positions\<rparr>\<rparr>, t, front), [])
     | Release \<Rightarrow> ((d\<lparr>dp_totals := tt\<lparr>tt_released := tt_released tt + positions\<rparr>\<rparr>, t, front @ spans), [])
     | Requeue \<Rightarrow> fold requeue_span spans ((d, t, front), []))"

definition settle_entry :: "holder \<Rightarrow> report_entry \<times> span list \<Rightarrow> settling \<Rightarrow> settling" where
  "settle_entry h x y = (case (x, y) of ((e, spans), (d, t, front)) \<Rightarrow>
     let positions = sum_list (map sp_len spans);
         ((d, t, front), exhausted) =
           settle_kind (re_kind e) positions spans (d, t\<lparr>rt_settled := rt_settled t + positions\<rparr>, front)
     in (dp_log (EvReport h (re_block e) (re_kind e) (re_ranges e) exhausted) d, t, front))"

definition commit_block :: "holder \<Rightarrow> nat \<times> block \<Rightarrow> dispenser \<Rightarrow> dispenser" where
  "commit_block h x d = (case x of (i, b) \<Rightarrow>
     if bl_open b = []
     then dp_log (EvBlockDone h i)
       (update_holder h (\<lambda>lv. lv\<lparr>lv_blocks := removeAll i (lv_blocks lv)\<rparr>) (d\<lparr>dp_blocks := dict_pop i (dp_blocks d)\<rparr>))
     else d\<lparr>dp_blocks := bt_insert i b (dp_blocks d)\<rparr>)"

definition report_new :: "holder \<Rightarrow> report_entry list \<Rightarrow> dispenser \<Rightarrow> dispenser \<times> (dispense_error + report_totals)" where
  "report_new h entries d =
     (case stage_entries h d entries [] of
        Inl e \<Rightarrow> (d, Inl e)
      | Inr (staged, removed) \<Rightarrow>
          let (d, t, front) = fold (settle_entry h) removed (d, \<lparr>rt_settled = 0, rt_requeued = 0, rt_exhausted = 0\<rparr>, []);
              d = fold (commit_block h) staged d
          in (push_front front d, Inr t))"

definition dp_report ::
  "holder \<Rightarrow> nat \<Rightarrow> report_entry list \<Rightarrow> nat \<Rightarrow> dispenser \<Rightarrow> dispenser \<times> (dispense_error + report_totals)" where
  "dp_report h seq entries now d =
     (case require_live h ''report'' now d of
        (d, Inl e) \<Rightarrow> (d, Inl e)
      | (d, Inr _) \<Rightarrow>
        (case dp_replay h seq d of
           Inl e \<Rightarrow> (d, Inl e)
         | Inr (Some (AnsReport t)) \<Rightarrow> (d, Inr t)
         | Inr (Some (AnsClaim _)) \<Rightarrow> (d, Inl (Refused (WasClaim seq)))
         | Inr None \<Rightarrow>
           (case report_new h entries d of
              (d, Inl e) \<Rightarrow> (d, Inl e)
            | (d, Inr t) \<Rightarrow> (remember h seq (AnsReport t) d, Inr t))))"

end
