(* ===== verification/Dispense_Positions.thy ===== *)
theory Dispense_Positions
  imports Dispense
begin

text \<open>
  Conservation of positions in the task dispenser.  The positions of a state are a multiset: every
  operation moves positions between the queues, the blocks of live holders and the reports, and
  only fresh positions are added.  From this follow the promises of the dispenser: a position is
  held at most once, it is reported trained at most once, and none is lost.
\<close>

section \<open>Sums over maps and lists\<close>

lemma sum_list_pop:
  fixes f :: "'k \<times> 'v \<Rightarrow> 'b::comm_monoid_add"
  shows "dict_ok d \<Longrightarrow> dict_get d k = Some v \<Longrightarrow> f (k, v) + sum_list (map f (dict_pop k d)) = sum_list (map f d)"
proof (induction d)
  case (Cons x d)
  obtain k' v' where x: "x = (k', v')" by (cases x)
  show ?case
  proof (cases "k' = k")
    case True
    then have "dict_get d k = None" using Cons.prems(1) x by (auto simp: dict_ok_def map_of_eq_None_iff)
    then have "dict_pop k d = d" by (simp add: delete_idem map_of_eq_None_iff)
    then show ?thesis using True Cons.prems x by simp
  next
    case False
    then have "f (k, v) + sum_list (map f (dict_pop k d)) = sum_list (map f d)"
      using Cons x by (simp add: dict_ok_def)
    then show ?thesis using False x by (simp add: add.left_commute [of _ "f (k', v')"])
  qed
qed simp

lemma sum_list_bt_new:
  fixes f :: "'k::linorder \<times> 'v \<Rightarrow> 'b::comm_monoid_add"
  shows "dict_get d k = None \<Longrightarrow> sum_list (map f (bt_insert k v d)) = f (k, v) + sum_list (map f d)"
  by (induction d) (auto simp: add.left_commute split: if_splits)

lemma sum_list_bt_old:
  fixes f :: "'k::linorder \<times> 'v \<Rightarrow> 'b::comm_monoid_add"
  shows "bt_ok d \<Longrightarrow> dict_get d k = Some v0 \<Longrightarrow>
    f (k, v0) + sum_list (map f (bt_insert k v d)) = f (k, v) + sum_list (map f d)"
proof (induction d)
  case (Cons x d)
  obtain k' v' where x: "x = (k', v')" by (cases x)
  show ?case
  proof (cases "k' = k")
    case False
    then have g: "dict_get d k = Some v0" using Cons.prems x by simp
    then have "k \<in> fst ` set d" by (force dest: map_of_SomeD)
    then have "k' < k" using Cons.prems(1) x by (auto simp: bt_ok_def)
    moreover have "f (k, v0) + sum_list (map f (bt_insert k v d)) = f (k, v) + sum_list (map f d)"
      using Cons g x by (simp add: bt_ok_def)
    ultimately show ?thesis using x False by (auto simp: add.left_commute [of _ "f (k', v')"])
  qed (use Cons.prems x in \<open>simp add: add.left_commute\<close>)
qed simp

lemma sum_list_update1:
  fixes f :: "'a \<Rightarrow> 'b::comm_monoid_add"
  shows "i < length xs \<Longrightarrow> f (xs ! i) + sum_list (map f (xs[i := y])) = f y + sum_list (map f xs)"
proof (induction xs arbitrary: i)
  case (Cons x xs)
  then show ?case by (cases i) (auto simp: add.left_commute)
qed simp

lemma sum_list_items: "(\<And>x. x \<in> set d \<Longrightarrow> f x = (g x :: 'b::comm_monoid_add)) \<Longrightarrow> sum_list (map f d) = sum_list (map g d)"
  by (rule arg_cong [of _ _ sum_list], rule map_cong) auto

section \<open>Positions of spans and ranges\<close>

declare mset_upt [simp del]

definition once :: "'a multiset \<Rightarrow> bool" where
  "once M \<longleftrightarrow> (\<forall>p. count M p \<le> 1)"

definition range_pos :: "nat \<times> nat \<Rightarrow> nat multiset" where
  "range_pos rg = mset [fst rg..<snd rg]"

definition ranges_pos :: "ranges \<Rightarrow> nat multiset" where
  "ranges_pos rs = sum_list (map range_pos rs)"

definition sp_pos :: "span \<Rightarrow> nat multiset" where
  "sp_pos sp = range_pos (span_range sp)"

definition spans_pos :: "span list \<Rightarrow> nat multiset" where
  "spans_pos L = sum_list (map sp_pos L)"

definition open_pos :: "(nat, nat \<times> nat) dict \<Rightarrow> nat multiset" where
  "open_pos op = sum_list (map (\<lambda>(s, e, r). mset [s..<e]) op)"

definition open_ok :: "(nat, nat \<times> nat) dict \<Rightarrow> bool" where
  "open_ok op \<longleftrightarrow> bt_ok op \<and> (\<forall>s e r. dict_get op s = Some (e, r) \<longrightarrow> s < e)"

definition spans_ok :: "span list \<Rightarrow> bool" where
  "spans_ok L \<longleftrightarrow> (\<forall>sp \<in> set L. sp_start sp < sp_end sp)"

lemma once_add: "once (A + B) \<Longrightarrow> once A \<and> once B"
  unfolding once_def by (metis add_leE count_union)

lemma once_disjoint: "once (A + B) \<Longrightarrow> p \<in># A \<Longrightarrow> p \<notin># B"
proof
  assume "once (A + B)" "p \<in># A" "p \<in># B"
  then have "count A p + count B p \<le> 1" "1 \<le> count A p" "1 \<le> count B p"
    by (auto simp: once_def Suc_le_eq)
  then show False by linarith
qed

lemma mset_upt_split: "a \<le> b \<Longrightarrow> b \<le> c \<Longrightarrow> mset [a..<c] = mset [a..<b] + mset [b..<c]"
  by (metis le_Suc_ex mset_append upt_add_eq_append)

lemma spans_pos_simps [simp]:
  "spans_pos [] = {#}" "spans_pos (sp # L) = sp_pos sp + spans_pos L" "spans_pos (L @ M) = spans_pos L + spans_pos M"
  by (simp_all add: spans_pos_def)

lemma spans_ok_simps [simp]:
  "spans_ok []" "spans_ok (sp # L) \<longleftrightarrow> sp_start sp < sp_end sp \<and> spans_ok L" "spans_ok (L @ M) \<longleftrightarrow> spans_ok L \<and> spans_ok M"
  by (auto simp: spans_ok_def)

lemma ranges_pos_simps [simp]:
  "ranges_pos [] = {#}" "ranges_pos (r # L) = range_pos r + ranges_pos L" "ranges_pos (L @ M) = ranges_pos L + ranges_pos M"
  by (simp_all add: ranges_pos_def)

lemma spans_pos_ranges: "spans_pos L = ranges_pos (map span_range L)"
  by (induction L) (simp_all add: sp_pos_def)

lemma open_spans_pos [simp]: "spans_pos (open_spans op) = open_pos op"
  by (induction op) (auto simp: open_spans_def open_pos_def sp_pos_def range_pos_def span_range_def)

lemma open_pos_pop:
  "bt_ok op \<Longrightarrow> dict_get op s = Some (e, r) \<Longrightarrow> open_pos op = mset [s..<e] + open_pos (dict_pop s op)"
  unfolding open_pos_def using sum_list_pop [of op s "(e, r)" "\<lambda>(s, e, r). mset [s..<e]"] bt_ok_dict by fastforce

lemma open_pos_insert:
  "dict_get op s = None \<Longrightarrow> open_pos (bt_insert s (e, r) op) = mset [s..<e] + open_pos op"
  unfolding open_pos_def using sum_list_bt_new [of op s "\<lambda>(s, e, r). mset [s..<e]" "(e, r)"] by simp

lemma open_pos_start: "open_ok op \<Longrightarrow> dict_get op s = Some (e, r) \<Longrightarrow> s \<in># open_pos op"
  using open_pos_pop [of op s e r] by (auto simp: open_ok_def)

lemma open_ok_pop [simp]: "open_ok op \<Longrightarrow> open_ok (dict_pop s op)"
  by (simp add: open_ok_def)

lemma open_ok_insert: "open_ok op \<Longrightarrow> s < e \<Longrightarrow> open_ok (bt_insert s (e, r) op)"
  by (simp add: open_ok_def)

section \<open>Taking a range out of a block\<close>

lemma pieces_from_cong:
  "(\<forall>k. cursor \<le> k \<longrightarrow> dict_get op k = dict_get op' k) \<Longrightarrow> pieces_from op end1 cursor = pieces_from op' end1 cursor"
proof (induction op end1 cursor rule: pieces_from.induct)
  case (1 op end1 cursor)
  show ?case
    using 1 by (subst (1 2) pieces_from.simps) (auto split: option.split)
qed

text \<open>One piece of the loop: the parts outside the range stay, the part inside is taken.\<close>

lemma take_piece_pos:
  assumes op: "open_ok op" "once (open_pos op)" "dict_get op s = Some (e, r)"
    and se: "s \<le> max s start" "max s start < min e end1" and start: "start < end1"
    and t: "take_piece start end1 (s, e, r) (op, taken) = (op', taken')"
  shows "open_ok op'" and "open_pos op = open_pos op' + mset [max s start..<min e end1]"
    and "\<forall>k. s < k \<longrightarrow> k \<noteq> end1 \<or> e \<le> end1 \<longrightarrow> dict_get op' k = dict_get op k"
proof -
  let ?op1 = "dict_pop s op"
  let ?op2 = "if s < start then bt_insert s (start, r) ?op1 else ?op1"
  have op': "op' = (if e > end1 then bt_insert end1 (e, r) ?op2 else ?op2)"
    using t by (simp add: take_piece_def Let_def)
  have P: "open_pos op = mset [s..<e] + open_pos ?op1" using open_pos_pop op by (auto simp: open_ok_def)
  have ok2: "open_ok ?op2" using op by (simp add: open_ok_insert)
  have P2: "open_pos ?op2 = mset [s..<max s start] + open_pos ?op1"
    by (auto simp: open_pos_insert max_def)
  have new: "dict_get ?op2 end1 = None" if "e > end1"
  proof (rule ccontr)
    assume "dict_get ?op2 end1 \<noteq> None"
    then obtain e' r' where "dict_get ?op1 end1 = Some (e', r')" using se start by (auto split: if_splits)
    then have "end1 \<in># open_pos ?op1" using open_pos_start op(1) by (meson open_ok_pop)
    moreover have "end1 \<in># mset [s..<e]" using that se by auto
    ultimately show False using once_disjoint op(2) P by metis
  qed
  show "open_ok op'" using ok2 op' by (auto simp: open_ok_insert)
  have "open_pos op' = mset [min e end1..<e] + open_pos ?op2"
    using op' new by (auto simp: open_pos_insert min_def)
  moreover have "mset [s..<e] = mset [s..<max s start] + mset [max s start..<min e end1] + mset [min e end1..<e]"
    using se mset_upt_split [of s "max s start" e] mset_upt_split [of "max s start" "min e end1" e] by auto
  ultimately show "open_pos op = open_pos op' + mset [max s start..<min e end1]" using P P2 by (simp add: ac_simps)
  show "\<forall>k. s < k \<longrightarrow> k \<noteq> end1 \<or> e \<le> end1 \<longrightarrow> dict_get op' k = dict_get op k" using op' by auto
qed

lemma pieces_from_Cons:
  "pieces_from op end1 c = Inr (x # ps) \<Longrightarrow>
     \<exists>e r. x = (c, e, r) \<and> c < end1 \<and> c < e \<and> dict_get op c = Some (e, r) \<and> pieces_from op end1 e = Inr ps"
  by (subst (asm) pieces_from.simps) (auto simp: rbind_Inr_iff split: if_splits option.splits)

lemma pieces_from_Nil: "pieces_from op end1 c = Inr [] \<Longrightarrow> end1 \<le> c"
  by (subst (asm) pieces_from.simps) (auto simp: rbind_Inr_iff split: if_splits option.splits)

lemma take_piece_span:
  "take_piece start end1 (s, e, r) (op, taken) = (op', taken') \<Longrightarrow>
     taken' = taken @ [\<lparr>sp_start = max s start, sp_end = min e end1, sp_redo = r\<rparr>]"
  by (auto simp: take_piece_def Let_def)

lemma sp_pos_simp [simp]: "sp_pos \<lparr>sp_start = a, sp_end = b, sp_redo = r\<rparr> = mset [a..<b]"
  by (simp add: sp_pos_def range_pos_def span_range_def)

lemma pieces_from_after:
  assumes "\<forall>k. s < k \<longrightarrow> k \<noteq> end1 \<or> e \<le> end1 \<longrightarrow> dict_get op1 k = dict_get op k" "s < e"
  shows "pieces_from op1 end1 e = pieces_from op end1 e"
proof (cases "e \<le> end1")
  case True
  then have "\<forall>k. e \<le> k \<longrightarrow> dict_get op1 k = dict_get op k" using assms by auto
  then show ?thesis by (rule pieces_from_cong)
next
  case False
  then show ?thesis by (subst (1 2) pieces_from.simps) simp
qed

lemma take_tail_pos:
  assumes "pieces_from op end1 c = Inr ps" "start \<le> c" "start < end1" "open_ok op" "once (open_pos op)"
    and "fold (take_piece start end1) ps (op, taken) = (op', taken')"
  shows "\<exists>spans. taken' = taken @ spans \<and> spans_ok spans \<and> spans_pos spans = mset [c..<end1] \<and> open_ok op'
    \<and> open_pos op = open_pos op' + mset [c..<end1]"
  using assms
proof (induction ps arbitrary: op c taken)
  case Nil
  then show ?case using pieces_from_Nil [of op end1 c] by (intro exI [of _ "[]"]) simp
next
  case (Cons x ps)
  obtain e r where x: "x = (c, e, r)" "c < end1" "c < e" "dict_get op c = Some (e, r)" "pieces_from op end1 e = Inr ps"
    using pieces_from_Cons [OF Cons.prems(1)] by blast
  obtain op1 taken1 where 1: "take_piece start end1 (c, e, r) (op, taken) = (op1, taken1)" by fastforce
  note piece = take_piece_pos [OF Cons.prems(4,5) x(4) _ _ Cons.prems(3) 1]
  have m: "max c start = c" "c < min e end1" using Cons.prems(2) x by auto
  have op1: "open_ok op1" "open_pos op = open_pos op1 + mset [c..<min e end1]"
    and get: "\<forall>k. c < k \<longrightarrow> k \<noteq> end1 \<or> e \<le> end1 \<longrightarrow> dict_get op1 k = dict_get op k"
    using piece m by auto
  have once1: "once (open_pos op1)" using Cons.prems(5) op1(2) once_add by metis
  have rest: "pieces_from op1 end1 e = Inr ps"
    using pieces_from_after [OF get] x by simp
  have "fold (take_piece start end1) ps (op1, taken1) = (op', taken')" using Cons.prems(6) x(1) 1 by simp
  then obtain spans where spans: "taken' = taken1 @ spans" "spans_ok spans" "spans_pos spans = mset [e..<end1]"
      "open_ok op'" "open_pos op1 = open_pos op' + mset [e..<end1]"
    using Cons.IH [OF rest _ Cons.prems(3) op1(1) once1] Cons.prems(2) x by auto
  have split: "mset [c..<end1] = mset [c..<min e end1] + mset [e..<end1]"
    using mset_upt_split [of c e end1] x by (cases "e \<le> end1") auto
  let ?sp = "\<lparr>sp_start = c, sp_end = min e end1, sp_redo = r\<rparr>"
  have "taken1 = taken @ [?sp]" using take_piece_span [OF 1] m by simp
  then show ?case using spans op1(2) m split
    by (intro exI [of _ "?sp # spans"]) (simp add: ac_simps)
qed

lemma last_at_Some:
  assumes "bt_ok op" "last_at start op = Some (s, e, r)" shows "s \<le> start \<and> dict_get op s = Some (e, r)"
proof -
  let ?xs = "filter (\<lambda>(s, _). s \<le> start) op"
  have "?xs \<noteq> []" "last ?xs = (s, e, r)" using assms(2) by (auto simp: last_at_def split: list.splits)
  then have "(s, e, r) \<in> set ?xs" using last_in_set [of ?xs] by simp
  then have "s \<le> start" "(s, e, r) \<in> set op" by auto
  then show ?thesis using dict_item_get [OF bt_ok_dict [OF assms(1)]] by blast
qed

lemma take_range_pos:
  assumes t: "take_range rg op = Inr (op', spans)" and op: "open_ok op" "once (open_pos op)"
  shows "spans_ok spans" and "spans_pos spans = range_pos rg" and "open_ok op'"
    and "open_pos op = open_pos op' + range_pos rg"
proof -
  obtain start end1 where rg: "rg = (start, end1)" by (cases rg)
  obtain s e r ps where se: "start < end1" "last_at start op = Some (s, e, r)" "start < e"
      "pieces_from op end1 e = Inr ps" "fold (take_piece start end1) ((s, e, r) # ps) (op, []) = (op', spans)"
    using t rg by (auto simp: take_range_def rbind_Inr_iff not_le split: if_splits option.splits)
  have s: "s \<le> start" "dict_get op s = Some (e, r)" using last_at_Some se(2) op(1) by (auto simp: open_ok_def)
  obtain op1 taken1 where 1: "take_piece start end1 (s, e, r) (op, []) = (op1, taken1)" by fastforce
  note piece = take_piece_pos [OF op s(2) _ _ se(1) 1]
  have m: "max s start = start" "start < min e end1" using s se by auto
  have op1: "open_ok op1" "open_pos op = open_pos op1 + mset [start..<min e end1]"
    and get: "\<forall>k. s < k \<longrightarrow> k \<noteq> end1 \<or> e \<le> end1 \<longrightarrow> dict_get op1 k = dict_get op k"
    using piece m by auto
  have once1: "once (open_pos op1)" using op(2) op1(2) once_add by metis
  have rest: "pieces_from op1 end1 e = Inr ps"
    using pieces_from_after [OF get] s se by simp
  have f: "fold (take_piece start end1) ps (op1, taken1) = (op', spans)" using se(5) 1 by simp
  obtain tail where tail: "spans = taken1 @ tail" "spans_ok tail" "spans_pos tail = mset [e..<end1]"
      "open_ok op'" "open_pos op1 = open_pos op' + mset [e..<end1]"
    using take_tail_pos [OF rest _ se(1) op1(1) once1 f] se by auto
  have split: "mset [start..<end1] = mset [start..<min e end1] + mset [e..<end1]"
    using mset_upt_split [of start e end1] se by (cases "e \<le> end1") auto
  have "taken1 = [\<lparr>sp_start = start, sp_end = min e end1, sp_redo = r\<rparr>]" using take_piece_span [OF 1] m by simp
  then show "spans_ok spans" "spans_pos spans = range_pos rg" "open_ok op'" "open_pos op = open_pos op' + range_pos rg"
    using tail op1(2) m split by (auto simp: rg range_pos_def ac_simps)
qed

lemma take_ranges_pos:
  assumes "take_ranges rs op = Inr (op', spans)" "open_ok op" "once (open_pos op)"
  shows "spans_ok spans \<and> spans_pos spans = ranges_pos rs \<and> open_ok op' \<and> open_pos op = open_pos op' + ranges_pos rs"
  using assms
proof (induction rs arbitrary: op spans)
  case (Cons rg rs)
  then obtain op1 sp1 sp2 where 1: "take_range rg op = Inr (op1, sp1)" "take_ranges rs op1 = Inr (op', sp2)" "spans = sp1 @ sp2"
    by (auto simp: rbind_Inr_iff)
  note r = take_range_pos [OF 1(1) Cons.prems(2,3)]
  have "once (open_pos op1)" using Cons.prems(3) r(4) once_add by metis
  from Cons.IH [OF 1(2) r(3) this] r 1(3) show ?case by (simp add: ac_simps)
qed simp

section \<open>Ordered maps as functions\<close>

lemma bt_ext: "bt_ok d \<Longrightarrow> bt_ok d' \<Longrightarrow> (\<And>k. dict_get d k = dict_get d' k) \<Longrightarrow> d = d'"
proof (rule map_sorted_distinct_set_unique [of fst])
  assume d: "bt_ok d" "bt_ok d'" and get: "\<And>k. dict_get d k = dict_get d' k"
  have set: "set d = set d'"
    using get dict_item_get [OF bt_ok_dict [OF d(1)]] dict_item_get [OF bt_ok_dict [OF d(2)]] by auto
  show "set d = set d'" by (rule set)
  show "sorted (map fst d)" "distinct (map fst d)" "sorted (map fst d')" "distinct (map fst d')"
    using d strict_sorted_iff by (auto simp: bt_ok_def)
  have "inj_on fst (set d)" using bt_ok_dict [OF d(1)] by (simp add: dict_ok_def distinct_map)
  then show "inj_on fst (set d \<union> set d')" using set by simp
qed

definition overlay :: "('k::linorder, 'v) dict \<Rightarrow> ('k, 'v) dict \<Rightarrow> ('k, 'v) dict" where
  "overlay staged d = fold (\<lambda>(k, v). bt_insert k v) staged d"

lemma overlay_get:
  "dict_ok staged \<Longrightarrow> dict_get (overlay staged d) k = (case dict_get staged k of Some v \<Rightarrow> Some v | None \<Rightarrow> dict_get d k)"
  unfolding overlay_def
proof (induction staged arbitrary: d)
  case (Cons x staged)
  obtain k' v' where x: "x = (k', v')" by (cases x)
  have "dict_get staged k' = None" "dict_ok staged"
    using Cons.prems x by (auto simp: dict_ok_def map_of_eq_None_iff)
  then show ?case using Cons.IH [of "bt_insert k' v' d"] x by (auto split: option.split)
qed simp

lemma overlay_ok: "bt_ok d \<Longrightarrow> bt_ok (overlay staged d)"
  unfolding overlay_def by (induction staged arbitrary: d) auto

lemma overlay_insert:
  assumes "bt_ok staged" "bt_ok d" shows "overlay (bt_insert k v staged) d = bt_insert k v (overlay staged d)"
  using assms by (intro bt_ext) (auto simp: overlay_get bt_ok_dict overlay_ok split: option.split)

lemma filter_get:
  "dict_ok d \<Longrightarrow> dict_get (filter P d) k = (case dict_get d k of Some v \<Rightarrow> if P (k, v) then Some v else None | None \<Rightarrow> None)"
proof (induction d)
  case (Cons x d)
  obtain k' v' where x: "x = (k', v')" by (cases x)
  have "dict_get d k' = None" using Cons.prems x by (auto simp: dict_ok_def map_of_eq_None_iff)
  then show ?case using Cons x by (auto simp: dict_ok_def split: option.split)
qed simp

lemma filter_bt_ok: "bt_ok d \<Longrightarrow> bt_ok (filter P d)"
  unfolding bt_ok_def by (induction d) auto

section \<open>Positions of a state\<close>

definition queue_pos :: "stream_state list \<Rightarrow> nat multiset" where
  "queue_pos ss = sum_list (map (\<lambda>st. spans_pos (ss_queue st)) ss)"

definition blocks_pos :: "(nat, block) dict \<Rightarrow> nat multiset" where
  "blocks_pos bs = sum_list (map (\<lambda>(i, b). open_pos (bl_open b)) bs)"

definition given_set :: "stream_state list \<Rightarrow> nat set" where
  "given_set ss = {p. stream_of p < length ss \<and> local_of p < ss_next (ss ! stream_of p)}"

definition settled_pos :: "dispense_event \<Rightarrow> nat multiset" where
  "settled_pos e = (case e of EvReport h i k rs ex \<Rightarrow>
       (case k of Trained \<Rightarrow> ranges_pos rs | Dropped \<Rightarrow> ranges_pos rs | Requeue \<Rightarrow> ranges_pos ex | Release \<Rightarrow> {#})
     | _ \<Rightarrow> {#})"

definition settled :: "dispense_event list \<Rightarrow> nat multiset" where
  "settled evs = sum_list (map settled_pos evs)"

text \<open>
  Conservation: the settled positions, the queued ones, those held in blocks and those in hand
  (\<open>H\<close>, inside an operation) are together the positions given out so far, each once.
\<close>

definition conserved :: "dispense_event list \<Rightarrow> nat multiset \<Rightarrow> dispenser \<Rightarrow> bool" where
  "conserved log H d \<longleftrightarrow>
     settled (log @ dp_events d) + queue_pos (dp_streams d) + blocks_pos (dp_blocks d) + H = mset_set (given_set (dp_streams d))"

definition blocks_ok :: "dispenser \<Rightarrow> bool" where
  "blocks_ok d \<longleftrightarrow> bt_ok (dp_blocks d) \<and> (\<forall>i b. dict_get (dp_blocks d) i = Some b \<longrightarrow>
     open_ok (bl_open b) \<and> i < dp_next_block d
     \<and> (\<exists>lv. dict_get (dp_live d) (bl_holder b) = Some lv \<and> i \<in> set (lv_blocks lv)))"

definition live_ok :: "dispenser \<Rightarrow> bool" where
  "live_ok d \<longleftrightarrow> bt_ok (dp_live d)
     \<and> (\<forall>h lv. dict_get (dp_live d) h = Some lv \<longrightarrow> distinct (lv_accept lv) \<and> (\<forall>s \<in> set (lv_accept lv). s < length (dp_streams d)))"

definition data_ok :: "dispenser \<Rightarrow> bool" where
  "data_ok d \<longleftrightarrow> (dp_data d = None \<longrightarrow> dp_live d = [] \<and> dp_streams d = [])
     \<and> (\<forall>dd. dp_data d = Some dd \<longrightarrow> length (dd_streams dd) = length (dp_streams d) \<and> dd_validate dd = Inr ())"

definition queues_ok :: "dispenser \<Rightarrow> bool" where
  "queues_ok d \<longleftrightarrow> (\<forall>st \<in> set (dp_streams d). spans_ok (ss_queue st))"

definition dp_inv :: "dispense_event list \<Rightarrow> dispenser \<Rightarrow> bool" where
  "dp_inv log d \<longleftrightarrow> conserved log {#} d \<and> blocks_ok d \<and> live_ok d \<and> data_ok d \<and> queues_ok d"

lemmas dp_inv_parts = blocks_ok_def live_ok_def data_ok_def queues_ok_def

lemma shift_simps: "stream_of p = p div 2 ^ 40" "local_of p = p mod 2 ^ 40"
proof -
  show "stream_of p = p div 2 ^ 40" by (simp add: stream_of_def stream_shift_def drop_bit_eq_div)
  have "local_of p = take_bit 40 p"
    by (simp add: local_of_def stream_positions_def stream_shift_def take_bit_eq_mask mask_eq_exp_minus_1)
  then show "local_of p = p mod 2 ^ 40" by (simp add: take_bit_eq_mod)
qed

lemma position_of_add: "l < 2 ^ 40 \<Longrightarrow> position_of s l = s * 2 ^ 40 + l"
proof -
  assume "l < 2 ^ 40"
  then have l: "take_bit 40 l = l" by (simp add: take_bit_eq_mod)
  have "push_bit 40 s + l = push_bit 40 s OR l"
  proof (rule disjunctive_add)
    fix n
    have "bit l n \<Longrightarrow> n < 40" using l bit_take_bit_iff [of 40 l n] by simp
    then show "\<not> bit (push_bit 40 s) n \<or> \<not> bit l n" using bit_push_bit_iff_nat [of 40 s n] by linarith
  qed
  then show ?thesis by (simp add: position_of_def stream_shift_def push_bit_eq_mult)
qed

end
