(* ===== verification/Dispense_Admit.thy ===== *)
theory Dispense_Admit
  imports Dispense_Positions
begin

text \<open>
  The invariant of positions through admission, heartbeats, expiry and the first half of a claim:
  spans move between the queues, the blocks and the hand of an operation.
\<close>

section \<open>Queues and fresh positions\<close>

lemma finite_given: "finite (given_set ss)"
proof -
  have "given_set ss \<subseteq> {..<length ss * 2 ^ 40}"
  proof
    fix p assume "p \<in> given_set ss"
    then have "p div 2 ^ 40 < length ss" by (simp add: given_set_def shift_simps)
    then show "p \<in> {..<length ss * 2 ^ 40}" by (simp add: less_mult_imp_div_less div_less_iff_less_mult)
  qed
  then show ?thesis using finite_subset by blast
qed

lemma once_given: "once (mset_set (given_set ss))"
  by (simp add: once_def count_mset_set')

lemma conserved_in:
  "conserved log H d \<Longrightarrow> p \<in># H \<Longrightarrow> p \<in> given_set (dp_streams d)"
  unfolding conserved_def using finite_given by (metis finite_set_mset_mset_set union_iff)

lemma conserved_once: "conserved log H d \<Longrightarrow> once (queue_pos (dp_streams d) + blocks_pos (dp_blocks d) + H)"
  unfolding conserved_def using once_given [of "dp_streams d"] once_add by (metis union_assoc)

lemma map_update_same: "f y = f (xs ! i) \<Longrightarrow> map f (xs[i := y]) = map f xs"
  by (cases "i < length xs") (simp_all add: map_update list_update_same_conv list_update_beyond)

lemma given_set_next: "map ss_next ss = map ss_next ss' \<Longrightarrow> given_set ss = given_set ss'"
proof -
  assume "map ss_next ss = map ss_next ss'"
  then have "length ss = length ss'" "\<And>i. i < length ss \<Longrightarrow> ss_next (ss ! i) = ss_next (ss' ! i)"
    using map_eq_imp_length_eq by (blast, metis length_map nth_map)
  then show ?thesis by (auto simp: given_set_def)
qed

lemma queue_pos_update:
  "s < length ss \<Longrightarrow> queue_pos (ss[s := st]) + spans_pos (ss_queue (ss ! s)) = queue_pos ss + spans_pos (ss_queue st)"
  unfolding queue_pos_def
  using sum_list_update1 [of s ss "\<lambda>st. spans_pos (ss_queue st)" st] by (simp add: ac_simps)

lemma push_one_pos:
  assumes "stream_of (sp_start sp) < length ss"
  shows "queue_pos (push_one sp ss) = sp_pos sp + queue_pos ss"
    "length (push_one sp ss) = length ss" "map ss_next (push_one sp ss) = map ss_next ss"
  using queue_pos_update [OF assms, of "(ss ! stream_of (sp_start sp))\<lparr>ss_queue := sp # ss_queue (ss ! stream_of (sp_start sp))\<rparr>"] assms
  by (auto simp: push_one_def Let_def ac_simps map_update_same)

lemma push_one_ok: "\<forall>st \<in> set ss. spans_ok (ss_queue st) \<Longrightarrow> sp_start sp < sp_end sp \<Longrightarrow>
    stream_of (sp_start sp) < length ss \<Longrightarrow> \<forall>st \<in> set (push_one sp ss). spans_ok (ss_queue st)"
  by (auto simp: push_one_def Let_def dest!: set_update_subset_insert [THEN subsetD])

lemma push_spans:
  assumes "\<forall>sp \<in> set L. stream_of (sp_start sp) < length ss"
  shows "queue_pos (foldr push_one L ss) = spans_pos L + queue_pos ss
    \<and> length (foldr push_one L ss) = length ss \<and> map ss_next (foldr push_one L ss) = map ss_next ss
    \<and> (spans_ok L \<longrightarrow> (\<forall>st \<in> set ss. spans_ok (ss_queue st)) \<longrightarrow> (\<forall>st \<in> set (foldr push_one L ss). spans_ok (ss_queue st)))"
  using assms by (induction L) (auto simp: push_one_pos ac_simps intro: push_one_ok [rule_format])

lemma spans_pos_sort [simp]: "spans_pos (sort_key f L) = spans_pos L"
  unfolding spans_pos_def by (metis mset_map mset_sort sum_mset_sum_list)

lemma spans_ok_sort [simp]: "spans_ok (sort_key f L) = spans_ok L"
  by (simp add: spans_ok_def)

lemma spans_start_in: "spans_ok L \<Longrightarrow> sp \<in> set L \<Longrightarrow> sp_start sp \<in># spans_pos L"
  by (induction L) (auto simp: sp_pos_def range_pos_def span_range_def)

lemma push_front_inv:
  assumes c: "conserved log (spans_pos L + H) d" and L: "spans_ok L"
  shows "conserved log H (push_front L d)" "queues_ok d \<Longrightarrow> queues_ok (push_front L d)"
    "length (dp_streams (push_front L d)) = length (dp_streams d)"
    "map ss_next (dp_streams (push_front L d)) = map ss_next (dp_streams d)"
proof -
  have "\<forall>sp \<in> set (sort_key sp_start L). stream_of (sp_start sp) < length (dp_streams d)"
    using spans_start_in [OF L] conserved_in [OF c] by (auto simp: given_set_def)
  note p = push_spans [OF this]
  show "conserved log H (push_front L d)"
    using c p given_set_next [of "dp_streams (push_front L d)" "dp_streams d"] by (simp add: conserved_def push_front_def ac_simps)
  show "queues_ok d \<Longrightarrow> queues_ok (push_front L d)" using p L by (simp add: queues_ok_def push_front_def)
  show "length (dp_streams (push_front L d)) = length (dp_streams d)"
    "map ss_next (dp_streams (push_front L d)) = map ss_next (dp_streams d)" using p by (simp_all add: push_front_def)
qed

section \<open>What the operations leave alone\<close>

lemma conserved_frame [simp]:
  "conserved log H (d\<lparr>dp_members := x1\<rparr>) = conserved log H d" "conserved log H (d\<lparr>dp_totals := x2\<rparr>) = conserved log H d"
  "conserved log H (d\<lparr>dp_live := x3\<rparr>) = conserved log H d" "conserved log H (d\<lparr>dp_next_block := x4\<rparr>) = conserved log H d"
  "conserved log H (d\<lparr>dp_data := x5\<rparr>) = conserved log H d"
  by (simp_all add: conserved_def)

lemma blocks_ok_frame [simp]:
  "blocks_ok (d\<lparr>dp_members := x1\<rparr>) = blocks_ok d" "blocks_ok (d\<lparr>dp_totals := x2\<rparr>) = blocks_ok d"
  "blocks_ok (d\<lparr>dp_streams := x3\<rparr>) = blocks_ok d" "blocks_ok (d\<lparr>dp_data := x5\<rparr>) = blocks_ok d"
  by (simp_all add: blocks_ok_def)

lemma live_ok_frame [simp]:
  "live_ok (d\<lparr>dp_members := x1\<rparr>) = live_ok d" "live_ok (d\<lparr>dp_totals := x2\<rparr>) = live_ok d"
  "live_ok (d\<lparr>dp_blocks := x3\<rparr>) = live_ok d" "live_ok (d\<lparr>dp_next_block := x4\<rparr>) = live_ok d"
  "live_ok (d\<lparr>dp_data := x5\<rparr>) = live_ok d"
  by (simp_all add: live_ok_def)

lemma data_ok_frame [simp]:
  "data_ok (d\<lparr>dp_members := x1\<rparr>) = data_ok d" "data_ok (d\<lparr>dp_totals := x2\<rparr>) = data_ok d"
  "data_ok (d\<lparr>dp_blocks := x3\<rparr>) = data_ok d" "data_ok (d\<lparr>dp_next_block := x4\<rparr>) = data_ok d"
  by (simp_all add: data_ok_def)

lemma queues_ok_frame [simp]:
  "queues_ok (d\<lparr>dp_members := x1\<rparr>) = queues_ok d" "queues_ok (d\<lparr>dp_totals := x2\<rparr>) = queues_ok d"
  "queues_ok (d\<lparr>dp_blocks := x3\<rparr>) = queues_ok d" "queues_ok (d\<lparr>dp_next_block := x4\<rparr>) = queues_ok d"
  "queues_ok (d\<lparr>dp_live := x5\<rparr>) = queues_ok d" "queues_ok (d\<lparr>dp_data := x6\<rparr>) = queues_ok d"
  by (simp_all add: queues_ok_def)

lemma log_frame [simp]:
  "blocks_ok (dp_log e d) = blocks_ok d" "live_ok (dp_log e d) = live_ok d" "data_ok (dp_log e d) = data_ok d"
  "queues_ok (dp_log e d) = queues_ok d" "dp_streams (dp_log e d) = dp_streams d" "dp_blocks (dp_log e d) = dp_blocks d"
  "dp_live (dp_log e d) = dp_live d" "dp_members (dp_log e d) = dp_members d" "dp_cfg (dp_log e d) = dp_cfg d"
  "dp_data (dp_log e d) = dp_data d" "dp_totals (dp_log e d) = dp_totals d" "dp_next_block (dp_log e d) = dp_next_block d"
  by (simp_all add: dp_log_def dp_inv_parts)

lemma settled_append [simp]: "settled (xs @ ys) = settled xs + settled ys" "settled [] = {#}"
  "settled (e # ys) = settled_pos e + settled ys"
  by (simp_all add: settled_def)

lemma conserved_log: "conserved log (settled_pos e + H) d \<Longrightarrow> conserved log H (dp_log e d)"
  by (simp add: conserved_def dp_log_def ac_simps)

lemma conserved_log_other [simp]: "settled_pos e = {#} \<Longrightarrow> conserved log H (dp_log e d) = conserved log H d"
  by (simp add: conserved_def dp_log_def)

lemma settled_pos_other [simp]:
  "settled_pos (EvOpen h u r n acc) = {#}" "settled_pos (EvStreams sd fp) = {#}" "settled_pos (EvGrant h i rs a b) = {#}"
  "settled_pos (EvPassStart i n) = {#}" "settled_pos (EvWait h) = {#}" "settled_pos (EvEnd h) = {#}"
  "settled_pos (EvBlockDone h i) = {#}" "settled_pos (EvReclaim h rr rs) = {#}" "settled_pos (EvFenced h t) = {#}"
  "settled_pos (EvRestore n i a) = {#}" "settled_pos (EvCheckpoint n i a) = {#}"
  by (simp_all add: settled_pos_def)

lemma dp_inv_members [simp]: "dp_inv log (d\<lparr>dp_members := mb\<rparr>) = dp_inv log d"
  by (simp add: dp_inv_def)

lemma dp_inv_log [simp]: "settled_pos e = {#} \<Longrightarrow> dp_inv log (dp_log e d) = dp_inv log d"
  by (simp add: dp_inv_def)

lemma push_front_frame [simp]:
  "dp_blocks (push_front L d) = dp_blocks d" "dp_live (push_front L d) = dp_live d" "dp_events (push_front L d) = dp_events d"
  "dp_members (push_front L d) = dp_members d" "dp_cfg (push_front L d) = dp_cfg d" "dp_totals (push_front L d) = dp_totals d"
  "dp_data (push_front L d) = dp_data d" "dp_next_block (push_front L d) = dp_next_block d"
  "blocks_ok (push_front L d) = blocks_ok d"
  by (simp_all add: push_front_def)

lemma push_front_ok:
  "length (dp_streams (push_front L d)) = length (dp_streams d) \<Longrightarrow>
     live_ok (push_front L d) = live_ok d \<and> data_ok (push_front L d) = data_ok d"
  unfolding live_ok_def data_ok_def
  by simp (metis length_0_conv)

section \<open>Returning the positions of a holder\<close>

lemma remove_blocks_pos:
  assumes "remove_blocks ids bs = (bs', spans)" "bt_ok bs" "\<forall>i b. dict_get bs i = Some b \<longrightarrow> open_ok (bl_open b)"
  shows "bt_ok bs' \<and> blocks_pos bs = blocks_pos bs' + spans_pos spans \<and> spans_ok spans
    \<and> (\<forall>i. dict_get bs' i = (if i \<in> set ids then None else dict_get bs i))"
  using assms
proof (induction ids arbitrary: bs spans)
  case (Cons i ids)
  show ?case
  proof (cases "dict_get bs i")
    case None
    then show ?thesis using Cons.prems Cons.IH [of bs spans] by auto
  next
    case (Some b)
    obtain sp where sp: "remove_blocks ids (dict_pop i bs) = (bs', sp)" "spans = open_spans (bl_open b) @ sp"
      using Cons.prems(1) Some by (auto split: prod.splits)
    have IH: "bt_ok bs' \<and> blocks_pos (dict_pop i bs) = blocks_pos bs' + spans_pos sp \<and> spans_ok sp
        \<and> (\<forall>k. dict_get bs' k = (if k \<in> set ids then None else dict_get (dict_pop i bs) k))"
      using Cons.IH [OF sp(1)] Cons.prems by simp
    have "spans_ok (open_spans (bl_open b))"
      using Cons.prems(3) Some bt_ok_dict dict_item_get
      by (fastforce simp: spans_ok_def open_spans_def open_ok_def)
    moreover have "blocks_pos bs = open_pos (bl_open b) + blocks_pos (dict_pop i bs)"
      unfolding blocks_pos_def using sum_list_pop [of bs i b "\<lambda>(i, b). open_pos (bl_open b)"] Some Cons.prems(2) bt_ok_dict
      by fastforce
    ultimately show ?thesis using IH sp(2) by (auto simp: ac_simps)
  qed
qed simp

lemma reclaim_inv:
  assumes inv: "dp_inv log d" and r: "reclaim h reason d = (d', n)"
  shows "dp_inv log d' \<and> (\<forall>k. dict_get (dp_live d') k = (if k = h then None else dict_get (dp_live d) k))
    \<and> length (dp_streams d') = length (dp_streams d) \<and> dp_data d' = dp_data d
    \<and> map ss_next (dp_streams d') = map ss_next (dp_streams d)"
proof (cases "dict_get (dp_live d) h")
  case None
  then show ?thesis
    using inv r by (auto simp: reclaim_def)
next
  case (Some lv)
  obtain bs spans where rb: "remove_blocks (lv_blocks lv) (dp_blocks d) = (bs, spans)" by fastforce
  define d1 where "d1 = (dp_retire h (case reason of ReclaimExpired \<Rightarrow> Expired | ReclaimSuperseded \<Rightarrow> Superseded)
      (d\<lparr>dp_live := dict_pop h (dp_live d)\<rparr>))"
  define d2 where "d2 = dp_log (EvReclaim h reason (sort_key fst (sort_key snd (map span_range spans))))
     (d1\<lparr>dp_blocks := bs, dp_totals := (dp_totals d1)\<lparr>tt_reclaimed := tt_reclaimed (dp_totals d1) + sum_list (map sp_len spans)\<rparr>\<rparr>)"
  have d': "d' = push_front spans d2"
    using r Some rb unfolding d1_def d2_def by (auto simp: reclaim_def Let_def dp_retire_def)
  have rp: "bt_ok bs" "blocks_pos (dp_blocks d) = blocks_pos bs + spans_pos spans" "spans_ok spans"
    "\<And>i. dict_get bs i = (if i \<in> set (lv_blocks lv) then None else dict_get (dp_blocks d) i)"
    using remove_blocks_pos [OF rb] inv by (auto simp: dp_inv_def blocks_ok_def)
  have c: "conserved log (spans_pos spans + {#}) d2"
    using inv rp(2) unfolding d2_def d1_def by (simp add: dp_inv_def conserved_def dp_retire_def dp_log_def ac_simps)
  note pf = push_front_inv [OF c rp(3)]
  have b2: "blocks_ok d2" unfolding blocks_ok_def
  proof (intro conjI allI impI)
    show "bt_ok (dp_blocks d2)" using rp(1) by (simp add: d2_def)
    fix i b assume "dict_get (dp_blocks d2) i = Some b"
    then have i: "i \<notin> set (lv_blocks lv)" "dict_get (dp_blocks d) i = Some b"
      using rp(4) by (auto simp: d2_def split: if_splits)
    then obtain l where l: "open_ok (bl_open b)" "i < dp_next_block d" "dict_get (dp_live d) (bl_holder b) = Some l" "i \<in> set (lv_blocks l)"
      using inv by (fastforce simp: dp_inv_def blocks_ok_def)
    then have "bl_holder b \<noteq> h" using i Some by auto
    then show "open_ok (bl_open b)" "i < dp_next_block d2"
      "\<exists>lv. dict_get (dp_live d2) (bl_holder b) = Some lv \<and> i \<in> set (lv_blocks lv)"
      using l by (simp_all add: d2_def d1_def dp_retire_def)
  qed
  have "live_ok d2" "data_ok d2" "queues_ok d2"
    using inv unfolding d2_def d1_def
    by (auto simp: dp_inv_def dp_retire_def live_ok_def data_ok_def queues_ok_def split: option.splits)
  then show ?thesis
    using pf b2 push_front_ok [OF pf(3)] unfolding d'
    by (auto simp: dp_inv_def d2_def d1_def dp_retire_def)
qed

section \<open>Admission, heartbeats and expiry\<close>

text \<open>What an operation that gives out no fresh position keeps.\<close>

definition keeps :: "dispense_event list \<Rightarrow> dispenser \<Rightarrow> dispenser \<Rightarrow> bool" where
  "keeps log d d' \<longleftrightarrow> (dp_inv log d \<longrightarrow> dp_inv log d' \<and> dp_data d' = dp_data d
     \<and> map ss_next (dp_streams d') = map ss_next (dp_streams d)
     \<and> (\<forall>h. dict_get (dp_live d) h = None \<longrightarrow> dict_get (dp_live d') h = None))"

lemma keeps_refl [simp]: "keeps log d d"
  by (simp add: keeps_def)

lemma keeps_trans: "keeps log d d1 \<Longrightarrow> keeps log d1 d2 \<Longrightarrow> keeps log d d2"
  by (simp add: keeps_def)

lemma keeps_members [simp]: "keeps log d (d\<lparr>dp_members := mb\<rparr>)"
  by (simp add: keeps_def)

lemma keeps_log [simp]: "settled_pos e = {#} \<Longrightarrow> keeps log d (dp_log e d)"
  by (simp add: keeps_def)

lemma keeps_reclaim: "keeps log d (fst (reclaim h reason d))"
  using reclaim_inv [of log d h reason "fst (reclaim h reason d)" "snd (reclaim h reason d)"]
  by (auto simp: keeps_def)

lemma keeps_supersede: "keeps log d (fst (fold supersede older (d, p, n)))"
proof (induction older arbitrary: d p n)
  case (Cons old older)
  show ?case
    using keeps_trans [OF keeps_reclaim [of log d old ReclaimSuperseded] Cons.IH]
    by (simp add: supersede_def case_prod_beta)
qed simp

lemma update_holder_inv:
  assumes inv: "dp_inv log d"
    and f: "\<And>lv. dict_get (dp_live d) h = Some lv \<Longrightarrow> lv_accept (f lv) = lv_accept lv \<and> set (lv_blocks lv) \<subseteq> set (lv_blocks (f lv))"
  shows "dp_inv log (update_holder h f d)"
proof (cases "dict_get (dp_live d) h")
  case (Some lv)
  have "dp_live d \<noteq> []" using Some by auto
  then have "dp_data d \<noteq> None" using inv by (auto simp: dp_inv_def data_ok_def)
  then have data: "data_ok (d\<lparr>dp_live := bt_insert h (f lv) (dp_live d)\<rparr>)" using inv by (auto simp: dp_inv_def data_ok_def)
  have "blocks_ok (d\<lparr>dp_live := bt_insert h (f lv) (dp_live d)\<rparr>)"
    using inv f [OF Some] Some by (fastforce simp: dp_inv_def blocks_ok_def)
  moreover have "live_ok (d\<lparr>dp_live := bt_insert h (f lv) (dp_live d)\<rparr>)"
    using inv f [OF Some] Some by (auto simp: dp_inv_def live_ok_def)
  ultimately show ?thesis using data inv Some by (simp add: update_holder_def dp_inv_def)
qed (use inv in \<open>simp add: update_holder_def\<close>)

lemma update_holder_frame [simp]:
  "dp_streams (update_holder h f d) = dp_streams d" "dp_blocks (update_holder h f d) = dp_blocks d"
  "dp_data (update_holder h f d) = dp_data d" "dp_events (update_holder h f d) = dp_events d"
  "dp_cfg (update_holder h f d) = dp_cfg d" "dp_next_block (update_holder h f d) = dp_next_block d"
  "dp_members (update_holder h f d) = dp_members d" "dp_totals (update_holder h f d) = dp_totals d"
  by (auto simp: update_holder_def split: option.split)

lemma update_holder_get:
  "dict_get (dp_live (update_holder h f d)) k = (if k = h then map_option f (dict_get (dp_live d) h) else dict_get (dp_live d) k)"
  by (auto simp: update_holder_def split: option.split)

lemma sorted_remdups_adj_distinct: "sorted (xs :: nat list) \<Longrightarrow> distinct (remdups_adj xs)"
proof (induction xs rule: remdups_adj.induct)
  case (3 x y xs)
  then show ?case by (cases "x = y") auto
qed auto

lemma accept_list_ok: "accept_list n accept = Inr acc \<Longrightarrow> distinct acc \<and> (\<forall>s \<in> set acc. s < n)"
  by (auto simp: accept_list_def Let_def find_None_iff not_le sorted_remdups_adj_distinct
      split: option.splits if_splits)

lemma new_holder_inv:
  assumes inv: "dp_inv log d" and None: "dict_get (dp_live d) h = None" and data: "dp_data d \<noteq> None"
    and acc: "distinct (lv_accept lv)" "\<forall>s \<in> set (lv_accept lv). s < length (dp_streams d)"
  shows "dp_inv log (d\<lparr>dp_live := bt_insert h lv (dp_live d)\<rparr>)"
proof -
  have "blocks_ok (d\<lparr>dp_live := bt_insert h lv (dp_live d)\<rparr>)"
    using inv None by (fastforce simp: dp_inv_def blocks_ok_def)
  moreover have "live_ok (d\<lparr>dp_live := bt_insert h lv (dp_live d)\<rparr>)"
    using inv acc by (auto simp: dp_inv_def live_ok_def)
  moreover have "data_ok (d\<lparr>dp_live := bt_insert h lv (dp_live d)\<rparr>)"
    using inv data by (auto simp: dp_inv_def data_ok_def)
  ultimately show ?thesis using inv by (simp add: dp_inv_def)
qed

lemma reaccept_inv:
  assumes inv: "dp_inv log d" and Some: "dict_get (dp_live d) h = Some lv"
    and acc: "distinct acc" "\<forall>s \<in> set acc. s < length (dp_streams d)"
  shows "dp_inv log (d\<lparr>dp_live := bt_insert h (lv\<lparr>lv_accept := acc\<rparr>) (dp_live d)\<rparr>)"
proof -
  have "blocks_ok (d\<lparr>dp_live := bt_insert h (lv\<lparr>lv_accept := acc\<rparr>) (dp_live d)\<rparr>)"
    using inv Some by (fastforce simp: dp_inv_def blocks_ok_def)
  moreover have "live_ok (d\<lparr>dp_live := bt_insert h (lv\<lparr>lv_accept := acc\<rparr>) (dp_live d)\<rparr>)"
    using inv acc by (auto simp: dp_inv_def live_ok_def)
  moreover have "dp_live d \<noteq> []" using Some by auto
  then have "data_ok (d\<lparr>dp_live := bt_insert h (lv\<lparr>lv_accept := acc\<rparr>) (dp_live d)\<rparr>)"
    using inv by (auto simp: dp_inv_def data_ok_def)
  ultimately show ?thesis using inv by (simp add: dp_inv_def)
qed

lemma admit_holder_inv:
  assumes inv: "dp_inv log d" and data: "dp_data d \<noteq> None"
    and acc: "distinct acc" "\<forall>s \<in> set acc. s < length (dp_streams d)"
  shows "dp_inv log (fst (admit_holder h dd acc now d)) \<and>
    map ss_next (dp_streams (fst (admit_holder h dd acc now d))) = map ss_next (dp_streams d)"
proof (cases "dict_get (dp_live d) h")
  case None
  define d1 where "d1 = d\<lparr>dp_members := fst (mb_join h now (dp_members d))\<rparr>"
  define older where "older = filter (\<lambda>k. h_learner k = h_learner h \<and> k \<noteq> h) (map fst (dp_live d))"
  obtain d2 p n where d2: "fold supersede older (d1, None, 0) = (d2, p, n)" by (metis prod_cases3)
  have "keeps log d1 d2" using keeps_supersede [of log d1 older None 0] d2 by simp
  then have 2: "dp_inv log d2" "dp_data d2 = dp_data d" "map ss_next (dp_streams d2) = map ss_next (dp_streams d)"
    "dict_get (dp_live d2) h = None"
    using inv None by (auto simp: keeps_def d1_def)
  have len: "length (dp_streams d2) = length (dp_streams d)" using 2(3) map_eq_imp_length_eq by blast
  have "dp_inv log (d2\<lparr>dp_live := bt_insert h \<lparr>lv_blocks = [], lv_waiting = False, lv_last = None, lv_accept = acc\<rparr> (dp_live d2)\<rparr>)"
    using new_holder_inv [OF 2(1,4)] 2(2) data acc len by simp
  then show ?thesis using None d2 2(3) inv
    by (simp add: admit_holder_def Let_def d1_def [symmetric] older_def [symmetric])
      (simp add: d1_def older_def [symmetric])
next
  case (Some lv)
  then show ?thesis using reaccept_inv [of log "d\<lparr>dp_members := fst (mb_touch h now (dp_members d))\<rparr>" h lv acc] inv acc
    by (simp add: admit_holder_def Let_def)
qed

lemma no_blocks: "blocks_ok d \<Longrightarrow> dp_live d = [] \<Longrightarrow> dp_blocks d = []"
proof (rule ccontr)
  assume b: "blocks_ok d" "dp_live d = []" "dp_blocks d \<noteq> []"
  then obtain i x bs where "dp_blocks d = (i, x) # bs" by (metis list.exhaust surj_pair)
  then have "dict_get (dp_blocks d) i = Some x" by simp
  then show False using b(1,2) by (fastforce simp: blocks_ok_def)
qed

lemma fix_data_inv:
  assumes inv: "dp_inv log d" and None: "dp_data d = None" and v: "dd_validate dd = Inr ()"
  shows "dp_inv log (fix_data dd d)"
proof -
  have e: "dp_live d = []" "dp_streams d = []" "dp_blocks d = []"
    using inv None no_blocks by (auto simp: dp_inv_def data_ok_def)
  have g: "given_set (map (\<lambda>_. \<lparr>ss_next = 0, ss_queue = [], ss_passes = 0\<rparr>) xs) = {}" "given_set [] = {}" for xs :: "'a list"
    by (auto simp: given_set_def)
  have q: "queue_pos (map (\<lambda>_. \<lparr>ss_next = 0, ss_queue = [], ss_passes = 0\<rparr>) xs) = {#}" for xs :: "'a list"
    by (induction xs) (auto simp: queue_pos_def)
  have q0: "queue_pos [] = {#}" by (simp add: queue_pos_def)
  show ?thesis using inv e v
    by (auto simp: fix_data_def dp_inv_def dp_log_def conserved_def g q q0 blocks_pos_def dp_inv_parts
        bt_ok_def Let_def)
qed

lemma open_with_inv:
  assumes inv: "dp_inv log d" shows "dp_inv log (fst (open_with h dd accept now d))"
proof -
  have admit: "dp_inv log (fst (case accept_list (length (dp_streams x)) accept of
      Inl r \<Rightarrow> (x, Inl (Refused r)) | Inr acc \<Rightarrow> admit_holder h dd acc now x))"
    if "dp_inv log x" "dp_data x \<noteq> None" for x
    using that admit_holder_inv [OF that] accept_list_ok by (auto split: sum.split)
  have "dp_data (fix_data dd d) \<noteq> None" by (simp add: fix_data_def Let_def)
  then show ?thesis
    using inv admit [OF inv] admit [OF fix_data_inv [OF inv]]
    by (auto simp: open_with_def Let_def split: sum.split option.split)
qed

lemma require_live_keeps: "keeps log d (fst (require_live h req now d))"
  by (simp add: require_live_def)

lemma expire_keeps: "keeps log d (fst (dp_expire now d))"
proof -
  have "keeps log d (fst (fold (\<lambda>(h, reason) (d, gone).
           case reason of Some Superseded \<Rightarrow> (fst (reclaim h ReclaimSuperseded d), gone)
           | _ \<Rightarrow> (fst (reclaim h ReclaimExpired d), gone @ [h])) L (d, g)))" for L d g
  proof (induction L arbitrary: d g)
    case (Cons x L)
    obtain h reason where x: "x = (h, reason)" by (cases x)
    obtain d1 g1 where 1: "(case reason of Some Superseded \<Rightarrow> (fst (reclaim h ReclaimSuperseded d), g)
           | _ \<Rightarrow> (fst (reclaim h ReclaimExpired d), g @ [h])) = (d1, g1)" by fastforce
    have "keeps log d d1" using 1 keeps_reclaim by (auto split: option.splits retired.splits)
    then show ?case using keeps_trans Cons.IH [of d1 g1] 1 x by simp
  qed simp
  from keeps_trans [OF keeps_members this] show ?thesis by (simp add: dp_expire_def Let_def)
qed

section \<open>Claims\<close>

lemma take_queue_pos:
  assumes "take_queue need q = (n, t, q')" "spans_ok q"
  shows "spans_pos q = spans_pos t + spans_pos q' \<and> spans_ok t \<and> spans_ok q'
    \<and> sum_list (map sp_len t) + n = need"
  using assms
proof (induction need q arbitrary: n t q' rule: take_queue.induct)
  case (2 need f q)
  consider "need = 0" | "need \<noteq> 0" "sp_len f \<le> need" | "need \<noteq> 0" "need < sp_len f" by linarith
  then show ?case
  proof cases
    case 2
    then obtain t1 where t1: "take_queue (need - sp_len f) q = (n, t1, q')" "t = f # t1"
      using "2.prems"(1) by (auto split: prod.splits)
    have "spans_pos q = spans_pos t1 + spans_pos q' \<and> spans_ok t1 \<and> spans_ok q'
        \<and> sum_list (map sp_len t1) + n = need - sp_len f"
      using "2.IH" [OF _ _ t1(1)] 2 "2.prems"(2) by simp
    then show ?thesis using t1(2) "2.prems"(2) 2(2) by (auto simp: ac_simps)
  next
    case 3
    then have "sp_start f \<le> sp_start f + need" "sp_start f + need \<le> sp_end f" by (auto simp: sp_len_def)
    note mset_upt_split [OF this]
    then show ?thesis using 3 "2.prems"
      by (auto simp: sp_pos_def range_pos_def span_range_def sp_len_def ac_simps)
  qed (use "2.prems" in auto)
qed auto

lemma take_queues_pos:
  assumes "take_queues accept need ss = (n, t, ss')" "\<forall>s \<in> set accept. s < length ss" "\<forall>st \<in> set ss. spans_ok (ss_queue st)"
  shows "queue_pos ss = spans_pos t + queue_pos ss' \<and> spans_ok t \<and> (\<forall>st \<in> set ss'. spans_ok (ss_queue st))
    \<and> map ss_next ss' = map ss_next ss \<and> sum_list (map sp_len t) + n = need"
  using assms
proof (induction accept arbitrary: need ss n t)
  case (Cons s accept)
  obtain n1 t1 q1 where 1: "take_queue need (ss_queue (ss ! s)) = (n1, t1, q1)" by (metis prod_cases3)
  let ?ss1 = "ss[s := (ss ! s)\<lparr>ss_queue := q1\<rparr>]"
  have s: "s < length ss" using Cons.prems(2) by simp
  have q: "spans_pos (ss_queue (ss ! s)) = spans_pos t1 + spans_pos q1" "spans_ok t1" "spans_ok q1"
      "sum_list (map sp_len t1) + n1 = need"
    using take_queue_pos [OF 1] Cons.prems(3) s by auto
  have pos: "queue_pos ss = spans_pos t1 + queue_pos ?ss1"
    using queue_pos_update [OF s, of "(ss ! s)\<lparr>ss_queue := q1\<rparr>"] q(1) by (simp add: ac_simps)
  have ok: "\<forall>st \<in> set ?ss1. spans_ok (ss_queue st)"
    using Cons.prems(3) q(3) by (auto dest!: set_update_subset_insert [THEN subsetD])
  have nexts: "map ss_next ?ss1 = map ss_next ss" by (rule map_update_same) simp
  show ?case
  proof (cases "n1 = 0")
    case True
    then show ?thesis using Cons.prems(1) 1 pos ok nexts q by (auto simp: Let_def)
  next
    case False
    then obtain t2 where 2: "take_queues accept n1 ?ss1 = (n, t2, ss')" "t = t1 @ t2"
      using Cons.prems(1) 1 by (auto simp: Let_def split: prod.splits)
    from Cons.IH [OF 2(1) _ ok] Cons.prems(2) 2(2) pos nexts q show ?thesis by (auto simp: ac_simps)
  qed
qed auto

lemma scan_streams_in:
  assumes "\<And>x. x \<in> set_option due \<union> set_option behind \<Longrightarrow> P (fst x)"
    and "\<And>s. s \<in> set open1 \<Longrightarrow> counts ! s < limits ! s \<Longrightarrow> P s"
    and "scan_streams w W m limits counts n open1 due behind = (due', behind')"
    and "x \<in> set_option due' \<union> set_option behind'"
  shows "P (fst x)"
  using assms
proof (induction open1 arbitrary: due behind)
  case (Cons s open1)
  show ?case
  proof (cases "counts ! s \<ge> limits ! s")
    case True
    then show ?thesis using Cons.IH [of due behind] Cons.prems by auto
  next
    case False
    then have s: "P s" using Cons.prems(2) by simp
    from Cons.IH Cons.prems(3) False obtain due1 behind1 where
      1: "scan_streams w W m limits counts n open1 due1 behind1 = (due', behind')"
      "set_option due1 \<subseteq> set_option due \<union> {x. fst x = s}" "set_option behind1 \<subseteq> set_option behind \<union> {x. fst x = s}"
      by (fastforce simp: Let_def split: option.splits if_splits)
    show ?thesis
    proof (rule Cons.IH [OF _ _ 1(1) Cons.prems(4)])
      show "P (fst x)" if "x \<in> set_option due1 \<union> set_option behind1" for x
        using that 1(2,3) s Cons.prems(1) by blast
    qed (use Cons.prems(2) in auto)
  qed
qed auto

lemma pick_one_in:
  assumes "pick_one w W m limits counts n open1 = Some s" shows "s \<in> set open1 \<and> counts ! s < limits ! s"
proof -
  obtain due behind where d: "scan_streams w W m limits counts n open1 None None = (due, behind)" by fastforce
  have "\<And>x. x \<in> set_option due \<union> set_option behind \<Longrightarrow> fst x \<in> set open1 \<and> counts ! (fst x) < limits ! (fst x)"
    by (rule scan_streams_in [OF _ _ d]) auto
  then show ?thesis using assms d by (fastforce simp: pick_one_def split: option.splits prod.splits)
qed

end
