(* ===== verification/Dispense_Claims.thy ===== *)
theory Dispense_Claims
  imports Dispense_Admit
begin

text \<open>
  The invariant of positions through claims: which fresh positions the interleave picks, that they
  are new, and that the granted block holds exactly the spans taken.
\<close>

section \<open>Fresh positions\<close>

lemma pick_loop_ok:
  assumes "taken' = pick_loop w W m limits open1 need counts given taken"
    and "length counts = N" "length taken = N" "\<forall>s \<in> set open1. s < N"
    and "\<forall>i<N. counts ! i = nexts ! i + taken ! i"
    and "\<forall>i<N. 0 < taken ! i \<longrightarrow> nexts ! i + taken ! i \<le> limits ! i \<and> i \<in> set open1"
  shows "length taken' = N \<and> (\<forall>i<N. 0 < taken' ! i \<longrightarrow> nexts ! i + taken' ! i \<le> limits ! i \<and> i \<in> set open1)"
  using assms
proof (induction need arbitrary: counts given taken)
  case (Suc need)
  show ?case
  proof (cases "pick_one w W m limits counts (given + 1) open1")
    case None
    then show ?thesis using Suc.prems by simp
  next
    case (Some s)
    have s: "s \<in> set open1" "counts ! s < limits ! s" using pick_one_in [OF Some] by auto
    then have "s < N" using Suc.prems(4) by blast
    then show ?thesis
      using Suc.prems s Some
      by (intro Suc.IH [of "counts[s := counts ! s + 1]" "given + 1" "taken[s := taken ! s + 1]"])
        (auto simp: nth_list_update)
  qed
qed simp

lemma pick_fresh_ok:
  assumes acc: "\<forall>s \<in> set accept. s < length (dp_streams d)" and x: "(s, n) \<in> set (pick_fresh accept need d)"
  shows "s \<in> set accept \<and> 0 < n \<and> ss_next (dp_streams d ! s) + n \<le> stream_limit d s"
proof -
  let ?open = "filter (\<lambda>s. \<not> stream_exhausted d s) accept"
  let ?N = "length (dp_streams d)"
  have ne: "?open \<noteq> []" "need \<noteq> 0" using x by (auto simp: pick_fresh_def Let_def split: if_splits)
  show ?thesis
  proof (cases "?N = 1")
    case True
    have "?open ! 0 \<in> set ?open" using ne(1) by (intro nth_mem) simp
    then have "?open ! 0 \<in> set accept" "\<not> stream_exhausted d (?open ! 0)" by auto
    then show ?thesis using x True ne
      by (auto simp: pick_fresh_def Let_def stream_exhausted_def not_le)
  next
    case False
    let ?limits = "map (stream_limit d) [0..<?N]"
    let ?nexts = "map ss_next (dp_streams d)"
    define taken where "taken = pick_loop (stream_weights d) (sum_list (stream_weights d)) (2 * (int ?N - 1)) ?limits ?open need
      ?nexts (sum_list (map int ?nexts)) (replicate ?N 0)"
    have "length taken = ?N \<and> (\<forall>i<?N. 0 < taken ! i \<longrightarrow> ?nexts ! i + taken ! i \<le> ?limits ! i \<and> i \<in> set ?open)"
      by (rule pick_loop_ok [OF taken_def]) (use acc in auto)
    moreover have "(s, n) \<in> set (enumerate 0 taken)" "0 < n"
      using x False ne by (auto simp: pick_fresh_def Let_def taken_def split: if_splits)
    ultimately show ?thesis by (auto simp: in_set_enumerate_eq)
  qed
qed

lemma pick_fresh_distinct: "distinct (map fst (pick_fresh accept need d))"
proof -
  have "distinct (map fst (filter P (enumerate 0 xs)))" for P and xs :: "nat list"
    by (rule distinct_map_filter) (simp add: map_fst_enumerate)
  then show ?thesis by (simp add: pick_fresh_def Let_def)
qed

text \<open>The predicates look at the streams through their counters and queues only.\<close>

lemma restream:
  assumes nexts: "map ss_next ss = map ss_next (dp_streams d)" and qs: "map ss_queue ss = map ss_queue (dp_streams d)"
  shows "conserved log H (d\<lparr>dp_streams := ss\<rparr>) = conserved log H d" "live_ok (d\<lparr>dp_streams := ss\<rparr>) = live_ok d"
    "data_ok (d\<lparr>dp_streams := ss\<rparr>) = data_ok d" "queues_ok (d\<lparr>dp_streams := ss\<rparr>) = queues_ok d"
proof -
  have len: "length ss = length (dp_streams d)" using map_eq_imp_length_eq [OF nexts] .
  have q: "queue_pos xs = sum_list (map spans_pos (map ss_queue xs))" for xs by (simp add: queue_pos_def comp_def)
  have "queue_pos ss = queue_pos (dp_streams d)" unfolding q qs ..
  then show "conserved log H (d\<lparr>dp_streams := ss\<rparr>) = conserved log H d"
    using given_set_next [OF nexts] by (simp add: conserved_def)
  show "live_ok (d\<lparr>dp_streams := ss\<rparr>) = live_ok d" using len by (simp add: live_ok_def)
  have "ss = [] \<longleftrightarrow> dp_streams d = []" using len by (metis length_0_conv)
  then show "data_ok (d\<lparr>dp_streams := ss\<rparr>) = data_ok d" using len by (simp add: data_ok_def)
  have "queues_ok x \<longleftrightarrow> (\<forall>q \<in> set (map ss_queue (dp_streams x)). spans_ok q)" for x by (simp add: queues_ok_def)
  then show "queues_ok (d\<lparr>dp_streams := ss\<rparr>) = queues_ok d" using qs by (simp del: set_map)
qed

text \<open>Two states that differ in the log of pass starts and the pass counters only.\<close>

definition same_positions :: "dispenser \<Rightarrow> dispenser \<Rightarrow> bool" where
  "same_positions d d' \<longleftrightarrow> (\<exists>ss evs. d' = d\<lparr>dp_streams := ss, dp_events := dp_events d @ evs\<rparr> \<and> settled evs = {#}
     \<and> map ss_next ss = map ss_next (dp_streams d) \<and> map ss_queue ss = map ss_queue (dp_streams d))"

lemma same_positions_start_pass: "same_positions d (start_pass s k d)"
proof (cases "k \<ge> ss_passes (dp_streams d ! s)")
  case True
  let ?ss = "(dp_streams d)[s := (dp_streams d ! s)\<lparr>ss_passes := k + 1\<rparr>]"
  have "map ss_next ?ss = map ss_next (dp_streams d)" "map ss_queue ?ss = map ss_queue (dp_streams d)"
    by (rule map_update_same, simp)+
  then show ?thesis unfolding same_positions_def using True
    by (intro exI [of _ ?ss] exI [of _ "[EvPassStart s k]"]) (simp add: start_pass_def dp_log_def)
next
  case False
  then show ?thesis unfolding same_positions_def
    by (intro exI [of _ "dp_streams d"] exI [of _ "[]"]) (simp add: start_pass_def)
qed

lemma same_positions_trans: "same_positions d d1 \<Longrightarrow> same_positions d1 d2 \<Longrightarrow> same_positions d d2"
  unfolding same_positions_def
proof (elim exE conjE)
  fix ss evs ss1 evs1
  assume "d1 = d\<lparr>dp_streams := ss, dp_events := dp_events d @ evs\<rparr>" "settled evs = {#}"
    "map ss_next ss = map ss_next (dp_streams d)" "map ss_queue ss = map ss_queue (dp_streams d)"
    "d2 = d1\<lparr>dp_streams := ss1, dp_events := dp_events d1 @ evs1\<rparr>" "settled evs1 = {#}"
    "map ss_next ss1 = map ss_next (dp_streams d1)" "map ss_queue ss1 = map ss_queue (dp_streams d1)"
  then show "\<exists>ss evs. d2 = d\<lparr>dp_streams := ss, dp_events := dp_events d @ evs\<rparr> \<and> settled evs = {#}
     \<and> map ss_next ss = map ss_next (dp_streams d) \<and> map ss_queue ss = map ss_queue (dp_streams d)"
    by (intro exI [of _ ss1] exI [of _ "evs @ evs1"]) simp
qed

lemma same_positions_passes: "same_positions d (fold (start_pass s) ks d)"
proof (induction ks arbitrary: d)
  case Nil
  then show ?case unfolding same_positions_def by (intro exI [of _ "dp_streams d"] exI [of _ "[]"]) simp
next
  case (Cons k ks)
  show ?case using same_positions_trans [OF same_positions_start_pass [of d s k] Cons.IH] by simp
qed

lemma same_positions_ok:
  assumes "same_positions d d'"
  shows "conserved log H d' = conserved log H d" "live_ok d' = live_ok d" "data_ok d' = data_ok d"
    "queues_ok d' = queues_ok d" "blocks_ok d' = blocks_ok d"
    "map ss_next (dp_streams d') = map ss_next (dp_streams d)" "map ss_queue (dp_streams d') = map ss_queue (dp_streams d)"
    "dp_live d' = dp_live d" "dp_blocks d' = dp_blocks d" "dp_data d' = dp_data d" "dp_cfg d' = dp_cfg d"
    "dp_next_block d' = dp_next_block d" "length (dp_streams d') = length (dp_streams d)"
proof -
  obtain ss evs where d': "d' = d\<lparr>dp_streams := ss, dp_events := dp_events d @ evs\<rparr>" "settled evs = {#}"
    and ss: "map ss_next ss = map ss_next (dp_streams d)" "map ss_queue ss = map ss_queue (dp_streams d)"
    using assms unfolding same_positions_def by blast
  have ev: "conserved log H (x\<lparr>dp_events := dp_events x @ evs\<rparr>) = conserved log H x" for x
    using d'(2) by (simp add: conserved_def)
  have evo: "live_ok (x\<lparr>dp_events := e\<rparr>) = live_ok x" "data_ok (x\<lparr>dp_events := e\<rparr>) = data_ok x"
      "queues_ok (x\<lparr>dp_events := e\<rparr>) = queues_ok x" "blocks_ok (x\<lparr>dp_events := e\<rparr>) = blocks_ok x" for x e
    by (simp_all add: dp_inv_parts)
  have d'2: "d' = (d\<lparr>dp_streams := ss\<rparr>)\<lparr>dp_events := dp_events (d\<lparr>dp_streams := ss\<rparr>) @ evs\<rparr>" using d' by simp
  show "conserved log H d' = conserved log H d" unfolding d'2 ev using restream [OF ss] by simp
  show "live_ok d' = live_ok d" "data_ok d' = data_ok d" "queues_ok d' = queues_ok d" "blocks_ok d' = blocks_ok d"
    unfolding d'2 evo using restream [OF ss] by simp_all
  show "map ss_next (dp_streams d') = map ss_next (dp_streams d)" "map ss_queue (dp_streams d') = map ss_queue (dp_streams d)"
    "dp_live d' = dp_live d" "dp_blocks d' = dp_blocks d" "dp_data d' = dp_data d" "dp_cfg d' = dp_cfg d"
    "dp_next_block d' = dp_next_block d" using d' ss by simp_all
  then show "length (dp_streams d') = length (dp_streams d)" using map_eq_imp_length_eq by blast
qed

lemma stream_interval:
  assumes b: "b < 2 ^ 40"
  shows "{s * 2 ^ 40 + a..<s * 2 ^ 40 + b} = {p. stream_of p = s \<and> a \<le> local_of p \<and> local_of p < b}"
proof -
  have "p \<in> {s * 2 ^ 40 + a..<s * 2 ^ 40 + b} \<longleftrightarrow> stream_of p = s \<and> a \<le> local_of p \<and> local_of p < b" for p
  proof -
    define q r where "q = p div 2 ^ 40" and "r = p mod 2 ^ 40"
    have p: "p = q * 2 ^ 40 + r" "r < 2 ^ 40" by (simp_all add: q_def r_def)
    have "stream_of p = q" "local_of p = r" by (simp_all add: shift_simps q_def r_def)
    moreover have "s * 2 ^ 40 + a \<le> q * 2 ^ 40 + r \<and> q * 2 ^ 40 + r < s * 2 ^ 40 + b \<longleftrightarrow> q = s \<and> a \<le> r \<and> r < b"
      using p(2) b by (cases q s rule: linorder_cases) auto
    ultimately show ?thesis using p(1) by simp
  qed
  then show ?thesis by blast
qed

lemma given_set_grow:
  assumes s: "s < length ss" and n: "ss_next (ss ! s) = a" "b < 2 ^ 40" "a \<le> b" and st: "ss_next st = b"
  shows "mset_set (given_set (ss[s := st])) = mset_set (given_set ss) + mset [position_of s a..<position_of s b]"
proof -
  have pos: "position_of s a = s * 2 ^ 40 + a" "position_of s b = s * 2 ^ 40 + b" using n position_of_add by auto
  define I where "I = {p. stream_of p = s \<and> a \<le> local_of p \<and> local_of p < b}"
  have I: "{s * 2 ^ 40 + a..<s * 2 ^ 40 + b} = I" unfolding I_def using n(2) by (rule stream_interval)
  have "given_set (ss[s := st]) = given_set ss \<union> I"
    using s n st by (auto simp: given_set_def I_def nth_list_update split: if_splits)
  moreover have "given_set ss \<inter> I = {}" using n by (auto simp: given_set_def I_def)
  moreover have "finite I" unfolding I [symmetric] by simp
  ultimately show ?thesis
    using mset_set_Union [OF finite_given, of I ss] unfolding pos mset_upt I by simp
qed

lemma give_fresh_step:
  assumes g: "give_fresh (s, n) (d, spans) = (d', spans')"
    and s: "s < length (dp_streams d)" and n: "0 < n" "ss_next (dp_streams d ! s) + n < 2 ^ 40"
    and c: "conserved log (spans_pos spans) d" and sp: "spans_ok spans"
  shows "conserved log (spans_pos spans') d' \<and> spans_ok spans'"
proof -
  let ?a = "ss_next (dp_streams d ! s)"
  define d1 where "d1 = fold (start_pass s) [?a div stream_rows d s..<(?a + n - 1) div stream_rows d s + 1] d"
  have d1: "same_positions d d1" unfolding d1_def by (rule same_positions_passes)
  note ok = same_positions_ok [OF d1]
  have s1: "s < length (dp_streams d1)" "ss_next (dp_streams d1 ! s) = ?a"
    using s ok(6,13) by (simp, metis nth_map)
  let ?st = "(dp_streams d1 ! s)\<lparr>ss_next := ?a + n\<rparr>"
  have d': "d' = d1\<lparr>dp_streams := (dp_streams d1)[s := ?st]\<rparr>"
    and spans': "spans' = spans @ [\<lparr>sp_start = position_of s ?a, sp_end = position_of s (?a + n), sp_redo = 0\<rparr>]"
    using g unfolding d1_def by (auto simp: give_fresh_def Let_def)
  have "queue_pos ((dp_streams d1)[s := ?st]) = queue_pos (dp_streams d1)"
    using queue_pos_update [OF s1(1), of ?st] by simp
  moreover have "conserved log (spans_pos spans) d1" using c ok(1) by simp
  ultimately have "conserved log (spans_pos spans') d'"
    using given_set_grow [OF s1 n(2), of ?st] unfolding d' spans' by (simp add: conserved_def ac_simps)
  moreover have "position_of s ?a < position_of s (?a + n)" using n by (simp add: position_of_add)
  ultimately show ?thesis using sp spans' by simp
qed

lemma give_fresh_frame:
  assumes "give_fresh (s, n) (d, spans) = (d', spans')"
  shows "dp_blocks d' = dp_blocks d \<and> dp_live d' = dp_live d \<and> dp_data d' = dp_data d \<and> dp_next_block d' = dp_next_block d
    \<and> dp_cfg d' = dp_cfg d
    \<and> map ss_next (dp_streams d') = (map ss_next (dp_streams d))[s := ss_next (dp_streams d ! s) + n]
    \<and> map ss_queue (dp_streams d') = map ss_queue (dp_streams d)"
proof -
  let ?a = "ss_next (dp_streams d ! s)"
  define d1 where "d1 = fold (start_pass s) [?a div stream_rows d s..<(?a + n - 1) div stream_rows d s + 1] d"
  have "same_positions d d1" unfolding d1_def by (rule same_positions_passes)
  note ok = same_positions_ok [OF this]
  have d': "d' = d1\<lparr>dp_streams := (dp_streams d1)[s := (dp_streams d1 ! s)\<lparr>ss_next := ?a + n\<rparr>]\<rparr>"
    using assms unfolding d1_def by (auto simp: give_fresh_def Let_def)
  then have "map ss_queue (dp_streams d') = map ss_queue (dp_streams d1)" by (simp add: map_update_same)
  then show ?thesis using ok d' by (simp add: map_update)
qed

lemma give_fresh_nexts:
  assumes "fold give_fresh L (d, spans) = (d', spans')" "distinct (map fst L)" "\<forall>x \<in> set L. fst x < length (dp_streams d)"
  shows "length (dp_streams d') = length (dp_streams d)
    \<and> (\<forall>i < length (dp_streams d). ss_next (dp_streams d' ! i) = ss_next (dp_streams d ! i) + (case dict_get L i of None \<Rightarrow> 0 | Some n \<Rightarrow> n))
    \<and> dp_blocks d' = dp_blocks d \<and> dp_live d' = dp_live d \<and> dp_data d' = dp_data d \<and> dp_next_block d' = dp_next_block d
    \<and> map ss_queue (dp_streams d') = map ss_queue (dp_streams d)"
  using assms
proof (induction L arbitrary: d spans)
  case (Cons x L)
  obtain s n where x: "x = (s, n)" by (cases x)
  obtain d1 spans1 where 1: "give_fresh (s, n) (d, spans) = (d1, spans1)" by fastforce
  note f = give_fresh_frame [OF 1]
  have len: "length (dp_streams d1) = length (dp_streams d)" using f map_eq_imp_length_eq by blast
  have next1: "ss_next (dp_streams d1 ! i) = ss_next (dp_streams d ! i) + (if i = s then n else 0)"
    if "i < length (dp_streams d)" for i
  proof -
    have "map ss_next (dp_streams d1) ! i = ((map ss_next (dp_streams d))[s := ss_next (dp_streams d ! s) + n]) ! i"
      using f by simp
    then show ?thesis using that len by (simp add: nth_list_update split: if_splits)
  qed
  have "dict_get L s = None" using Cons.prems(2) x by (auto simp: map_of_eq_None_iff)
  then show ?case using Cons.IH [of d1 spans1] Cons.prems x 1 f len next1 by (auto split: option.split)
qed simp

definition roomy :: "dispenser \<Rightarrow> bool" where
  "roomy d \<longleftrightarrow> (\<forall>st \<in> set (dp_streams d). ss_next st < 2 ^ 40)"

lemma roomy_nth: "roomy d \<longleftrightarrow> (\<forall>i < length (dp_streams d). ss_next (dp_streams d ! i) < 2 ^ 40)"
  by (simp add: roomy_def all_set_conv_all_nth)

lemma give_fresh_conserved:
  assumes "fold give_fresh L (d, spans) = (d', spans')" "distinct (map fst L)"
    and "\<forall>x \<in> set L. fst x < length (dp_streams d) \<and> 0 < snd x" and "roomy d'"
    and "conserved log (spans_pos spans) d" "spans_ok spans"
  shows "conserved log (spans_pos spans') d' \<and> spans_ok spans' \<and> (L \<noteq> [] \<longrightarrow> spans' \<noteq> []) \<and> (spans \<noteq> [] \<longrightarrow> spans' \<noteq> [])"
  using assms
proof (induction L arbitrary: d spans)
  case (Cons x L)
  obtain s n where x: "x = (s, n)" by (cases x)
  obtain d1 spans1 where 1: "give_fresh (s, n) (d, spans) = (d1, spans1)" by fastforce
  have "ss_next (dp_streams d' ! s) = ss_next (dp_streams d ! s) + n" "length (dp_streams d') = length (dp_streams d)"
    using give_fresh_nexts [OF Cons.prems(1,2)] Cons.prems(3) x by auto
  then have room: "ss_next (dp_streams d ! s) + n < 2 ^ 40"
    using Cons.prems(3,4) x unfolding roomy_nth by (metis fst_conv list.set_intros(1))
  have s: "s < length (dp_streams d)" "0 < n" using Cons.prems(3) x by auto
  have 2: "conserved log (spans_pos spans1) d1 \<and> spans_ok spans1"
    using give_fresh_step [OF 1 s room Cons.prems(5,6)] .
  have len: "length (dp_streams d1) = length (dp_streams d)"
    using give_fresh_frame [OF 1] map_eq_imp_length_eq by blast
  have f: "fold give_fresh L (d1, spans1) = (d', spans')" using Cons.prems(1) x 1 by simp
  have "spans1 \<noteq> []" using 1 by (auto simp: give_fresh_def Let_def)
  then show ?case using Cons.IH [OF f _ _ Cons.prems(4)] Cons.prems(2,3) 2 len by auto
qed simp

section \<open>Granting a block\<close>

lemma open_of_fold:
  assumes "open_ok op" "once (open_pos op + spans_pos L)" "spans_ok L"
  shows "open_ok (fold (\<lambda>sp. bt_insert (sp_start sp) (sp_end sp, sp_redo sp)) L op)
    \<and> open_pos (fold (\<lambda>sp. bt_insert (sp_start sp) (sp_end sp, sp_redo sp)) L op) = open_pos op + spans_pos L"
  using assms
proof (induction L arbitrary: op)
  case (Cons sp L)
  have "sp_start sp \<in># spans_pos (sp # L)" by (rule spans_start_in [OF Cons.prems(3)]) simp
  then have "sp_start sp \<notin># open_pos op" using once_disjoint [of "spans_pos (sp # L)" "open_pos op"] Cons.prems(2)
    by (simp add: ac_simps)
  then have None: "dict_get op (sp_start sp) = None" using open_pos_start [OF Cons.prems(1)]
    by (cases "dict_get op (sp_start sp)") auto
  let ?op = "bt_insert (sp_start sp) (sp_end sp, sp_redo sp) op"
  have p: "open_pos ?op = sp_pos sp + open_pos op" "open_ok ?op"
    using open_pos_insert [OF None] open_ok_insert Cons.prems(1,3) by (auto simp: sp_pos_def range_pos_def span_range_def)
  then show ?case using Cons.IH [of ?op] Cons.prems by (simp add: ac_simps)
qed simp

lemma open_of_pos: "once (spans_pos L) \<Longrightarrow> spans_ok L \<Longrightarrow> open_ok (open_of L) \<and> open_pos (open_of L) = spans_pos L"
  using open_of_fold [of "[]" L] by (simp add: open_of_def open_ok_def open_pos_def bt_ok_def)

lemma grant_block_inv:
  assumes c: "conserved log (spans_pos spans) d" and sp: "spans_ok spans"
    and ok: "blocks_ok d" "live_ok d" "data_ok d" "queues_ok d" and lv: "dict_get (dp_live d) h = Some lv"
  shows "dp_inv log (fst (grant_block h spans d))"
proof -
  let ?i = "dp_next_block d"
  let ?b = "\<lparr>bl_holder = h, bl_open = open_of spans\<rparr>"
  let ?live = "bt_insert h (lv\<lparr>lv_waiting := False, lv_blocks := insort_insert ?i (lv_blocks lv)\<rparr>) (dp_live d)"
  let ?t = "(dp_totals d)\<lparr>tt_granted := tt_granted (dp_totals d) + count_ranges (map span_range spans)\<rparr>"
  let ?d = "d\<lparr>dp_next_block := ?i + 1, dp_live := ?live, dp_totals := ?t, dp_blocks := bt_insert ?i ?b (dp_blocks d)\<rparr>"
  have "once (spans_pos spans)" using conserved_once [OF c] once_add by blast
  then have op: "open_ok (open_of spans)" "open_pos (open_of spans) = spans_pos spans" using open_of_pos sp by auto
  have None: "dict_get (dp_blocks d) ?i = None"
    using ok(1) by (cases "dict_get (dp_blocks d) ?i") (auto simp: blocks_ok_def)
  then have "blocks_pos (bt_insert ?i ?b (dp_blocks d)) = spans_pos spans + blocks_pos (dp_blocks d)"
    unfolding blocks_pos_def using op(2) by (simp add: sum_list_bt_new)
  then have c': "conserved log {#} ?d" using c by (simp add: conserved_def ac_simps)
  have b: "blocks_ok ?d" unfolding blocks_ok_def
  proof (intro conjI allI impI)
    show "bt_ok (dp_blocks ?d)" using ok(1) by (simp add: blocks_ok_def)
    fix i b assume "dict_get (dp_blocks ?d) i = Some b"
    then consider "i = ?i" "b = ?b" | "i \<noteq> ?i" "dict_get (dp_blocks d) i = Some b" by (auto split: if_splits)
    then have "open_ok (bl_open b) \<and> i < dp_next_block ?d \<and> (\<exists>lv. dict_get (dp_live ?d) (bl_holder b) = Some lv \<and> i \<in> set (lv_blocks lv))"
    proof cases
      case 2
      then have "open_ok (bl_open b)" "i < ?i" "\<exists>lv. dict_get (dp_live d) (bl_holder b) = Some lv \<and> i \<in> set (lv_blocks lv)"
        using ok(1) by (auto simp: blocks_ok_def)
      then show ?thesis using lv by (auto simp: set_insort_insert)
    qed (use op(1) in \<open>simp add: set_insort_insert\<close>)
    then show "open_ok (bl_open b)" "i < dp_next_block ?d"
      "\<exists>lv. dict_get (dp_live ?d) (bl_holder b) = Some lv \<and> i \<in> set (lv_blocks lv)" by auto
  qed
  have l: "live_ok ?d" using ok(2) lv by (auto simp: live_ok_def)
  have "dp_live d \<noteq> []" using lv by auto
  then have "data_ok ?d" using ok(3) by (auto simp: data_ok_def)
  then have "dp_inv log ?d" using c' b l ok(4) by (simp add: dp_inv_def)
  then show ?thesis using lv by (simp add: grant_block_def Let_def update_holder_def)
qed

lemma nothing_to_give_inv:
  assumes "dp_inv log d" shows "dp_inv log (fst (nothing_to_give h accept d))"
  using assms update_holder_inv [OF assms, of h "\<lambda>lv. lv\<lparr>lv_waiting := True\<rparr>"]
  by (simp add: nothing_to_give_def split: option.split)

text \<open>The states of a claim between its two phases: returned spans in hand, then fresh ones.\<close>

lemma claim_new_inv:
  assumes inv: "dp_inv log d" and lv: "dict_get (dp_live d) h = Some lv"
    and c: "claim_new h wanted d = (d', r)" and room: "roomy d'"
  shows "dp_inv log d'"
proof (cases "wanted = 0 \<or> wanted > dc_max_block (dp_cfg d)")
  case True
  then show ?thesis using c inv by (auto simp: claim_new_def)
next
  case False
  obtain need returned ss where q: "take_queues (lv_accept lv) wanted (dp_streams d) = (need, returned, ss)" by (metis prod_cases3)
  define d1 where "d1 = d\<lparr>dp_streams := ss\<rparr>"
  define L where "L = pick_fresh (lv_accept lv) need d1"
  obtain d2 spans where f: "fold give_fresh L (d1, returned) = (d2, spans)" by fastforce
  have acc: "\<forall>s \<in> set (lv_accept lv). s < length (dp_streams d)" using inv lv by (auto simp: dp_inv_def live_ok_def)
  have t: "queue_pos (dp_streams d) = spans_pos returned + queue_pos ss" "spans_ok returned"
      "\<forall>st \<in> set ss. spans_ok (ss_queue st)" "map ss_next ss = map ss_next (dp_streams d)"
    using take_queues_pos [OF q acc] inv by (auto simp: dp_inv_def queues_ok_def)
  have len: "length ss = length (dp_streams d)" using map_eq_imp_length_eq [OF t(4)] .
  have c1: "conserved log (spans_pos returned) d1"
    using inv t(1) given_set_next [OF t(4)] by (simp add: dp_inv_def conserved_def d1_def ac_simps)
  have ok1: "blocks_ok d1" "live_ok d1" "data_ok d1" "queues_ok d1"
    using inv t len by (auto simp: dp_inv_def d1_def live_ok_def data_ok_def queues_ok_def)
  have L: "\<forall>x \<in> set L. fst x < length (dp_streams d1) \<and> 0 < snd x"
    using pick_fresh_ok [of "lv_accept lv" d1 _ _ need] acc len unfolding L_def d1_def by fastforce
  note nx = give_fresh_nexts [OF f]
  have fr: "dp_blocks d2 = dp_blocks d1" "dp_live d2 = dp_live d1" "dp_data d2 = dp_data d1" "dp_next_block d2 = dp_next_block d1"
    "map ss_queue (dp_streams d2) = map ss_queue (dp_streams d1)" "length (dp_streams d2) = length (dp_streams d1)"
    using nx L pick_fresh_distinct unfolding L_def by auto
  have ok2: "blocks_ok d2" "live_ok d2" "data_ok d2"
    using ok1 fr unfolding blocks_ok_def live_ok_def data_ok_def by (simp, simp, auto)
  have "queues_ok x \<longleftrightarrow> (\<forall>q \<in> set (map ss_queue (dp_streams x)). spans_ok q)" for x by (simp add: queues_ok_def)
  then have ok2q: "queues_ok d2" using ok1(4) fr(5) by (simp del: set_map)
  have d': "d' = fst (if spans = [] then nothing_to_give h (lv_accept lv) d2 else grant_block h spans d2)"
    using c False lv q f by (auto simp: claim_new_def Let_def d1_def L_def split: prod.splits)
  have keep: "dp_streams d' = dp_streams d2"
    unfolding d' by (simp add: nothing_to_give_def grant_block_def Let_def split: option.split)
  have c2: "conserved log (spans_pos spans) d2 \<and> spans_ok spans"
    using give_fresh_conserved [OF f _ L _ c1 t(2)] room pick_fresh_distinct keep
    unfolding L_def roomy_def by auto
  show ?thesis
  proof (cases "spans = []")
    case True
    then have "dp_inv log d2" using c2 ok2 ok2q by (simp add: dp_inv_def)
    then show ?thesis unfolding d' using True nothing_to_give_inv by simp
  next
    case F: False
    have "dict_get (dp_live d2) h = Some lv" using fr(2) lv by (simp add: d1_def)
    then show ?thesis unfolding d' using F grant_block_inv [OF _ _ ok2 ok2q] c2 by simp
  qed
qed

end
