(* ===== verification/Dispense_Reports.thy ===== *)
theory Dispense_Reports
  imports Dispense_Claims
begin

text \<open>
  The invariant of positions through reports: entries are staged on copies of the blocks, settled
  one by one, and committed; released and requeued spans go back to the front of the queues.
\<close>

section \<open>Staging\<close>

definition removed_pos :: "(report_entry \<times> span list) list \<Rightarrow> nat multiset" where
  "removed_pos removed = sum_list (map (\<lambda>(e, sp). spans_pos sp) removed)"

definition staged_ok :: "holder \<Rightarrow> dispenser \<Rightarrow> (nat, block) dict \<Rightarrow> bool" where
  "staged_ok h d staged \<longleftrightarrow> bt_ok staged \<and> once (blocks_pos (overlay staged (dp_blocks d)))
     \<and> (\<forall>i b. dict_get (overlay staged (dp_blocks d)) i = Some b \<longrightarrow> open_ok (bl_open b))
     \<and> (\<forall>i b. dict_get staged i = Some b \<longrightarrow> bl_holder b = h \<and> (\<exists>b0. dict_get (dp_blocks d) i = Some b0 \<and> bl_holder b0 = h))"

lemma blocks_pos_replace:
  assumes "bt_ok bs" "dict_get bs i = Some b"
  shows "blocks_pos (bt_insert i b' bs) + open_pos (bl_open b) = blocks_pos bs + open_pos (bl_open b')"
  unfolding blocks_pos_def using sum_list_bt_old [OF assms, of "\<lambda>(i, b). open_pos (bl_open b)" b'] by (simp add: ac_simps)

lemma blocks_pos_member: "bt_ok bs \<Longrightarrow> dict_get bs i = Some b \<Longrightarrow> \<exists>M. blocks_pos bs = open_pos (bl_open b) + M"
  unfolding blocks_pos_def using sum_list_pop [OF bt_ok_dict, of bs i b "\<lambda>(i, b). open_pos (bl_open b)"]
  by (auto intro: exI [of _ "sum_list (map (\<lambda>(i, b). open_pos (bl_open b)) (dict_pop i bs))"])

lemma stage_entries_pos:
  assumes "stage_entries h d es staged = Inr (staged', removed)" "staged_ok h d staged" "bt_ok (dp_blocks d)"
  shows "staged_ok h d staged' \<and> (\<forall>(e, sp) \<in> set removed. spans_ok sp \<and> spans_pos sp = ranges_pos (re_ranges e))
    \<and> blocks_pos (overlay staged (dp_blocks d)) = blocks_pos (overlay staged' (dp_blocks d)) + removed_pos removed
    \<and> map fst removed = es"
  using assms
proof (induction es arbitrary: staged removed)
  case Nil
  then show ?case by (simp add: removed_pos_def)
next
  case (Cons e es)
  obtain b op spans rem where b: "staged_block h d staged (re_block e) = Some b"
      "take_ranges (re_ranges e) (bl_open b) = Inr (op, spans)" "removed = (e, spans) # rem"
      "stage_entries h d es (bt_insert (re_block e) (b\<lparr>bl_open := op\<rparr>) staged) = Inr (staged', rem)"
    using Cons.prems(1) by (auto simp: rbind_Inr_iff split: option.splits sum.splits)
  let ?i = "re_block e" let ?b = "b\<lparr>bl_open := op\<rparr>" let ?ov = "overlay staged (dp_blocks d)"
  have st: "bt_ok staged" using Cons.prems(2) by (simp add: staged_ok_def)
  have ov: "bt_ok ?ov" by (rule overlay_ok [OF Cons.prems(3)])
  have get: "dict_get ?ov ?i = Some b"
    using b(1) overlay_get [OF bt_ok_dict [OF st]] by (auto simp: staged_block_def split: option.splits if_splits)
  have own: "bl_holder b = h \<and> (\<exists>b0. dict_get (dp_blocks d) ?i = Some b0 \<and> bl_holder b0 = h)"
    using b(1) Cons.prems(2) by (auto simp: staged_block_def staged_ok_def split: option.splits if_splits)
  obtain M where M: "blocks_pos ?ov = open_pos (bl_open b) + M" using blocks_pos_member [OF ov get] by blast
  have "open_ok (bl_open b)" "once (open_pos (bl_open b))"
    using Cons.prems(2) get M once_add by (auto simp: staged_ok_def)
  then have t: "spans_ok spans" "spans_pos spans = ranges_pos (re_ranges e)" "open_ok op"
      "open_pos (bl_open b) = open_pos op + ranges_pos (re_ranges e)"
    using take_ranges_pos [OF b(2)] by auto
  have ins: "overlay (bt_insert ?i ?b staged) (dp_blocks d) = bt_insert ?i ?b ?ov"
    by (rule overlay_insert [OF st Cons.prems(3)])
  have pos: "blocks_pos ?ov = blocks_pos (bt_insert ?i ?b ?ov) + spans_pos spans"
    using blocks_pos_replace [OF ov get, of ?b] t(2,4) by simp
  have "staged_ok h d (bt_insert ?i ?b staged)"
    unfolding staged_ok_def ins
  proof (intro conjI allI impI)
    show "once (blocks_pos (bt_insert ?i ?b ?ov))" using Cons.prems(2) pos once_add unfolding staged_ok_def by metis
    show "bl_holder x = h" "\<exists>b0. dict_get (dp_blocks d) i = Some b0 \<and> bl_holder b0 = h"
      if "dict_get (bt_insert ?i ?b staged) i = Some x" for i x
      using that own Cons.prems(2) by (auto simp: staged_ok_def split: if_splits)
    show "open_ok (bl_open x)" if "dict_get (bt_insert ?i ?b ?ov) i = Some x" for i x
      using that t(3) Cons.prems(2) by (auto simp: staged_ok_def split: if_splits)
  qed (use st in simp)
  from Cons.IH [OF b(4) this Cons.prems(3)] show ?case
    using pos t(1,2) b(3) unfolding ins by (auto simp: removed_pos_def ac_simps)
qed

section \<open>Settling\<close>

definition books :: "totals \<Rightarrow> nat" where
  "books t = tt_trained t + tt_dropped t + tt_exhausted t"

text \<open>States that agree on everything but the totals and the log.\<close>

definition same_core :: "dispenser \<Rightarrow> dispenser \<Rightarrow> bool" where
  "same_core d d' \<longleftrightarrow> dp_streams d' = dp_streams d \<and> dp_blocks d' = dp_blocks d \<and> dp_live d' = dp_live d \<and> dp_data d' = dp_data d
     \<and> dp_next_block d' = dp_next_block d \<and> dp_cfg d' = dp_cfg d \<and> dp_members d' = dp_members d"

lemma size_sp_pos [simp]: "size (sp_pos sp) = sp_len sp"
  by (simp add: sp_pos_def range_pos_def span_range_def sp_len_def)

lemma size_spans_pos: "size (spans_pos L) = sum_list (map sp_len L)"
  by (induction L) auto

lemma requeue_fold:
  assumes "fold requeue_span spans ((d, t, front), ex) = ((d', t', front'), ex')" "spans_ok spans" "spans_ok front"
  shows "spans_pos front' + ranges_pos ex' = spans_pos front + ranges_pos ex + spans_pos spans \<and> spans_ok front'
    \<and> same_core d d' \<and> dp_events d' = dp_events d
    \<and> books (dp_totals d') + size (ranges_pos ex) = books (dp_totals d) + size (ranges_pos ex')"
  using assms
proof (induction spans arbitrary: d t front ex)
  case Nil
  then show ?case by (simp add: same_core_def)
next
  case (Cons sp spans)
  obtain d1 t1 front1 ex1 where 1: "requeue_span sp ((d, t, front), ex) = ((d1, t1, front1), ex1)"
    by (metis prod_cases4 surj_pair)
  have step: "spans_pos front1 + ranges_pos ex1 = spans_pos front + ranges_pos ex + sp_pos sp" "spans_ok front1"
    "same_core d d1" "dp_events d1 = dp_events d"
    "books (dp_totals d1) + size (ranges_pos ex) = books (dp_totals d) + size (ranges_pos ex1)"
    using 1 Cons.prems(2,3) size_sp_pos [of sp]
    by (auto simp: requeue_span_def same_core_def books_def sp_pos_def span_range_def ac_simps split: if_splits)
  have "fold requeue_span spans ((d1, t1, front1), ex1) = ((d', t', front'), ex')" using Cons.prems(1) 1 by simp
  from Cons.IH [OF this] Cons.prems(2) step show ?case by (auto simp: same_core_def ac_simps)
qed

lemma settle_entry_step:
  assumes s: "settle_entry h (e, spans) (d, t, front) = (d', t', front')" and sp: "spans_ok spans" "spans_ok front"
    and pos: "spans_pos spans = ranges_pos (re_ranges e)"
  shows "settled (dp_events d') + spans_pos front' = settled (dp_events d) + spans_pos front + spans_pos spans"
    and "spans_ok front'" and "same_core d d'"
    and "books (dp_totals d') + size (settled (dp_events d)) = books (dp_totals d) + size (settled (dp_events d'))"
proof -
  let ?n = "sum_list (map sp_len spans)"
  obtain d1 t1 front1 ex where k: "settle_kind (re_kind e) ?n spans (d, t\<lparr>rt_settled := rt_settled t + ?n\<rparr>, front) = ((d1, t1, front1), ex)"
    by (metis prod_cases4 surj_pair)
  have d': "d' = dp_log (EvReport h (re_block e) (re_kind e) (re_ranges e) ex) d1" "front' = front1"
    using s k by (auto simp: settle_entry_def Let_def)
  let ?new = "settled_pos (EvReport h (re_block e) (re_kind e) (re_ranges e) ex)"
  have n: "size (ranges_pos (re_ranges e)) = ?n" using size_spans_pos [of spans] pos by simp
  have core: "?new + spans_pos front1 = spans_pos front + spans_pos spans \<and> spans_ok front1 \<and> same_core d d1
      \<and> dp_events d1 = dp_events d \<and> books (dp_totals d1) = books (dp_totals d) + size ?new"
  proof (cases "re_kind e")
    case Requeue
    then have "fold requeue_span spans ((d, t\<lparr>rt_settled := rt_settled t + ?n\<rparr>, front), []) = ((d1, t1, front1), ex)"
      using k by (simp add: settle_kind_def Let_def)
    from requeue_fold [OF this sp] show ?thesis using Requeue by (simp add: settled_pos_def ac_simps)
  qed (use k sp pos n in \<open>auto simp: settle_kind_def Let_def settled_pos_def same_core_def books_def\<close>)
  then show "settled (dp_events d') + spans_pos front' = settled (dp_events d) + spans_pos front + spans_pos spans"
    "spans_ok front'" "same_core d d'"
    "books (dp_totals d') + size (settled (dp_events d)) = books (dp_totals d) + size (settled (dp_events d'))"
    unfolding d' by (auto simp: dp_log_def same_core_def ac_simps)
qed

lemma settle_fold:
  assumes "fold (settle_entry h) removed (d, t, front) = (d', t', front')" "spans_ok front"
    and "\<forall>(e, sp) \<in> set removed. spans_ok sp \<and> spans_pos sp = ranges_pos (re_ranges e)"
  shows "settled (dp_events d') + spans_pos front' = settled (dp_events d) + spans_pos front + removed_pos removed
    \<and> spans_ok front' \<and> same_core d d'
    \<and> books (dp_totals d') + size (settled (dp_events d)) = books (dp_totals d) + size (settled (dp_events d'))"
  using assms
proof (induction removed arbitrary: d t front)
  case Nil
  then show ?case by (simp add: same_core_def removed_pos_def)
next
  case (Cons x removed)
  obtain e sp where x: "x = (e, sp)" by (cases x)
  obtain d1 t1 front1 where 1: "settle_entry h (e, sp) (d, t, front) = (d1, t1, front1)" by (metis prod_cases3)
  have "spans_ok sp" "spans_pos sp = ranges_pos (re_ranges e)" using Cons.prems(3) x by auto
  note st = settle_entry_step [OF 1 this(1) Cons.prems(2) this(2)]
  have "fold (settle_entry h) removed (d1, t1, front1) = (d', t', front')" using Cons.prems(1) x 1 by simp
  from Cons.IH [OF this st(2)] Cons.prems(3) x st show ?case
    by (auto simp: same_core_def removed_pos_def ac_simps)
qed

section \<open>Committing\<close>

lemma commit_block_simps:
  "dp_streams (commit_block h x d) = dp_streams d" "dp_data (commit_block h x d) = dp_data d"
  "dp_cfg (commit_block h x d) = dp_cfg d" "dp_next_block (commit_block h x d) = dp_next_block d"
  "dp_totals (commit_block h x d) = dp_totals d" "dp_members (commit_block h x d) = dp_members d"
  "settled (dp_events (commit_block h x d)) = settled (dp_events d)"
  by (auto simp: commit_block_def dp_log_def split: prod.split)

lemma commit_frame:
  "dp_streams (fold (commit_block h) L d) = dp_streams d \<and> dp_data (fold (commit_block h) L d) = dp_data d
    \<and> dp_cfg (fold (commit_block h) L d) = dp_cfg d \<and> dp_next_block (fold (commit_block h) L d) = dp_next_block d
    \<and> dp_totals (fold (commit_block h) L d) = dp_totals d \<and> dp_members (fold (commit_block h) L d) = dp_members d
    \<and> settled (dp_events (fold (commit_block h) L d)) = settled (dp_events d)"
  by (induction L arbitrary: d) (simp_all add: commit_block_simps)

lemma commit_get:
  assumes "dict_ok L" "bt_ok (dp_blocks d)"
  shows "bt_ok (dp_blocks (fold (commit_block h) L d)) \<and> dict_get (dp_blocks (fold (commit_block h) L d)) k =
    (case dict_get L k of Some b \<Rightarrow> if bl_open b = [] then None else Some b | None \<Rightarrow> dict_get (dp_blocks d) k)"
  using assms
proof (induction L arbitrary: d)
  case (Cons x L)
  obtain i b where x: "x = (i, b)" by (cases x)
  have b1: "dp_blocks (commit_block h (i, b) d) = (if bl_open b = [] then dict_pop i (dp_blocks d) else bt_insert i b (dp_blocks d))"
    by (simp add: commit_block_def)
  have "dict_get L i = None" "dict_ok L" using Cons.prems(1) x by (auto simp: dict_ok_def map_of_eq_None_iff)
  then show ?case using Cons.IH [of "commit_block h (i, b) d"] Cons.prems(2) x b1 by (auto split: option.split)
qed simp

lemma commit_live:
  assumes "bt_ok (dp_live d)" "dict_get (dp_live d) h = Some lv"
  shows "bt_ok (dp_live (fold (commit_block h) L d))
    \<and> (\<forall>k. k \<noteq> h \<longrightarrow> dict_get (dp_live (fold (commit_block h) L d)) k = dict_get (dp_live d) k)
    \<and> (\<exists>lv'. dict_get (dp_live (fold (commit_block h) L d)) h = Some lv' \<and> lv_accept lv' = lv_accept lv
        \<and> (\<forall>i \<in> set (lv_blocks lv). (\<forall>b. (i, b) \<in> set L \<longrightarrow> bl_open b \<noteq> []) \<longrightarrow> i \<in> set (lv_blocks lv')))"
  using assms
proof (induction L arbitrary: d lv)
  case (Cons x L)
  obtain i b where x: "x = (i, b)" by (cases x)
  let ?d = "commit_block h (i, b) d"
  have "bt_ok (dp_live ?d)" using Cons.prems by (auto simp: commit_block_def update_holder_def)
  moreover have "dict_get (dp_live ?d) h = Some (if bl_open b = [] then lv\<lparr>lv_blocks := removeAll i (lv_blocks lv)\<rparr> else lv)"
    "\<forall>k. k \<noteq> h \<longrightarrow> dict_get (dp_live ?d) k = dict_get (dp_live d) k"
    using Cons.prems(2) by (auto simp: commit_block_def update_holder_def)
  ultimately show ?case
    using Cons.IH [of ?d "if bl_open b = [] then lv\<lparr>lv_blocks := removeAll i (lv_blocks lv)\<rparr> else lv"] x
    by (auto split: if_splits)
qed auto

lemma blocks_pos_filter:
  "\<forall>x \<in> set bs. \<not> P x \<longrightarrow> bl_open (snd x) = [] \<Longrightarrow> blocks_pos (filter P bs) = blocks_pos bs"
  by (induction bs) (auto simp: blocks_pos_def open_pos_def)

lemma commit_pos:
  assumes "bt_ok staged" "bt_ok (dp_blocks d)"
  shows "blocks_pos (dp_blocks (fold (commit_block h) staged d)) = blocks_pos (overlay staged (dp_blocks d))"
proof -
  let ?P = "\<lambda>(i, b). \<not> (bl_open b = [] \<and> dict_get staged i \<noteq> None)"
  let ?ov = "overlay staged (dp_blocks d)"
  have ov: "bt_ok ?ov" by (rule overlay_ok [OF assms(2)])
  have "dp_blocks (fold (commit_block h) staged d) = filter ?P ?ov"
  proof (rule bt_ext)
    show "bt_ok (dp_blocks (fold (commit_block h) staged d))" using commit_get [OF bt_ok_dict [OF assms(1)] assms(2)] by blast
    show "bt_ok (filter ?P ?ov)" by (rule filter_bt_ok [OF ov])
    show "dict_get (dp_blocks (fold (commit_block h) staged d)) k = dict_get (filter ?P ?ov) k" for k
      using commit_get [OF bt_ok_dict [OF assms(1)] assms(2), of h k] overlay_get [OF bt_ok_dict [OF assms(1)], of "dp_blocks d" k]
      by (auto simp: filter_get [OF bt_ok_dict [OF ov]] split: option.splits)
  qed
  moreover have "\<forall>x \<in> set ?ov. \<not> ?P x \<longrightarrow> bl_open (snd x) = []" by auto
  ultimately show ?thesis using blocks_pos_filter [of ?ov ?P] by simp
qed

lemma report_new_inv:
  assumes inv: "dp_inv log d" and lv: "dict_get (dp_live d) h = Some lv" and r: "report_new h entries d = (d', res)"
  shows "dp_inv log d' \<and> map ss_next (dp_streams d') = map ss_next (dp_streams d)
    \<and> books (dp_totals d') + size (settled (dp_events d)) = books (dp_totals d) + size (settled (dp_events d'))"
proof (cases "stage_entries h d entries []")
  case (Inl e)
  then show ?thesis using r inv by (auto simp: report_new_def)
next
  case (Inr x)
  obtain staged removed where x: "x = (staged, removed)" by (cases x)
  have bs: "bt_ok (dp_blocks d)" using inv by (simp add: dp_inv_def blocks_ok_def)
  have ov0: "overlay [] (dp_blocks d) = dp_blocks d" by (simp add: overlay_def)
  have "once (blocks_pos (dp_blocks d))" using inv conserved_once once_add unfolding dp_inv_def by metis
  then have "staged_ok h d []" using inv by (auto simp: staged_ok_def ov0 bt_ok_def dp_inv_def blocks_ok_def)
  from stage_entries_pos [OF Inr [unfolded x] this bs]
  have st: "staged_ok h d staged" "\<forall>(e, sp) \<in> set removed. spans_ok sp \<and> spans_pos sp = ranges_pos (re_ranges e)"
    "blocks_pos (dp_blocks d) = blocks_pos (overlay staged (dp_blocks d)) + removed_pos removed"
    unfolding ov0 by auto
  obtain d1 t front where f: "fold (settle_entry h) removed (d, \<lparr>rt_settled = 0, rt_requeued = 0, rt_exhausted = 0\<rparr>, []) = (d1, t, front)"
    by (metis prod_cases3)
  have se: "settled (dp_events d1) + spans_pos front = settled (dp_events d) + removed_pos removed" "spans_ok front" "same_core d d1"
    "books (dp_totals d1) + size (settled (dp_events d)) = books (dp_totals d) + size (settled (dp_events d1))"
    using settle_fold [OF f _ st(2)] by auto
  define d2 where "d2 = fold (commit_block h) staged d1"
  have d': "d' = push_front front d2" using r Inr x f by (auto simp: report_new_def Let_def d2_def)
  have core: "dp_streams d1 = dp_streams d" "dp_blocks d1 = dp_blocks d" "dp_live d1 = dp_live d" "dp_data d1 = dp_data d"
    "dp_next_block d1 = dp_next_block d" using se(3) by (auto simp: same_core_def)
  have sto: "bt_ok staged" using st(1) by (simp add: staged_ok_def)
  have fr: "dp_streams d2 = dp_streams d" "dp_data d2 = dp_data d" "dp_next_block d2 = dp_next_block d"
    "dp_totals d2 = dp_totals d1" "settled (dp_events d2) = settled (dp_events d1)"
    using commit_frame [of h staged d1] core unfolding d2_def by auto
  have bp: "blocks_pos (dp_blocks d2) = blocks_pos (overlay staged (dp_blocks d))"
    using commit_pos [OF sto, of d1 h] bs core unfolding d2_def by simp
  have c2: "conserved log (spans_pos front + {#}) d2"
  proof -
    let ?rest = "settled log + queue_pos (dp_streams d) + blocks_pos (overlay staged (dp_blocks d))"
    have "settled (log @ dp_events d2) + queue_pos (dp_streams d2) + blocks_pos (dp_blocks d2) + (spans_pos front + {#})
        = ?rest + (settled (dp_events d1) + spans_pos front)" using fr bp by (simp add: ac_simps)
    also have "\<dots> = ?rest + (settled (dp_events d) + removed_pos removed)" using se(1) by simp
    also have "\<dots> = mset_set (given_set (dp_streams d2))"
      using inv st(3) fr(1) by (simp add: dp_inv_def conserved_def ac_simps)
    finally show ?thesis by (simp add: conserved_def)
  qed
  have gl: "bt_ok (dp_live d2)" "\<forall>k. k \<noteq> h \<longrightarrow> dict_get (dp_live d2) k = dict_get (dp_live d) k"
    using commit_live [of d1 h lv staged] inv lv core unfolding d2_def by (auto simp: dp_inv_def live_ok_def)
  obtain lv' where lv': "dict_get (dp_live d2) h = Some lv'" "lv_accept lv' = lv_accept lv"
      "\<forall>i \<in> set (lv_blocks lv). (\<forall>b. (i, b) \<in> set staged \<longrightarrow> bl_open b \<noteq> []) \<longrightarrow> i \<in> set (lv_blocks lv')"
    using commit_live [of d1 h lv staged] inv lv core unfolding d2_def by (auto simp: dp_inv_def live_ok_def)
  have getb: "dict_get (dp_blocks d2) k = (case dict_get staged k of Some b \<Rightarrow> if bl_open b = [] then None else Some b
      | None \<Rightarrow> dict_get (dp_blocks d) k)" and btb: "bt_ok (dp_blocks d2)" for k
    using commit_get [OF bt_ok_dict [OF sto], of d1 h k] bs unfolding d2_def core by auto
  have b2: "blocks_ok d2" unfolding blocks_ok_def
  proof (intro conjI allI impI)
    show "bt_ok (dp_blocks d2)" by (rule btb)
    fix i b assume i: "dict_get (dp_blocks d2) i = Some b"
    have base: "\<And>i b0. dict_get (dp_blocks d) i = Some b0 \<Longrightarrow> open_ok (bl_open b0) \<and> i < dp_next_block d
        \<and> (\<exists>l. dict_get (dp_live d) (bl_holder b0) = Some l \<and> i \<in> set (lv_blocks l))"
      using inv by (auto simp: dp_inv_def blocks_ok_def)
    have "open_ok (bl_open b) \<and> i < dp_next_block d2 \<and> (\<exists>l. dict_get (dp_live d2) (bl_holder b) = Some l \<and> i \<in> set (lv_blocks l))"
    proof (cases "dict_get staged i")
      case None
      then have i0: "dict_get (dp_blocks d) i = Some b" using i getb by simp
      have ns: "\<forall>b. (i, b) \<in> set staged \<longrightarrow> bl_open b \<noteq> []" using None dict_item_get [OF bt_ok_dict [OF sto]] by force
      show ?thesis
      proof (cases "bl_holder b = h")
        case True
        then show ?thesis using base [OF i0] lv lv' ns fr(3) by auto
      next
        case False
        then show ?thesis using base [OF i0] gl(2) fr(3) by auto
      qed
    next
      case (Some b1)
      then have b1: "b = b1" "bl_open b1 \<noteq> []" using i getb by (auto split: if_splits)
      have "dict_get (overlay staged (dp_blocks d)) i = Some b1" using overlay_get [OF bt_ok_dict [OF sto]] Some by simp
      then have "open_ok (bl_open b)" using st(1) b1 by (auto simp: staged_ok_def)
      moreover obtain b0 where "dict_get (dp_blocks d) i = Some b0" "bl_holder b0 = h" "bl_holder b = h"
        using st(1) Some b1 unfolding staged_ok_def by blast
      moreover have "\<forall>b. (i, b) \<in> set staged \<longrightarrow> bl_open b \<noteq> []"
        using Some b1 dict_item_get [OF bt_ok_dict [OF sto]] by force
      ultimately show ?thesis using base lv lv' fr(3) by fastforce
    qed
    then show "open_ok (bl_open b)" "i < dp_next_block d2"
      "\<exists>l. dict_get (dp_live d2) (bl_holder b) = Some l \<and> i \<in> set (lv_blocks l)" by auto
  qed
  have l2: "live_ok d2" unfolding live_ok_def
  proof (intro conjI allI impI)
    fix k l assume "dict_get (dp_live d2) k = Some l"
    then have "\<exists>l0. dict_get (dp_live d) k = Some l0 \<and> lv_accept l = lv_accept l0"
      using gl(2) lv lv' by (cases "k = h") auto
    then show "distinct (lv_accept l)" "\<forall>s \<in> set (lv_accept l). s < length (dp_streams d2)"
      using inv fr(1) by (auto simp: dp_inv_def live_ok_def)
  qed (rule gl(1))
  have "dp_live d \<noteq> []" using lv by auto
  then have q2: "data_ok d2" "queues_ok d2" using inv fr by (auto simp: dp_inv_def data_ok_def queues_ok_def)
  note pf = push_front_inv [OF c2 se(2)]
  show ?thesis unfolding d' using pf b2 l2 q2 push_front_ok [OF pf(3)] fr se(4) by (simp add: dp_inv_def)
qed

end
