(* ===== verification/Dispense_Props.thy ===== *)
theory Dispense_Props
  imports Dispense_Reports
begin

text \<open>
  Runs of the task dispenser and its promises: conservation of positions with the accounting that
  the code checks in its tests, exclusive holding and training at most once, fencing of retired
  holders, idempotent requests, and the end of a stream.
\<close>

section \<open>Requests\<close>

lemma require_live_cases:
  assumes "require_live h req now d = (d1, r)"
  obtains (live) "r = Inr ()" "dict_get (dp_live d) h \<noteq> None" "d1 = d\<lparr>dp_members := fst (mb_touch h now (dp_members d))\<rparr>"
  | (fenced) e where "r = Inl e" "d1 = dp_log (EvFenced h req) d"
  using assms by (auto simp: require_live_def split: if_splits)

lemma remember_inv: "dp_inv log d \<Longrightarrow> dp_inv log (remember h seq ans d)"
  unfolding remember_def by (rule update_holder_inv) simp_all

lemma remember_frame [simp]:
  "dp_streams (remember h seq ans d) = dp_streams d" "dp_blocks (remember h seq ans d) = dp_blocks d"
  "dp_events (remember h seq ans d) = dp_events d" "dp_members (remember h seq ans d) = dp_members d"
  "dp_totals (remember h seq ans d) = dp_totals d"
  by (simp_all add: remember_def)

lemma dp_claim_cases:
  assumes "dp_claim h seq wanted now d = (d', r)"
  obtains (fenced) e where "d' = dp_log (EvFenced h ''claim'') d" "r = Inl e"
  | (old) "d' = d\<lparr>dp_members := fst (mb_touch h now (dp_members d))\<rparr>"
  | (new) lv d1 r1 where "dict_get (dp_live d) h = Some lv"
      "claim_new h wanted (d\<lparr>dp_members := fst (mb_touch h now (dp_members d))\<rparr>) = (d1, r1)"
      "d' = (case r1 of Inl e \<Rightarrow> d1 | Inr c \<Rightarrow> remember h seq (AnsClaim c) d1)" "r = r1"
proof -
  obtain d1 q where q: "require_live h ''claim'' now d = (d1, q)" by fastforce
  from q show thesis
  proof (cases rule: require_live_cases)
    case live
    then obtain lv where "dict_get (dp_live d) h = Some lv" by auto
    then show thesis using assms q live new [of lv] old
      by (auto simp: dp_claim_def split: sum.splits option.splits answer.splits prod.splits)
  next
    case (fenced e)
    then show thesis using assms q that(1) by (auto simp: dp_claim_def)
  qed
qed

lemma dp_report_cases:
  assumes "dp_report h seq entries now d = (d', r)"
  obtains (fenced) e where "d' = dp_log (EvFenced h ''report'') d" "r = Inl e"
  | (old) "d' = d\<lparr>dp_members := fst (mb_touch h now (dp_members d))\<rparr>"
  | (new) lv d1 r1 where "dict_get (dp_live d) h = Some lv"
      "report_new h entries (d\<lparr>dp_members := fst (mb_touch h now (dp_members d))\<rparr>) = (d1, r1)"
      "d' = (case r1 of Inl e \<Rightarrow> d1 | Inr t \<Rightarrow> remember h seq (AnsReport t) d1)" "r = r1"
proof -
  obtain d1 q where q: "require_live h ''report'' now d = (d1, q)" by fastforce
  from q show thesis
  proof (cases rule: require_live_cases)
    case live
    then obtain lv where "dict_get (dp_live d) h = Some lv" by auto
    then show thesis using assms q live new [of lv] old
      by (auto simp: dp_report_def split: sum.splits option.splits answer.splits prod.splits)
  next
    case (fenced e)
    then show thesis using assms q that(1) by (auto simp: dp_report_def)
  qed
qed

lemma dp_claim_inv:
  assumes inv: "dp_inv log d" and c: "dp_claim h seq wanted now d = (d', r)" and room: "roomy d'"
  shows "dp_inv log d'"
  using c
proof (cases rule: dp_claim_cases)
  case (new lv d1 r1)
  have "roomy d1" using room new(3) by (simp add: roomy_def split: sum.splits)
  from claim_new_inv [OF _ _ new(2) this] new inv have "dp_inv log d1" by simp
  then show ?thesis using new(3) remember_inv by (simp split: sum.split)
qed (use inv in simp_all)

lemma dp_report_inv:
  assumes inv: "dp_inv log d" and c: "dp_report h seq entries now d = (d', r)"
  shows "dp_inv log d' \<and> books (dp_totals d') + size (settled (dp_events d)) = books (dp_totals d) + size (settled (dp_events d'))"
  using c
proof (cases rule: dp_report_cases)
  case (new lv d1 r1)
  from report_new_inv [OF _ _ new(2), of log lv] new inv
  have "dp_inv log d1 \<and> books (dp_totals d1) + size (settled (dp_events d)) = books (dp_totals d) + size (settled (dp_events d1))"
    by simp
  then show ?thesis using new(3) remember_inv by (simp split: sum.split)
next
  case (fenced e)
  have "settled (dp_events (dp_log (EvFenced h ''report'') d)) = settled (dp_events d)" by (simp add: dp_log_def)
  then show ?thesis using inv fenced by simp
qed (use inv in simp)

section \<open>Books and members\<close>

text \<open>
  What every operation but a report keeps: the settled positions and their counters; and that the
  member table only goes through its own operations.
\<close>

definition same_books :: "dispenser \<Rightarrow> dispenser \<Rightarrow> bool" where
  "same_books d d' \<longleftrightarrow> books (dp_totals d') = books (dp_totals d) \<and> settled (dp_events d') = settled (dp_events d)
     \<and> (mbrun (dp_members d) \<longrightarrow> mbrun (dp_members d'))"

lemma same_books_trans: "same_books d d1 \<Longrightarrow> same_books d1 d2 \<Longrightarrow> same_books d d2"
  by (simp add: same_books_def)

lemma same_books_refl [simp]: "same_books d d"
  by (simp add: same_books_def)

lemma same_books_log [simp]: "settled_pos e = {#} \<Longrightarrow> same_books d (dp_log e d)"
  by (simp add: same_books_def dp_log_def)

lemma same_books_reclaim: "same_books d (fst (reclaim h reason d))"
proof (cases "dict_get (dp_live d) h")
  case (Some lv)
  have "mbrun (dp_members d) \<Longrightarrow> mbrun (mb_retire h r (dp_members d))" for r by (rule mb_step [OF _ mb_retire_step])
  then show ?thesis using Some
    by (simp add: reclaim_def Let_def same_books_def case_prod_beta books_def dp_retire_def)
      (simp add: dp_log_def)
qed (simp add: reclaim_def)

lemma same_books_supersede: "same_books d (fst (fold supersede older (d, p, n)))"
proof (induction older arbitrary: d p n)
  case (Cons old older)
  show ?case using same_books_trans [OF same_books_reclaim [of d old ReclaimSuperseded] Cons.IH]
    by (simp add: supersede_def case_prod_beta)
qed simp

lemma same_books_members: "(mbrun (dp_members d) \<Longrightarrow> mbrun mb) \<Longrightarrow> same_books d (d\<lparr>dp_members := mb\<rparr>)"
  by (simp add: same_books_def)

lemma mbrun_touch: "mbrun mb \<Longrightarrow> mbrun (fst (mb_touch h now mb))"
  by (rule mb_step [OF _ mb_touch_step])

lemma same_books_live: "same_books d (d\<lparr>dp_live := x\<rparr>)" "same_books d (update_holder h f d)"
  by (simp_all add: same_books_def)

lemma same_books_admit:
  assumes "\<not> mb_is_retired (dp_members d) h" shows "same_books d (fst (admit_holder h dd acc now d))"
proof (cases "dict_get (dp_live d) h")
  case None
  define d1 where "d1 = d\<lparr>dp_members := fst (mb_join h now (dp_members d))\<rparr>"
  define older where "older = filter (\<lambda>k. h_learner k = h_learner h \<and> k \<noteq> h) (map fst (dp_live d))"
  obtain d2 p n where d2: "fold supersede older (d1, None, 0) = (d2, p, n)" by (metis prod_cases3)
  have "same_books d d1" unfolding d1_def
    by (rule same_books_members) (rule mb_step [OF _ mb_join_step [OF assms]])
  moreover have "same_books d1 d2" using same_books_supersede [of d1 older None 0] d2 by simp
  ultimately have "same_books d d2" by (rule same_books_trans)
  then have "same_books d (dp_log e (d2\<lparr>dp_live := x\<rparr>))" if "settled_pos e = {#}" for e x
    using same_books_trans [OF _ same_books_trans [OF same_books_live(1) same_books_log]] that by blast
  then show ?thesis using None d2
    by (simp add: admit_holder_def Let_def d1_def [symmetric]) (simp add: d1_def older_def [symmetric])
next
  case (Some lv)
  have "same_books d (d\<lparr>dp_members := fst (mb_touch h now (dp_members d)), dp_live := x\<rparr>)" for x
    using same_books_trans [OF same_books_members same_books_live(1)] mbrun_touch by blast
  then show ?thesis using Some same_books_trans [OF _ same_books_log] by (simp add: admit_holder_def Let_def)
qed

lemma same_books_open: "same_books d (fst (open_with h dd accept now d))"
proof -
  have fix1: "same_books d (fix_data dd d)" "dp_members (fix_data dd d) = dp_members d"
    by (simp_all add: fix_data_def Let_def same_books_def dp_log_def)
  then show ?thesis using same_books_admit [of d h dd _ now] same_books_trans [OF fix1(1) same_books_admit]
    by (auto simp: open_with_def Let_def split: sum.split option.split)
qed

lemma same_books_require: "same_books d (fst (require_live h req now d))"
  by (auto simp: require_live_def intro: same_books_members mbrun_touch)

lemma same_books_expire: "same_books d (fst (dp_expire now d))"
proof -
  have f: "same_books d (fst (fold (\<lambda>(h, reason) (d, gone).
           case reason of Some Superseded \<Rightarrow> (fst (reclaim h ReclaimSuperseded d), gone)
           | _ \<Rightarrow> (fst (reclaim h ReclaimExpired d), gone @ [h])) L (d, g)))" for L d g
  proof (induction L arbitrary: d g)
    case (Cons x L)
    obtain h reason where x: "x = (h, reason)" by (cases x)
    obtain d1 g1 where 1: "(case reason of Some Superseded \<Rightarrow> (fst (reclaim h ReclaimSuperseded d), g)
           | _ \<Rightarrow> (fst (reclaim h ReclaimExpired d), g @ [h])) = (d1, g1)" by fastforce
    have "same_books d d1" using 1 same_books_reclaim by (auto split: option.splits retired.splits)
    then show ?case using same_books_trans Cons.IH [of d1 g1] 1 x by simp
  qed simp
  have "same_books d (d\<lparr>dp_members := fst (mb_expire now (dp_members d))\<rparr>)"
    by (rule same_books_members) (rule mb_step [OF _ mb_expire_step])
  from same_books_trans [OF this f] show ?thesis by (simp add: dp_expire_def Let_def)
qed

lemma same_books_passes: "same_books d (fold (start_pass s) ks d)"
proof (induction ks arbitrary: d)
  case (Cons k ks)
  have "same_books d (start_pass s k d)" by (simp add: start_pass_def same_books_def dp_log_def)
  from same_books_trans [OF this Cons.IH] show ?case by simp
qed simp

lemma same_books_fresh: "same_books d (fst (fold give_fresh L (d, spans)))"
proof (induction L arbitrary: d spans)
  case (Cons x L)
  obtain s n where x: "x = (s, n)" by (cases x)
  have "same_books d (fst (give_fresh (s, n) (d, spans)))"
    using same_books_passes [of d s] by (simp add: give_fresh_def Let_def same_books_def)
  from same_books_trans [OF this Cons.IH] show ?case using x by (metis fold_simps(2) prod.collapse)
qed simp

lemma same_books_claim_new: "same_books d (fst (claim_new h wanted d))"
proof -
  have g: "same_books x (fst (grant_block h spans x))" "same_books x (fst (nothing_to_give h acc x))" for x spans acc
    by (simp_all add: grant_block_def nothing_to_give_def Let_def same_books_def books_def dp_log_def split: option.split)
  have s: "same_books d (d\<lparr>dp_streams := ss\<rparr>)" for ss by (simp add: same_books_def)
  let ?acc = "case dict_get (dp_live d) h of Some lv \<Rightarrow> lv_accept lv | None \<Rightarrow> []"
  obtain need returned ss where q: "take_queues ?acc wanted (dp_streams d) = (need, returned, ss)" by (metis prod_cases3)
  obtain x spans where f: "fold give_fresh (pick_fresh ?acc need (d\<lparr>dp_streams := ss\<rparr>)) (d\<lparr>dp_streams := ss\<rparr>, returned) = (x, spans)"
    by fastforce
  have "same_books d x" using same_books_trans [OF s [of ss] same_books_fresh] f by (metis fst_conv)
  then have "same_books d (fst (if spans = [] then nothing_to_give h ?acc x else grant_block h spans x))"
    using same_books_trans g by simp
  then show ?thesis using q f by (auto simp: claim_new_def Let_def case_prod_beta)
qed

lemma same_books_claim: "same_books d (fst (dp_claim h seq wanted now d))"
proof -
  obtain d' r where c: "dp_claim h seq wanted now d = (d', r)" by fastforce
  let ?d = "d\<lparr>dp_members := fst (mb_touch h now (dp_members d))\<rparr>"
  have t: "same_books d ?d" by (rule same_books_members [OF mbrun_touch])
  from c have "same_books d d'"
  proof (cases rule: dp_claim_cases)
    case (new lv d1 r1)
    have "same_books d d1" using same_books_trans [OF t same_books_claim_new] new(2) by (metis fst_conv)
    then show ?thesis using new(3) by (simp add: same_books_def split: sum.split)
  qed (use t in simp_all)
  then show ?thesis using c by simp
qed

section \<open>Runs\<close>

text \<open>
  A run is any interleaving of requests of the islands, expiry, and operations of the other
  services on the shared member table; \<open>log\<close> holds the events taken so far.  The runs considered
  are those in which no stream gives out its last position (number \<open>2 ^ 40\<close>), see \<open>stream_end_wraps\<close>.
\<close>

inductive dstep :: "dispenser \<Rightarrow> dispenser \<Rightarrow> bool" where
  d_open: "dstep d (fst (open_with h dd accept now d))"
| d_heartbeat: "dstep d (fst (dp_heartbeat h now d))"
| d_claim: "dstep d (fst (dp_claim h seq wanted now d))"
| d_report: "dstep d (fst (dp_report h seq entries now d))"
| d_expire: "dstep d (fst (dp_expire now d))"
| d_members: "mbstep (dp_members d) mb \<Longrightarrow> dstep d (d\<lparr>dp_members := mb\<rparr>)"

inductive drun :: "dispenser \<Rightarrow> dispense_event list \<Rightarrow> bool" where
  d_new: "mbrun mb \<Longrightarrow> drun (dispenser_with_members cfg mb) []"
| d_step: "drun d log \<Longrightarrow> dstep d d' \<Longrightarrow> roomy d' \<Longrightarrow> drun d' log"
| d_take: "drun d log \<Longrightarrow> take_events d = (d', evs) \<Longrightarrow> drun d' (log @ evs)"

lemma settle_members: "dp_members (fst (fold (settle_entry h) removed y)) = dp_members (fst y)"
proof (induction removed arbitrary: y)
  case (Cons z removed)
  obtain e sp d0 t front where zy: "z = (e, sp)" "y = (d0, t, front)" by (metis surj_pair prod_cases3)
  have rq: "dp_members (fst (fst (fold requeue_span sp w))) = dp_members (fst (fst w))" for sp w
    by (induction sp arbitrary: w) (auto simp: requeue_span_def split: prod.splits)
  have "dp_members (fst (settle_entry h (e, sp) (d0, t, front))) = dp_members d0"
    using rq by (auto simp: settle_entry_def settle_kind_def Let_def case_prod_beta split: report_kind.split)
  then show ?case using Cons.IH zy by simp
qed simp

lemma report_new_members: "dp_members (fst (report_new h entries d)) = dp_members d"
proof (cases "stage_entries h d entries []")
  case (Inr x)
  obtain staged removed where x: "x = (staged, removed)" by (cases x)
  have "dp_members (fold (commit_block h) staged y) = dp_members y" for y using commit_frame by blast
  then show ?thesis using Inr x settle_members by (simp add: report_new_def Let_def case_prod_beta)
qed (simp add: report_new_def)

lemma mbrun_report: "mbrun (dp_members d) \<Longrightarrow> mbrun (dp_members (fst (dp_report h seq entries now d)))"
proof -
  assume m: "mbrun (dp_members d)"
  obtain d' r where c: "dp_report h seq entries now d = (d', r)" by fastforce
  from c have "mbrun (dp_members d')"
  proof (cases rule: dp_report_cases)
    case (new lv d1 r1)
    have "dp_members d1 = fst (mb_touch h now (dp_members d))" using report_new_members new(2) by (metis fst_conv dispenser.select_convs(7) dispenser.update_convs(7) dispenser.surjective)
    then show ?thesis using new(3) m mbrun_touch by (simp split: sum.split)
  qed (use m mbrun_touch in auto)
  then show ?thesis using c by simp
qed

lemma dstep_inv:
  assumes "dstep d d'" "dp_inv log d" "roomy d'" "books (dp_totals d) = size (settled (log @ dp_events d))" "mbrun (dp_members d)"
  shows "dp_inv log d' \<and> books (dp_totals d') = size (settled (log @ dp_events d')) \<and> mbrun (dp_members d')"
  using assms
proof (cases rule: dstep.cases)
  case (d_open h dd accept now)
  then show ?thesis using assms same_books_open [of d h dd accept now] open_with_inv [of log d h dd accept now]
    by (simp add: same_books_def)
next
  case (d_heartbeat h now)
  then show ?thesis using assms same_books_require [of d h _ now] require_live_keeps [of log d h _ now]
    by (simp add: same_books_def keeps_def dp_heartbeat_def)
next
  case (d_claim h seq wanted now)
  then show ?thesis using assms same_books_claim [of d h seq wanted now] dp_claim_inv [of log d h seq wanted now d' "snd (dp_claim h seq wanted now d)"]
    by (simp add: same_books_def)
next
  case (d_report h seq entries now)
  then show ?thesis using assms mbrun_report [of d h seq entries now] dp_report_inv [of log d h seq entries now d' "snd (dp_report h seq entries now d)"]
    by simp
next
  case (d_expire now)
  then show ?thesis using assms same_books_expire [of d now] expire_keeps [of log d now]
    by (simp add: same_books_def keeps_def)
next
  case (d_members mb)
  then show ?thesis using assms mb_step by simp
qed

lemma dp_inv_new: "dp_inv [] (dispenser_with_members cfg mb)"
  by (simp add: dp_inv_def dp_inv_parts conserved_def dispenser_with_members_def given_set_def queue_pos_def blocks_pos_def bt_ok_def)

lemma drun_inv:
  "drun d log \<Longrightarrow> dp_inv log d \<and> books (dp_totals d) = size (settled (log @ dp_events d)) \<and> mbrun (dp_members d)"
proof (induction rule: drun.induct)
  case (d_new mb cfg)
  then show ?case using dp_inv_new
    by (simp add: dispenser_with_members_def zero_totals_def books_def)
next
  case (d_step d log d')
  then show ?case using dstep_inv by blast
next
  case (d_take d log d' evs)
  then show ?case by (auto simp: take_events_def dp_inv_def dp_inv_parts conserved_def)
qed

lemma drun_roomy: "drun d log \<Longrightarrow> roomy d"
  by (induction rule: drun.induct) (auto simp: dispenser_with_members_def roomy_def take_events_def)

lemma dp_inv_accept:
  "dp_inv log d \<Longrightarrow> dict_get (dp_live d) h = Some lv \<Longrightarrow>
     dp_data d \<noteq> None \<and> (\<forall>s \<in> set (lv_accept lv). s < length (dp_streams d))"
  by (auto simp: dp_inv_def data_ok_def live_ok_def)

section \<open>Promises of the dispenser\<close>

lemma card_given_set:
  assumes "\<forall>st \<in> set ss. ss_next st < 2 ^ 40" shows "card (given_set ss) = sum_list (map ss_next ss)"
proof -
  let ?I = "\<lambda>s. {p. stream_of p = s \<and> 0 \<le> local_of p \<and> local_of p < ss_next (ss ! s)}"
  have I: "?I s = {s * 2 ^ 40 + 0..<s * 2 ^ 40 + ss_next (ss ! s)}" if "s < length ss" for s
    by (rule stream_interval [symmetric]) (use assms that in auto)
  have "given_set ss = (\<Union>s \<in> {..<length ss}. ?I s)" by (auto simp: given_set_def)
  moreover have "card (\<Union>s \<in> {..<length ss}. ?I s) = (\<Sum>s \<in> {..<length ss}. card (?I s))"
  proof (rule card_UN_disjoint)
    have "finite (?I s)" if "s < length ss" for s unfolding I [OF that] by simp
    then show "\<forall>s \<in> {..<length ss}. finite (?I s)" by simp
  qed auto
  moreover have "card (?I s) = ss_next (ss ! s)" if "s < length ss" for s unfolding I [OF that] by simp
  then have "(\<Sum>s \<in> {..<length ss}. card (?I s)) = (\<Sum>s \<in> {..<length ss}. ss_next (ss ! s))"
    by (intro sum.cong) auto
  ultimately show ?thesis by (simp add: sum_list_sum_nth atLeast0LessThan)
qed

lemma size_queue: "size (queue_pos (dp_streams d)) = queued d"
proof -
  have "size (sum_list (map (\<lambda>st. spans_pos (ss_queue st)) ss)) = sum_list (map sp_len (concat (map ss_queue ss)))" for ss
    by (induction ss) (auto simp: size_spans_pos)
  then show ?thesis by (simp add: queue_pos_def queued_def)
qed

lemma size_blocks: "size (blocks_pos (dp_blocks d)) = outstanding d"
proof -
  have op: "size (open_pos op) = sum_list (map (\<lambda>(s, e, r). e - s) op)" for op
    by (induction op) (auto simp: open_pos_def)
  have "size (blocks_pos bs) = sum_list (concat (map (\<lambda>(_, b). map (\<lambda>(s, e, _). e - s) (bl_open b)) bs))" for bs
    by (induction bs) (auto simp: blocks_pos_def op)
  then show ?thesis by (simp add: outstanding_def)
qed

text \<open>
  C2. No position is lost or duplicated: over every run, the positions settled by reports (trained,
  dropped, or exhausted requeues), those waiting in the queues and those held in blocks are
  together exactly the positions given out, each once.  So the counters of the dispenser add up,
  as \<open>check_invariants\<close> asks: settled plus queued plus outstanding positions are the positions
  given out.
\<close>

theorem dispense_conservation:
  assumes "drun d log"
  shows "settled (log @ dp_events d) + queue_pos (dp_streams d) + blocks_pos (dp_blocks d) = mset_set (given_set (dp_streams d))
    \<and> tt_trained (dp_totals d) + tt_dropped (dp_totals d) + tt_exhausted (dp_totals d) + queued d + outstanding d = next_position d"
proof -
  have c: "settled (log @ dp_events d) + queue_pos (dp_streams d) + blocks_pos (dp_blocks d) = mset_set (given_set (dp_streams d))"
    and b: "books (dp_totals d) = size (settled (log @ dp_events d))"
    using drun_inv [OF assms] by (auto simp: dp_inv_def conserved_def)
  have "size (settled (log @ dp_events d)) + queued d + outstanding d = size (mset_set (given_set (dp_streams d)))"
    unfolding size_queue [symmetric] size_blocks [symmetric] size_union [symmetric] c ..
  also have "\<dots> = next_position d"
    using card_given_set drun_roomy [OF assms] by (simp add: next_position_def roomy_def)
  finally show ?thesis using c b by (simp add: books_def)
qed

definition ex_d1 :: dispenser where
  "ex_d1 = fst (open_with (Holder 1 7) (dd_single 4 []) None 0 (dispenser_new dispense_default))"

definition ex_d2 :: dispenser where
  "ex_d2 = fst (dp_claim (Holder 1 7) 1 3 5 ex_d1)"

definition ex_d3 :: dispenser where
  "ex_d3 = fst (dp_report (Holder 1 7) 2 [\<lparr>re_block = 1, re_kind = Trained, re_ranges = [(1, 2)]\<rparr>,
     \<lparr>re_block = 1, re_kind = Requeue, re_ranges = [(2, 3)]\<rparr>] 6 ex_d2)"

lemmas ex_simps = open_with_def dd_single_def total_rows_def dd_validate_def stream_validate_def stream_positions_def
  stream_shift_def max_streams_def max_stream_weight_def max_stream_name_def str_bytes_def fix_data_def dp_log_def
  accept_list_def admit_holder_def live_limit_def mb_is_retired_def mb_join_def members_new_def current_def
  dispenser_new_def dispenser_with_members_def dispense_default_def zero_totals_def Let_def

lemma ex_d1_eq:
  "ex_d1 = \<lparr>dp_cfg = dispense_default, dp_data = Some (dd_single 4 []),
     dp_streams = [\<lparr>ss_next = 0, ss_queue = [], ss_passes = 0\<rparr>], dp_blocks = [], dp_next_block = 1,
     dp_live = [(Holder 1 7, \<lparr>lv_blocks = [], lv_waiting = False, lv_last = None, lv_accept = [0]\<rparr>)],
     dp_members = \<lparr>mb_lease = 300000000000, mb_last_seen = [(Holder 1 7, 0)], mb_current = [(1, 7)], mb_order = [], mb_reasons = [], mb_retirements = 0\<rparr>,
     dp_totals = zero_totals,
     dp_events = [EvStreams (dd_streams (dd_single 4 [])) [], EvOpen (Holder 1 7) None False 4 None]\<rparr>"
  by (simp add: ex_d1_def ex_simps)

lemmas ex_claim_simps = dp_claim_def require_live_def mb_touch_def dp_replay_def claim_new_def pick_fresh_def
  stream_exhausted_def stream_limit_def stream_rows_def give_fresh_def start_pass_def position_of_def grant_block_def
  span_range_def pass_of_def local_of_def stream_of_def update_holder_def open_of_def count_ranges_def remember_def
  insort_insert_key_def

lemma ex_d2_eq:
  "ex_d2 = ex_d1\<lparr>dp_streams := [\<lparr>ss_next = 3, ss_queue = [], ss_passes = 1\<rparr>],
     dp_blocks := [(1, \<lparr>bl_holder = Holder 1 7, bl_open = [(0, 3, 0)]\<rparr>)], dp_next_block := 2,
     dp_live := [(Holder 1 7, \<lparr>lv_blocks = [1], lv_waiting = False, lv_last = Some (1, AnsClaim (Grant 1 [(0, 3)])), lv_accept = [0]\<rparr>)],
     dp_members := (dp_members ex_d1)\<lparr>mb_last_seen := [(Holder 1 7, 5)]\<rparr>,
     dp_totals := zero_totals\<lparr>tt_granted := 3\<rparr>,
     dp_events := dp_events ex_d1 @ [EvPassStart 0 0, EvGrant (Holder 1 7) 1 [(0, 3)] 0 0]\<rparr>"
  by (simp add: ex_d2_def ex_d1_eq ex_claim_simps ex_simps)

lemmas ex_report_simps = dp_report_def report_new_def staged_block_def take_range_def last_at_def take_piece_def
  settle_entry_def settle_kind_def requeue_span_def commit_block_def push_front_def push_one_def sp_len_def pieces_from.simps

lemma ex_d3_eq:
  "ex_d3 = ex_d2\<lparr>dp_streams := [\<lparr>ss_next = 3, ss_queue = [\<lparr>sp_start = 2, sp_end = 3, sp_redo = 1\<rparr>], ss_passes = 1\<rparr>],
     dp_blocks := [(1, \<lparr>bl_holder = Holder 1 7, bl_open = [(0, 1, 0)]\<rparr>)],
     dp_live := [(Holder 1 7, \<lparr>lv_blocks = [1], lv_waiting = False,
       lv_last = Some (2, AnsReport \<lparr>rt_settled = 2, rt_requeued = 1, rt_exhausted = 0\<rparr>), lv_accept = [0]\<rparr>)],
     dp_members := (dp_members ex_d1)\<lparr>mb_last_seen := [(Holder 1 7, 6)]\<rparr>,
     dp_totals := zero_totals\<lparr>tt_granted := 3, tt_trained := 1, tt_requeued := 1\<rparr>,
     dp_events := dp_events ex_d2 @ [EvReport (Holder 1 7) 1 Trained [(1, 2)] [], EvReport (Holder 1 7) 1 Requeue [(2, 3)] []]\<rparr>"
  by (simp add: ex_d3_def ex_d2_eq ex_d1_eq ex_claim_simps ex_report_simps ex_simps)

lemma ex_run: "drun ex_d3 []"
proof -
  have 0: "drun (dispenser_new dispense_default) []" unfolding dispenser_new_def by (rule d_new [OF mb_new])
  have 1: "drun ex_d1 []" unfolding ex_d1_def
    by (rule d_step [OF 0 d_open]) (fold ex_d1_def, simp add: roomy_def ex_d1_eq)
  have 2: "drun ex_d2 []" unfolding ex_d2_def by (rule d_step [OF 1 d_claim]) (fold ex_d2_def, simp add: roomy_def ex_d2_eq)
  show ?thesis unfolding ex_d3_def by (rule d_step [OF 2 d_report]) (fold ex_d3_def, simp add: roomy_def ex_d3_eq)
qed

theorem dispense_conservation_witness:
  "tt_trained (dp_totals ex_d3) = 1 \<and> queued ex_d3 = 1 \<and> outstanding ex_d3 = 1 \<and> next_position ex_d3 = 3"
proof -
  have "tt_trained (dp_totals ex_d3) = 1" "tt_dropped (dp_totals ex_d3) = 0" "tt_exhausted (dp_totals ex_d3) = 0"
    "queued ex_d3 = 1" "outstanding ex_d3 = 1"
    by (simp_all add: ex_d3_eq ex_d2_eq ex_d1_eq zero_totals_def queued_def outstanding_def sp_len_def)
  then show ?thesis using dispense_conservation [OF ex_run] by simp
qed

text \<open>The positions that reports named as trained.\<close>

definition trained_pos :: "dispense_event list \<Rightarrow> nat multiset" where
  "trained_pos evs = sum_list (map (\<lambda>e. case e of EvReport h i k rs ex \<Rightarrow> if k = Trained then ranges_pos rs else {#} | _ \<Rightarrow> {#}) evs)"

lemma trained_settled: "trained_pos evs \<subseteq># settled evs"
proof (induction evs)
  case (Cons e evs)
  have "(case e of EvReport h i k rs ex \<Rightarrow> if k = Trained then ranges_pos rs else {#} | _ \<Rightarrow> {#}) \<subseteq># settled_pos e"
    by (simp add: settled_pos_def split: dispense_event.split report_kind.split)
  then show ?case using Cons by (simp add: trained_pos_def subset_mset.add_mono)
qed (simp add: trained_pos_def)

text \<open>
  C3. Exclusive rows, trained at most once: over every run, two blocks in flight never share a
  position, so a position is held by at most one holder, and that holder is live; a position is
  reported as trained at most once; and a trained position is neither queued nor held any more,
  so no island gets it again.
\<close>

theorem dispense_exclusive:
  assumes run: "drun d log"
  shows "(\<forall>i1 b1 i2 b2 p. dict_get (dp_blocks d) i1 = Some b1 \<and> dict_get (dp_blocks d) i2 = Some b2
        \<and> p \<in># open_pos (bl_open b1) \<and> p \<in># open_pos (bl_open b2) \<longrightarrow> i1 = i2 \<and> dp_is_live d (bl_holder b1))
    \<and> (\<forall>p. count (trained_pos (log @ dp_events d)) p \<le> 1)
    \<and> (\<forall>p. p \<in># trained_pos (log @ dp_events d) \<longrightarrow> p \<notin># queue_pos (dp_streams d) \<and> p \<notin># blocks_pos (dp_blocks d))"
proof -
  let ?evs = "log @ dp_events d"
  have inv: "dp_inv log d" using drun_inv [OF run] by simp
  have once: "once (settled ?evs + (queue_pos (dp_streams d) + blocks_pos (dp_blocks d)))"
    using inv once_given [of "dp_streams d"] by (simp add: dp_inv_def conserved_def ac_simps)
  have tr: "count (trained_pos ?evs) p \<le> 1" for p
    using trained_settled [THEN mset_subset_eq_count, of ?evs p] once_add [OF once] unfolding once_def
    by (meson order_trans)
  have gone: "p \<notin># queue_pos (dp_streams d) \<and> p \<notin># blocks_pos (dp_blocks d)" if "p \<in># trained_pos ?evs" for p
    using once_disjoint [OF once, of p] mset_subset_eqD [OF trained_settled that] by simp
  have "i1 = i2 \<and> dp_is_live d (bl_holder b1)"
    if b: "dict_get (dp_blocks d) i1 = Some b1" "dict_get (dp_blocks d) i2 = Some b2"
      and p: "p \<in># open_pos (bl_open b1)" "p \<in># open_pos (bl_open b2)" for i1 b1 i2 b2 p
  proof
    have bs: "bt_ok (dp_blocks d)" using inv by (simp add: dp_inv_def blocks_ok_def)
    show "i1 = i2"
    proof (rule ccontr)
      assume "i1 \<noteq> i2"
      then have "dict_get (dict_pop i1 (dp_blocks d)) i2 = Some b2" using b by simp
      then obtain M where "blocks_pos (dict_pop i1 (dp_blocks d)) = open_pos (bl_open b2) + M"
        using blocks_pos_member bs bt_ok_delete by metis
      moreover have "blocks_pos (dp_blocks d) = open_pos (bl_open b1) + blocks_pos (dict_pop i1 (dp_blocks d))"
        unfolding blocks_pos_def using sum_list_pop [OF bt_ok_dict [OF bs] b(1), of "\<lambda>(i, b). open_pos (bl_open b)"] by simp
      ultimately have "once (open_pos (bl_open b1) + (open_pos (bl_open b2) + M))"
        using once once_add by metis
      then show False using once_disjoint p by fastforce
    qed
    show "dp_is_live d (bl_holder b1)" using inv b(1) by (auto simp: dp_inv_def blocks_ok_def dp_is_live_def)
  qed
  then show ?thesis using tr gone by blast
qed

theorem dispense_exclusive_witness:
  "1 \<in># trained_pos (dp_events ex_d3) \<and> 1 \<notin># blocks_pos (dp_blocks ex_d3)"
proof -
  have "1 \<in># trained_pos ([] @ dp_events ex_d3)"
    by (simp add: ex_d3_eq ex_d2_eq ex_d1_eq trained_pos_def range_pos_def)
  then show ?thesis using dispense_exclusive [OF ex_run] by auto
qed

text \<open>
  C34. A retired incarnation is fenced on every request: after the shared table retired a holder
  (on any channel), its opens, heartbeats, claims and reports are all refused with the reason of
  its retirement, and the only effect is the logged refusal.
\<close>

theorem retired_holder_is_fenced:
  assumes run: "drun d log" and r: "mb_is_retired (dp_members d) h"
  shows "open_with h dd accept now d = (dp_log (EvFenced h ''open'') d, Inl (Fenced (fenced_text (dp_members d) h)))
    \<and> dp_heartbeat h now d = (dp_log (EvFenced h ''heartbeat'') d, Inl (Fenced (fenced_text (dp_members d) h)))
    \<and> dp_claim h seq wanted now d = (dp_log (EvFenced h ''claim'') d, Inl (Fenced (fenced_text (dp_members d) h)))
    \<and> dp_report h seq entries now d = (dp_log (EvFenced h ''report'') d, Inl (Fenced (fenced_text (dp_members d) h)))"
proof -
  have "mb_inv (dp_members d)" using drun_inv [OF run] mbrun_inv by simp
  then have "\<not> mb_is_live (dp_members d) h" using r by (auto simp: mb_inv_def)
  then have "require_live h req now d = (dp_log (EvFenced h req) d, Inl (Fenced (fenced_text (dp_members d) h)))" for req
    using r by (simp add: require_live_def mb_touch_def mb_is_live_def)
  then show ?thesis using r by (simp add: open_with_def dp_heartbeat_def dp_claim_def dp_report_def)
qed

theorem retired_holder_is_fenced_witness:
  "\<exists>e. snd (dp_claim (Holder 1 7) 9 2 50 (ex_d3\<lparr>dp_members := mb_retire (Holder 1 7) Superseded (dp_members ex_d3)\<rparr>)) = Inl (Fenced e)"
proof -
  let ?d = "ex_d3\<lparr>dp_members := mb_retire (Holder 1 7) Superseded (dp_members ex_d3)\<rparr>"
  have "drun ?d []"
    by (rule d_step [OF ex_run d_members [OF mb_retire_step]]) (simp add: roomy_def ex_d3_eq)
  moreover have "mb_is_retired (dp_members ?d) (Holder 1 7)"
    using mb_retired_now mbrun_inv drun_inv [OF ex_run] by simp
  ultimately show ?thesis
    using retired_holder_is_fenced [of ?d "[]" "Holder 1 7" "dd_single 4 []" None 50 9 2 "[]"] by simp
qed

text \<open>
  C35. The boundary of a stream: the end of a span that reaches the last position of a stream is
  computed by \<open>position_of\<close> with an OR, which is the first position of the next stream for an even
  stream but falls back to the start of the same stream for an odd one; the granted span is then
  empty.  Below the boundary \<open>position_of\<close>, \<open>stream_of\<close> and \<open>local_of\<close> are inverse to each other.
\<close>

theorem stream_end_wraps:
  "(odd s \<longrightarrow> position_of s stream_positions = position_of s 0)
   \<and> (even s \<longrightarrow> position_of s stream_positions = position_of (s + 1) 0)
   \<and> (l < stream_positions \<longrightarrow> stream_of (position_of s l) = s \<and> local_of (position_of s l) = l)"
proof (intro conjI impI)
  have p: "position_of s stream_positions = push_bit 40 (s OR 1)"
    by (simp add: position_of_def stream_positions_def stream_shift_def push_bit_or [symmetric] flip: push_bit_of_1)
  show "position_of s stream_positions = position_of s 0" if "odd s"
  proof -
    have "s OR 1 = s" using that by (intro bit_eqI) (auto simp: bit_simps bit_0 elim: Suc_pred intro: ccontr)
    then show ?thesis using p by (simp add: position_of_def stream_shift_def)
  qed
  show "position_of s stream_positions = position_of (s + 1) 0" if "even s"
  proof -
    have "s OR 1 = s + 1" using that by (simp add: or_Suc_0_eq)
    then show ?thesis using p by (simp add: position_of_def stream_shift_def)
  qed
  assume l: "l < stream_positions"
  then have "l < 2 ^ 40" by (simp add: stream_positions_def stream_shift_def)
  then show "stream_of (position_of s l) = s" "local_of (position_of s l) = l" by (simp_all add: position_of_add shift_simps)
qed

theorem stream_end_wraps_witness:
  "position_of 1 stream_positions = position_of 1 0 \<and> position_of 2 stream_positions = position_of 3 0"
  using stream_end_wraps [of 1 0] stream_end_wraps [of 2 0] by simp

lemma give_fresh_members: "dp_members (fst (fold give_fresh L x)) = dp_members (fst x) \<and> dp_live (fst (fold give_fresh L x)) = dp_live (fst x)"
proof (induction L arbitrary: x)
  case (Cons y L)
  obtain s n d spans where yx: "y = (s, n)" "x = (d, spans)" by (metis surj_pair)
  have "dp_members (fold (start_pass s) ks d) = dp_members d \<and> dp_live (fold (start_pass s) ks d) = dp_live d" for ks
    using same_positions_passes [of d s ks] by (auto simp: same_positions_def)
  then have "dp_members (fst (give_fresh y x)) = dp_members (fst x) \<and> dp_live (fst (give_fresh y x)) = dp_live (fst x)"
    using yx by (simp add: give_fresh_def Let_def)
  then show ?case using Cons.IH by simp
qed simp

lemma claim_new_keeps_holder:
  assumes "dict_get (dp_live d) h \<noteq> None"
  shows "dp_members (fst (claim_new h w d)) = dp_members d" "dict_get (dp_live (fst (claim_new h w d))) h \<noteq> None"
proof -
  have g: "dp_members (fst (nothing_to_give h acc x)) = dp_members x" "dp_members (fst (grant_block h spans x)) = dp_members x"
    "dict_get (dp_live x) h \<noteq> None \<Longrightarrow> dict_get (dp_live (fst (nothing_to_give h acc x))) h \<noteq> None"
    "dict_get (dp_live x) h \<noteq> None \<Longrightarrow> dict_get (dp_live (fst (grant_block h spans x))) h \<noteq> None" for acc spans x
    by (auto simp: nothing_to_give_def grant_block_def Let_def update_holder_get split: option.split)
  obtain need returned ss where q: "take_queues (case dict_get (dp_live d) h of Some lv \<Rightarrow> lv_accept lv | None \<Rightarrow> []) w (dp_streams d) = (need, returned, ss)"
    by (metis prod_cases3)
  note f = give_fresh_members [of _ "(d\<lparr>dp_streams := ss\<rparr>, returned)", simplified]
  show "dp_members (fst (claim_new h w d)) = dp_members d" "dict_get (dp_live (fst (claim_new h w d))) h \<noteq> None"
    using assms q f g by (auto simp: claim_new_def Let_def case_prod_beta)
qed

lemma report_new_keeps_holder:
  assumes "dict_get (dp_live d) h \<noteq> None" shows "dict_get (dp_live (fst (report_new h entries d))) h \<noteq> None"
proof (cases "stage_entries h d entries []")
  case (Inr x)
  obtain staged removed where x: "x = (staged, removed)" by (cases x)
  have settle: "dp_live (fst (fold (settle_entry h) removed y)) = dp_live (fst y)" for y removed
  proof (induction removed arbitrary: y)
    case (Cons z removed)
    obtain e sp d0 t front where zy: "z = (e, sp)" "y = (d0, t, front)" by (metis surj_pair prod_cases3)
    have rq: "dp_live (fst (fst (fold requeue_span sp w))) = dp_live (fst (fst w))" for sp w
      by (induction sp arbitrary: w) (auto simp: requeue_span_def split: prod.splits)
    have "dp_live (fst (settle_entry h (e, sp) (d0, t, front))) = dp_live d0"
      using rq by (auto simp: settle_entry_def settle_kind_def Let_def case_prod_beta split: report_kind.split)
    then show ?case using Cons.IH zy by simp
  qed simp
  have commit: "dict_get (dp_live (fold (commit_block h) L y)) h \<noteq> None" if "dict_get (dp_live y) h \<noteq> None" for L y
    using that
  proof (induction L arbitrary: y)
    case (Cons z L)
    have "dict_get (dp_live (commit_block h z y)) h \<noteq> None"
      using Cons.prems by (auto simp: commit_block_def update_holder_get split: prod.split)
    then show ?case using Cons.IH by simp
  qed simp
  show ?thesis using Inr x assms commit settle by (simp add: report_new_def Let_def case_prod_beta)
qed (use assms in \<open>simp add: report_new_def\<close>)

text \<open>The holder's stored answer, and what a resent request meets.\<close>

lemma mb_touch_again: "snd (mb_touch h now mb) \<Longrightarrow> snd (mb_touch h now' (fst (mb_touch h now mb)))"
  by (auto simp: mb_touch_def split: if_splits)

lemma claim_resent:
  assumes "dp_claim h seq wanted now d = (d1, Inr c)"
  shows "dp_claim h seq wanted' now' d1 = (d1\<lparr>dp_members := fst (mb_touch h now' (dp_members d1))\<rparr>, Inr c)"
proof -
  let ?mb = "fst (mb_touch h now (dp_members d))"
  let ?d = "d\<lparr>dp_members := ?mb\<rparr>"
  have live: "dict_get (dp_live d) h \<noteq> None" "snd (mb_touch h now (dp_members d))"
    and c: "(case dp_replay h seq ?d of Inl e \<Rightarrow> (?d, Inl e) | Inr (Some (AnsClaim c)) \<Rightarrow> (?d, Inr c)
      | Inr (Some (AnsReport _)) \<Rightarrow> (?d, Inl (Refused (WasReport seq)))
      | Inr None \<Rightarrow> (case claim_new h wanted ?d of (d, Inl e) \<Rightarrow> (d, Inl e) | (d, Inr c) \<Rightarrow> (remember h seq (AnsClaim c) d, Inr c)))
      = (d1, Inr c)"
    using assms by (auto simp: dp_claim_def require_live_def split: if_splits)
  have "\<exists>lv. dict_get (dp_live d1) h = Some lv \<and> lv_last lv = Some (seq, AnsClaim c) \<and> dp_members d1 = ?mb"
  proof (cases "dp_replay h seq ?d")
    case (Inr ans)
    show ?thesis
    proof (cases ans)
      case None
      obtain d0 where d0: "claim_new h wanted ?d = (d0, Inr c)" "d1 = remember h seq (AnsClaim c) d0"
        using c Inr None by (auto split: prod.splits sum.splits)
      have "dp_members d0 = ?mb" "dict_get (dp_live d0) h \<noteq> None"
        using claim_new_keeps_holder [of ?d h wanted] live(1) d0(1) by auto
      then show ?thesis using d0(2) by (auto simp: remember_def update_holder_get)
    next
      case (Some a)
      then have "d1 = ?d" "a = AnsClaim c" using c Inr by (auto split: answer.splits)
      then show ?thesis using Inr Some live(1) by (auto simp: dp_replay_def split: option.splits if_splits prod.splits)
    qed
  qed (use c in simp)
  then show ?thesis using mb_touch_again [OF live(2)] by (auto simp: dp_claim_def require_live_def dp_replay_def)
qed

lemma report_resent:
  assumes "dp_report h seq entries now d = (d1, Inr t)"
  shows "dp_report h seq entries' now' d1 = (d1\<lparr>dp_members := fst (mb_touch h now' (dp_members d1))\<rparr>, Inr t)"
proof -
  let ?mb = "fst (mb_touch h now (dp_members d))"
  let ?d = "d\<lparr>dp_members := ?mb\<rparr>"
  have live: "dict_get (dp_live d) h \<noteq> None" "snd (mb_touch h now (dp_members d))"
    and c: "(case dp_replay h seq ?d of Inl e \<Rightarrow> (?d, Inl e) | Inr (Some (AnsReport t)) \<Rightarrow> (?d, Inr t)
      | Inr (Some (AnsClaim _)) \<Rightarrow> (?d, Inl (Refused (WasClaim seq)))
      | Inr None \<Rightarrow> (case report_new h entries ?d of (d, Inl e) \<Rightarrow> (d, Inl e) | (d, Inr t) \<Rightarrow> (remember h seq (AnsReport t) d, Inr t)))
      = (d1, Inr t)"
    using assms by (auto simp: dp_report_def require_live_def split: if_splits)
  have "\<exists>lv. dict_get (dp_live d1) h = Some lv \<and> lv_last lv = Some (seq, AnsReport t) \<and> dp_members d1 = ?mb"
  proof (cases "dp_replay h seq ?d")
    case (Inr ans)
    show ?thesis
    proof (cases ans)
      case None
      obtain d0 where d0: "report_new h entries ?d = (d0, Inr t)" "d1 = remember h seq (AnsReport t) d0"
        using c Inr None by (auto split: prod.splits sum.splits)
      have "dp_members d0 = ?mb" "dict_get (dp_live d0) h \<noteq> None"
        using report_new_keeps_holder [of ?d h entries] report_new_members [of h entries ?d] live(1) d0(1) by auto
      then show ?thesis using d0(2) by (auto simp: remember_def update_holder_get)
    next
      case (Some a)
      then have "d1 = ?d" "a = AnsReport t" using c Inr by (auto split: answer.splits)
      then show ?thesis using Inr Some live(1) by (auto simp: dp_replay_def split: option.splits if_splits prod.splits)
    qed
  qed (use c in simp)
  then show ?thesis using mb_touch_again [OF live(2)] by (auto simp: dp_report_def require_live_def dp_replay_def)
qed

text \<open>
  C36. A request resent after a lost answer is answered again, not applied again: a claim or report
  repeated with the sequence number of the answered one gets the same answer, and only the lease
  of the holder moves; whatever positions the repeated request names.
\<close>

theorem resent_request_repeats:
  "(dp_claim h seq wanted now d = (d1, Inr c) \<longrightarrow>
      dp_claim h seq wanted' now' d1 = (d1\<lparr>dp_members := fst (mb_touch h now' (dp_members d1))\<rparr>, Inr c))
   \<and> (dp_report h seq entries now d = (d1, Inr t) \<longrightarrow>
      dp_report h seq entries' now' d1 = (d1\<lparr>dp_members := fst (mb_touch h now' (dp_members d1))\<rparr>, Inr t))"
  using claim_resent report_resent by blast

theorem resent_request_repeats_witness:
  "snd (dp_claim (Holder 1 7) 1 1 9 ex_d2) = Inr (Grant 1 [(0, 3)]) \<and> dp_blocks (fst (dp_claim (Holder 1 7) 1 1 9 ex_d2)) = dp_blocks ex_d2"
proof -
  have "snd (dp_claim (Holder 1 7) 1 3 5 ex_d1) = Inr (Grant 1 [(0, 3)])"
    by (simp add: ex_d1_eq ex_claim_simps ex_simps)
  then have "dp_claim (Holder 1 7) 1 3 5 ex_d1 = (ex_d2, Inr (Grant 1 [(0, 3)]))" unfolding ex_d2_def by (simp add: prod_eq_iff)
  then have "dp_claim (Holder 1 7) 1 1 9 ex_d2 = (ex_d2\<lparr>dp_members := fst (mb_touch (Holder 1 7) 9 (dp_members ex_d2))\<rparr>, Inr (Grant 1 [(0, 3)]))"
    using resent_request_repeats by blast
  then show ?thesis by simp
qed

end
