(* ===== verification/Py_Base.thy ===== *)
theory Py_Base
  imports Yeto_Prelude
begin

text \<open>
  What the Python modules use of the language and its standard library: integer literals,
  string methods, ranges and slices, the position of an element, and the values that a JSON
  document may hold where the code tests their type.
\<close>

section \<open>Python integers and strings\<close>

definition py_space :: "char \<Rightarrow> bool" where
  "py_space c = (let n = of_char c :: nat in n = 32 \<or> 9 \<le> n \<and> n \<le> 13 \<or> 28 \<le> n \<and> n \<le> 31)"

definition py_strip :: "string \<Rightarrow> string" where
  "py_strip s = rev (dropWhile py_space (rev (dropWhile py_space s)))"

text \<open>The digits of a literal: single underscores may stand between two digits.\<close>

fun py_digits :: "nat \<Rightarrow> string \<Rightarrow> nat option" where
  "py_digits acc [] = Some acc"
| "py_digits acc (c # cs) =
     (if c = CHR ''_'' then
        (case cs of [] \<Rightarrow> None
         | d # ds \<Rightarrow> (case digit_val d of None \<Rightarrow> None | Some v \<Rightarrow> py_digits (10 * acc + v) ds))
      else (case digit_val c of None \<Rightarrow> None | Some v \<Rightarrow> py_digits (10 * acc + v) cs))"

definition py_unsigned :: "string \<Rightarrow> nat option" where
  "py_unsigned s = (case s of [] \<Rightarrow> None | c # cs \<Rightarrow> if digit_val c = None then None else py_digits 0 s)"

definition py_int :: "string \<Rightarrow> int option" where
  "py_int s = (case py_strip s of
      [] \<Rightarrow> None
    | c # cs \<Rightarrow>
        if c = CHR ''-'' then map_option (\<lambda>n. - int n) (py_unsigned cs)
        else if c = CHR ''+'' then map_option int (py_unsigned cs)
        else map_option int (py_unsigned (c # cs)))"

text \<open>\<open>s.partition(c)\<close>: the text before the first separator, whether it occurs, the rest.\<close>

fun py_partition :: "char \<Rightarrow> string \<Rightarrow> string \<times> bool \<times> string" where
  "py_partition sep [] = ([], False, [])"
| "py_partition sep (c # cs) =
     (if c = sep then ([], True, cs)
      else (case py_partition sep cs of (a, b, r) \<Rightarrow> (c # a, b, r)))"

text \<open>\<open>range(a, b, step)\<close> for a positive step, and \<open>xs[k::n]\<close>.\<close>

definition py_range :: "int \<Rightarrow> int \<Rightarrow> int \<Rightarrow> int list" where
  "py_range a b step = map (\<lambda>i. a + step * int i) [0..<nat ((b - a + step - 1) div step)]"

fun py_stride :: "nat \<Rightarrow> nat \<Rightarrow> 'a list \<Rightarrow> 'a list" where
  "py_stride k n [] = []"
| "py_stride 0 n (x # xs) = x # py_stride (n - 1) n xs"
| "py_stride (Suc k) n (x # xs) = py_stride k n xs"

definition py_join :: "string \<Rightarrow> string list \<Rightarrow> string" where
  "py_join sep xs = (case xs of [] \<Rightarrow> [] | y # ys \<Rightarrow> y @ concat (map (\<lambda>z. sep @ z) ys))"

text \<open>\<open>xs.index(x)\<close> where the element is known to occur.\<close>

fun index_of :: "'a \<Rightarrow> 'a list \<Rightarrow> nat" where
  "index_of x [] = 0"
| "index_of x (y # ys) = (if x = y then 0 else Suc (index_of x ys))"

section \<open>Lists cut into slices\<close>

text \<open>\<open>[xs[i:i + n] for i in range(0, len(xs), n)]\<close>.\<close>

function py_slices :: "nat \<Rightarrow> 'a list \<Rightarrow> 'a list list" where
  "py_slices n xs = (if n = 0 \<or> xs = [] then [] else take n xs # py_slices n (drop n xs))"
  by pat_completeness auto
termination
  by (relation "measure (\<lambda>(n, xs). length xs)") auto

declare py_slices.simps [simp del]

section \<open>Values of a JSON document\<close>

text \<open>\<open>POther s\<close> is any other value, with its \<open>str()\<close> text.\<close>

datatype pyval = PNone | PBool bool | PInt int | PStr string | POther string

definition py_str :: "pyval \<Rightarrow> string" where
  "py_str v = (case v of PNone \<Rightarrow> ''None'' | PBool b \<Rightarrow> if b then ''True'' else ''False''
     | PInt i \<Rightarrow> show_int i | PStr s \<Rightarrow> s | POther s \<Rightarrow> s)"

text \<open>\<open>int(v)\<close>, \<open>None\<close> where it raises.\<close>

definition py_to_int :: "pyval \<Rightarrow> int option" where
  "py_to_int v = (case v of PNone \<Rightarrow> None | PBool b \<Rightarrow> Some (if b then 1 else 0) | PInt i \<Rightarrow> Some i
     | PStr s \<Rightarrow> py_int s | POther s \<Rightarrow> None)"

text \<open>Equality of dictionary keys: a boolean is the integer it stands for.\<close>

definition py_key :: "pyval \<Rightarrow> pyval" where
  "py_key v = (case v of PBool b \<Rightarrow> PInt (if b then 1 else 0) | _ \<Rightarrow> v)"

lemma index_of_less: "x \<in> set xs \<Longrightarrow> index_of x xs < length xs"
  by (induction xs) auto

lemma index_of_nth: "distinct xs \<Longrightarrow> i < length xs \<Longrightarrow> index_of (xs ! i) xs = i"
  by (induction xs arbitrary: i) (auto simp: nth_Cons split: nat.splits)

lemma map_index_of: "distinct xs \<Longrightarrow> map (\<lambda>x. index_of x xs) xs = [0..<length xs]"
  by (rule nth_equalityI) (simp_all add: index_of_nth)

lemma concat_py_slices: "0 < n \<Longrightarrow> concat (py_slices n xs) = xs"
  by (induction n xs rule: py_slices.induct) (subst py_slices.simps, simp)

lemma py_slices_length: "s \<in> set (py_slices n xs) \<Longrightarrow> n dvd length xs \<Longrightarrow> length s = n"
proof (induction n xs rule: py_slices.induct)
  case (1 n xs)
  show ?case
  proof (cases "n = 0 \<or> xs = []")
    case True
    then show ?thesis using 1(2) by (subst (asm) py_slices.simps) simp
  next
    case False
    have "n \<le> length xs" using 1(3) False by (auto intro: dvd_imp_le)
    moreover have "s = take n xs \<or> s \<in> set (py_slices n (drop n xs))"
      using 1(2) False by (subst (asm) py_slices.simps) simp
    moreover have "n dvd length (drop n xs)" using 1(3) by simp
    ultimately show ?thesis using 1(1) False by auto
  qed
qed

end
