(* ===== verification/Data_Split.thy ===== *)
theory Data_Split
  imports Py_Base
begin

text \<open>
  Which island reads which rows of the data (\<open>yeto/rl/engine/data_split.py\<close>): the data
  slots \<open>I/N\<close>, the order of the rows in every pass over a slot, the split of a launch and the
  compact record of the rows of a round as arithmetic runs.

  Python integers are \<^typ>\<open>int\<close>; a \<open>ValueError\<close> is a constructor of \<open>split_error\<close>, one per
  \<open>raise\<close>.  The hash and the generator that \<open>pass_order\<close> seeds (\<open>hashlib.sha256\<close> and
  \<open>random.Random\<close>) are parameters; what the order relies on is that \<open>shuffle\<close> rearranges its
  list.  The lemmas show that the slots of a launch partition the rows, that every pass reads
  every row of the slot once, and that the runs decode to the rows they were made from.
\<close>

section \<open>Data slots\<close>

datatype split_error =
    BadSlot int int
  | SlotFormat string
  | NotAnInt string
  | EmptySlot int int nat
  | SlotHasNoRows int int
  | UnknownSplit string
  | DispenseBlocked string
  | DispenseAndTasks
  | DispenseExternal
  | DispenseNoIsland
  | SplitWithRoles string
  | SplitAndTasks string
  | StrideExternal
  | MalformedRun int int int

record data_slot =
  index :: int
  count :: int

definition DataSlot :: "int \<Rightarrow> int \<Rightarrow> split_error + data_slot" where
  "DataSlot i n =
     (if \<not> (n \<ge> 1 \<and> 0 \<le> i \<and> i < n) then Inl (BadSlot i n)
      else Inr \<lparr> index = i, count = n \<rparr>)"

definition int_or_raise :: "string \<Rightarrow> split_error + int" where
  "int_or_raise s = (case py_int s of None \<Rightarrow> Inl (NotAnInt s) | Some i \<Rightarrow> Inr i)"

definition parse_slot :: "string option \<Rightarrow> split_error + data_slot" where
  "parse_slot txt =
     (case txt of
        None \<Rightarrow> DataSlot 0 1
      | Some s \<Rightarrow>
          if s = [] then DataSlot 0 1
          else (case py_partition (CHR ''/'') s of
              (i, sep, n) \<Rightarrow>
                if \<not> sep then Inl (SlotFormat s)
                else rbind (int_or_raise i) (\<lambda>iv. rbind (int_or_raise n) (\<lambda>nv. DataSlot iv nv))))"

definition slot_env :: "data_slot \<Rightarrow> string" where
  "slot_env s = show_int (index s) @ ''/'' @ show_int (count s)"

definition slot_whole :: "data_slot \<Rightarrow> bool" where
  "slot_whole s \<longleftrightarrow> count s = 1"

definition slot_owns :: "data_slot \<Rightarrow> int \<Rightarrow> bool" where
  "slot_owns s row \<longleftrightarrow> row mod count s = index s"

definition slot_rows :: "data_slot \<Rightarrow> 'a list \<Rightarrow> split_error + 'a list" where
  "slot_rows s rows =
     (let out = py_stride (nat (index s)) (nat (count s)) rows in
      if out = [] then Inl (EmptySlot (index s) (count s) (length rows)) else Inr out)"

definition slot_numbered :: "data_slot \<Rightarrow> 'a list \<Rightarrow> split_error + (int \<times> 'a) list" where
  "slot_numbered s rows =
     (let out = filter (\<lambda>(i, row). slot_owns s i) (zip (map int [0..<length rows]) rows) in
      if out = [] then Inl (SlotHasNoRows (index s) (count s)) else Inr out)"

section \<open>The order of a pass\<close>

definition pass_key :: "int \<Rightarrow> int \<Rightarrow> int \<Rightarrow> string" where
  "pass_key seed data_pass stream =
     (if stream = 0 then ''yeto-data-pass:'' @ show_int seed @ '':'' @ show_int data_pass
      else ''yeto-data-pass:'' @ show_int seed @ '':s'' @ show_int stream @ '':'' @ show_int data_pass)"

text \<open>\<open>int.from_bytes(b, "big")\<close>.\<close>

definition from_bytes_big :: "bytes \<Rightarrow> nat" where
  "from_bytes_big bs = fold (\<lambda>b acc. 256 * acc + unat b) bs 0"

definition pass_order ::
  "(string \<Rightarrow> bytes) \<Rightarrow> (nat \<Rightarrow> nat list \<Rightarrow> nat list) \<Rightarrow> int \<Rightarrow> int \<Rightarrow> int \<Rightarrow> int \<Rightarrow> nat list" where
  "pass_order sha256 shuffle cnt seed data_pass stream =
     (let order = [0..<nat cnt] in
      if data_pass \<le> 0 then order
      else let key = pass_key seed data_pass stream;
               digest = sha256 key
           in shuffle (from_bytes_big (take 8 digest)) order)"

section \<open>The split of a launch\<close>

abbreviation AUTO :: string where "AUTO \<equiv> ''auto''"
abbreviation STRIDE :: string where "STRIDE \<equiv> ''stride''"
abbreviation SHARED :: string where "SHARED \<equiv> ''shared''"
abbreviation DISPENSE :: string where "DISPENSE \<equiv> ''dispense''"
abbreviation TASKS :: string where "TASKS \<equiv> ''tasks''"
abbreviation SINGLE :: string where "SINGLE \<equiv> ''single''"
abbreviation ROLES :: string where "ROLES \<equiv> ''roles''"

definition DATA_SPLITS :: "string list" where
  "DATA_SPLITS = [AUTO, STRIDE, DISPENSE, SHARED]"

record split_plan =
  mode :: string
  requested :: string
  islands :: "int list"
  reason :: string
  samplers :: "int list"

definition DataSplitPlan :: "string \<Rightarrow> string \<Rightarrow> int list \<Rightarrow> string \<Rightarrow> int list \<Rightarrow> split_plan" where
  "DataSplitPlan m r is why ss =
     \<lparr> mode = m, requested = r, islands = is, reason = why, samplers = ss \<rparr>"

definition several_islands :: "split_plan \<Rightarrow> bool" where
  "several_islands p \<longleftrightarrow> mode p \<in> set [STRIDE, SHARED, DISPENSE]"

definition plan_dispense :: "split_plan \<Rightarrow> bool" where
  "plan_dispense p \<longleftrightarrow> mode p = DISPENSE"

definition plan_slot :: "split_plan \<Rightarrow> int \<Rightarrow> split_error + data_slot option" where
  "plan_slot p learner_id =
     (if mode p \<noteq> STRIDE \<or> learner_id \<notin> set (islands p) then Inr None
      else rbind (DataSlot (int (index_of learner_id (islands p))) (int (length (islands p))))
             (\<lambda>s. Inr (Some s)))"

definition describe :: "split_plan \<Rightarrow> string" where
  "describe p =
     (let n = show_nat (length (islands p)) in
      if mode p = STRIDE then
        n @ '' training islands split --data by row number: island k reads the rows i with i % '' @ n
          @ '' == k, in data order; after its last row an island starts the next pass over its own rows, reshuffled''
          @ (if reason p \<noteq> [] then '' ('' @ reason p @ '')'' else [])
      else if mode p = SHARED then
        n @ '' training islands read every row of --data in the same order ('' @ reason p @ '')''
      else if mode p = DISPENSE \<and> islands p = [] then
        (if samplers p \<noteq> [] then ''sampler islands '' @ py_join '', '' (map show_int (samplers p))
         else ''sampler islands of the launches that join this one'')
          @ '' claim the rows of --data from the actor syncer's dispenser, one block per sampler round: ''
          @ ''no row goes to two samplers, a fast sampler claims more, the rows a preempted sampler did not ''
          @ ''write go to the others, an added sampler just claims; buffer trainers read the buffer''
      else if mode p = DISPENSE then
        n @ '' training island(s) claim the rows of --data from the syncer's dispenser, one block per round: ''
          @ ''no row goes to two islands, a fast island claims more, the rows of an island that leaves go to ''
          @ ''the others, passes after the first are reshuffled''
      else if mode p = TASKS then ''each training island reads the rows of its --rl-island-tasks list''
      else if mode p = ROLES then
        ''sampler islands read disjoint row slots (sampler k of S: rows i with i % S == k); ''
          @ ''buffer trainers read buffer lanes, not --data''
      else ''one training island reads every row of --data'')"

definition plan_warning :: "split_plan \<Rightarrow> string option" where
  "plan_warning p =
     (if mode p \<noteq> SHARED then None
      else let remedy =
             (if requested p = SHARED
              then ''drop --rl-data-split shared (default auto) to split the rows by island''
              else ''an external learner reads the data of its own launch: give it other rows there'')
           in Some (show_nat (length (islands p))
             @ '' training islands read the same --data rows in the same order ('' @ reason p
             @ ''): in every round each island trains the same prompts, so the merged update averages ''
             @ ''repeated samples of one batch instead of covering more prompts; '' @ remedy))"

definition plan_data_split ::
  "string option \<Rightarrow> int list \<Rightarrow> bool \<Rightarrow> bool \<Rightarrow> int \<Rightarrow> int list \<Rightarrow> string option \<Rightarrow>
   string list option \<Rightarrow> split_error + split_plan" where
  "plan_data_split req ids tasks sample_roles external_learners smp sampler_blocker dispense_blockers =
     (let r = (case req of None \<Rightarrow> AUTO | Some s \<Rightarrow> s) in
      if r \<notin> set DATA_SPLITS then Inl (UnknownSplit r)
      else if r = DISPENSE then
        if sample_roles then
          (case sampler_blocker of
             Some why \<Rightarrow>
               if why \<noteq> [] then Inl (DispenseBlocked why)
               else if tasks then Inl DispenseAndTasks
               else Inr (DataSplitPlan DISPENSE r [] [] smp)
           | None \<Rightarrow>
               if tasks then Inl DispenseAndTasks
               else Inr (DataSplitPlan DISPENSE r [] [] smp))
        else if tasks then Inl DispenseAndTasks
        else if external_learners \<noteq> 0 then Inl DispenseExternal
        else if ids = [] then Inl DispenseNoIsland
        else Inr (DataSplitPlan DISPENSE r ids [] [])
      else if sample_roles then
        if r \<noteq> AUTO then Inl (SplitWithRoles r) else Inr (DataSplitPlan ROLES r [] [] [])
      else if tasks then
        if r \<noteq> AUTO then Inl (SplitAndTasks r) else Inr (DataSplitPlan TASKS r ids [] [])
      else if length ids < 2 then Inr (DataSplitPlan SINGLE r ids [] [])
      else if r = SHARED then Inr (DataSplitPlan SHARED r ids ''--rl-data-split shared'' [])
      else if external_learners \<noteq> 0 then
        if r = STRIDE then Inl StrideExternal
        else Inr (DataSplitPlan SHARED r ids
               ''--external-learners: their rows are not this launch's to split'' [])
      else if r = AUTO then
        (case dispense_blockers of
           Some [] \<Rightarrow> Inr (DataSplitPlan DISPENSE r ids [] [])
         | Some bs \<Rightarrow> Inr (DataSplitPlan STRIDE r ids (''no dispenser: '' @ py_join ''; '' bs) [])
         | None \<Rightarrow> Inr (DataSplitPlan STRIDE r ids
               (''no dispenser: the launch was not checked for the dispenser'') []))
      else Inr (DataSplitPlan STRIDE r ids [] []))"

text \<open>The pairs of islands whose task lists share tasks.\<close>

definition overlapping_tasks :: "(int, string list) dict \<Rightarrow> (int \<times> int, nat) dict" where
  "overlapping_tasks task_lists =
     (let keys = sort (map fst task_lists);
          common = (\<lambda>a b. case (dict_get task_lists a, dict_get task_lists b) of
                      (Some xs, Some ys) \<Rightarrow> length (remdups (filter (\<lambda>t. t \<in> set ys) xs))
                    | _ \<Rightarrow> 0)
      in concat (map (\<lambda>(n, a). concat (map (\<lambda>b.
           if common a b \<noteq> 0 then [((a, b), common a b)] else []) (drop (Suc n) keys)))
         (zip [0..<length keys] keys)))"

section \<open>The rows of a round as runs\<close>

text \<open>The inner loop: the rows that continue a run with the given step, and what is left.\<close>

fun run_end :: "int \<Rightarrow> int \<Rightarrow> int list \<Rightarrow> int \<times> int list" where
  "run_end step final [] = (final, [])"
| "run_end step final (x # xs) =
     (if x - final = step then run_end step x xs else (final, x # xs))"

lemma run_end_shorter: "run_end step final xs = (l, ys) \<Longrightarrow> length ys \<le> length xs"
  by (induction step final xs rule: run_end.induct) (auto split: if_splits)

function runs_of :: "int list \<Rightarrow> (int \<times> int \<times> int) list" where
  "runs_of [] = []"
| "runs_of [x] = [(x, x, 1)]"
| "runs_of (x # y # ys) =
     (case run_end (y - x) y ys of (final, rest) \<Rightarrow> (x, final, y - x) # runs_of rest)"
  by pat_completeness auto
termination
  by (relation "measure length") (auto dest: run_end_shorter [OF sym] simp: less_Suc_eq_le intro: le_SucI)

definition row_runs :: "int list \<Rightarrow> (int \<times> int \<times> int) list" where
  "row_runs rows = runs_of (sort (remdups rows))"

definition run_length :: "int \<times> int \<times> int \<Rightarrow> split_error + int" where
  "run_length run = (case run of (first, final, step) \<Rightarrow>
     if step < 1 \<or> final < first \<or> (final - first) mod step \<noteq> 0 then Inl (MalformedRun first final step)
     else Inr ((final - first) div step + 1))"

definition run_row_count :: "(int \<times> int \<times> int) list \<Rightarrow> split_error + int" where
  "run_row_count runs = rfold (\<lambda>run n. rbind (run_length run) (\<lambda>k. Inr (n + k))) runs 0"

definition rows_of_runs :: "(int \<times> int \<times> int) list \<Rightarrow> split_error + int list" where
  "rows_of_runs runs =
     rfold (\<lambda>run rows. rbind (run_length run) (\<lambda>_. case run of (first, final, step) \<Rightarrow>
       Inr (rows @ py_range first (final + 1) step))) runs []"

section \<open>Lemmas\<close>

lemma DataSlot_Inr_iff:
  "DataSlot i n = Inr s \<longleftrightarrow> 0 \<le> i \<and> i < n \<and> s = \<lparr> index = i, count = n \<rparr>"
  by (auto simp: DataSlot_def)

lemma py_stride_filter:
  assumes "k < n" and "(m + k) mod n = r"
  shows "py_stride k n xs = map snd (filter (\<lambda>(i, x). i mod n = r) (zip [m..<m + length xs] xs))"
  using assms
proof (induction k n xs arbitrary: m rule: py_stride.induct)
  case (2 n x xs)
  have "(Suc m + (n - 1)) mod n = r" using 2(2,3) by simp
  moreover have "[m..<m + length (x # xs)] = m # [Suc m..<Suc m + length xs]"
    by (simp add: upt_conv_Cons del: upt_Suc)
  ultimately show ?case using 2(1) [of "Suc m"] 2(2,3) by simp
next
  case (3 k n x xs)
  have "m mod n \<noteq> r"
  proof
    assume "m mod n = r"
    then have "m mod n = (m + Suc k) mod n" using 3(3) by simp
    then have "n dvd (m + Suc k - m)" by (metis mod_eq_dvd_iff_nat le_add1)
    then show False using 3(2) by (simp add: nat_dvd_not_less)
  qed
  moreover have "[m..<m + length (x # xs)] = m # [Suc m..<Suc m + length xs]"
    by (simp add: upt_conv_Cons del: upt_Suc)
  ultimately show ?case using 3(1) [of "Suc m"] 3(2,3) by simp
qed simp

lemma mset_filter_Suc:
  "mset (filter (\<lambda>x. f x < Suc n) xs) = mset (filter (\<lambda>x. f x < n) xs) + mset (filter (\<lambda>x. f x = n) xs)"
  by (induction xs) auto

lemma mset_classes:
  "mset (concat (map (\<lambda>r. filter (\<lambda>x. f x = r) xs) [0..<n])) = mset (filter (\<lambda>x. f x < (n :: nat)) xs)"
proof (induction n)
  case (Suc n)
  then show ?case using mset_filter_Suc [of f n xs] by simp
qed simp

lemma slot_rows_numbered:
  assumes "DataSlot i n = Inr s" and "slot_rows s rows = Inr out"
  shows "\<exists>num. slot_numbered s rows = Inr num \<and> map snd num = out"
proof -
  have s: "0 \<le> i" "i < n" "s = \<lparr> index = i, count = n \<rparr>" using assms(1) by (auto simp: DataSlot_Inr_iff)
  have "py_stride (nat i) (nat n) rows =
      map snd (filter (\<lambda>(j, x). j mod nat n = nat i) (zip [0..<length rows] rows))"
    using py_stride_filter [of "nat i" "nat n" 0 "nat i" rows] s by simp
  also have "\<dots> = map snd (filter (\<lambda>(j, x). slot_owns s j) (zip (map int [0..<length rows]) rows))"
  proof -
    have "slot_owns s (int j) \<longleftrightarrow> j mod nat n = nat i" for j
      using s by (simp add: slot_owns_def nat_eq_iff2 zmod_int [symmetric] eq_nat_nat_iff)
        (metis int_nat_eq le_less_trans nat_int of_nat_mod less_imp_le)
    then have "filter (\<lambda>(j, x). slot_owns s j) (map (\<lambda>(j, x). (int j, x)) zs) =
        map (\<lambda>(j, x). (int j, x)) (filter (\<lambda>(j, x). j mod nat n = nat i) zs)" for zs :: "(nat \<times> 'a) list"
      by (induction zs) auto
    then show ?thesis by (simp add: zip_map1 comp_def case_prod_beta)
  qed
  finally show ?thesis
    using assms(2) s by (auto simp: slot_rows_def slot_numbered_def Let_def split: if_splits)
qed

lemma run_end_spec:
  "run_end step final xs = (l, ys) \<Longrightarrow>
   \<exists>k. xs = map (\<lambda>i. final + step * int i) [1..<Suc k] @ ys \<and> l = final + step * int k"
proof (induction step final xs rule: run_end.induct)
  case (2 step final x xs)
  show ?case
  proof (cases "x - final = step")
    case True
    then obtain k where k: "xs = map (\<lambda>i. x + step * int i) [1..<Suc k] @ ys" "l = x + step * int k"
      using 2 by auto
    have x: "x = final + step" using True by simp
    have "map (\<lambda>i. final + step * int i) [1..<Suc (Suc k)] =
        (final + step) # map (\<lambda>i. final + step * int i) (map Suc [1..<Suc k])"
      by (simp add: map_Suc_upt upt_conv_Cons del: upt_Suc)
    then have "x # xs = map (\<lambda>i. final + step * int i) [1..<Suc (Suc k)] @ ys"
      using k(1) x by (simp add: comp_def algebra_simps del: upt_Suc)
    then show ?thesis using k(2) x by (intro exI [of _ "Suc k"]) (simp add: algebra_simps del: upt_Suc)
  next
    case False
    then show ?thesis using 2 by (intro exI [of _ 0]) simp
  qed
qed (simp add: exI [of _ 0])

lemma py_range_run:
  assumes "step \<ge> 1"
  shows "py_range x (x + step * int k + 1) step = map (\<lambda>i. x + step * int i) [0..<Suc k]"
proof -
  have "(x + step * int k + 1 - x + step - 1) div step = int k + 1"
    using assms by (simp add: algebra_simps)
  then show ?thesis by (simp add: py_range_def nat_add_distrib del: upt_Suc)
qed

lemma runs_of_decode:
  assumes "sorted_wrt (<) xs"
  shows "rfold (\<lambda>run rows. rbind (run_length run) (\<lambda>_. case run of (first, final, step) \<Rightarrow>
           Inr (rows @ py_range first (final + 1) step))) (runs_of xs) acc = Inr (acc @ xs)"
    and "rfold (\<lambda>run n. rbind (run_length run) (\<lambda>k. Inr (n + k))) (runs_of xs) m = Inr (m + int (length xs))"
    and "2 * length (runs_of xs) \<le> length xs + 1"
  using assms
proof (induction xs arbitrary: acc m rule: runs_of.induct)
  case (2 x)
  case 1 then show ?case by (simp add: run_length_def py_range_def)
  case 2 then show ?case by (simp add: run_length_def)
  case 3 then show ?case by simp
next
  case (3 x y ys)
  obtain l rest where e: "run_end (y - x) y ys = (l, rest)" by fastforce
  obtain k where k: "ys = map (\<lambda>i. y + (y - x) * int i) [1..<Suc k] @ rest" "l = y + (y - x) * int k"
    using run_end_spec [OF e] by auto
  have l: "l = x + (y - x) * int (Suc k)" using k(2) by (simp add: algebra_simps)
  define run where "run = map (\<lambda>i. x + (y - x) * int i) [0..<Suc (Suc k)]"
  have "map (\<lambda>i. y + (y - x) * int i) [1..<Suc k] = map (\<lambda>i. x + (y - x) * int i) (map Suc [1..<Suc k])"
    by (simp add: algebra_simps)
  then have all: "x # y # ys = run @ rest"
    using k(1) unfolding run_def map_Suc_upt by (simp add: upt_conv_Cons algebra_simps del: upt_Suc)
  {
    assume so: "sorted_wrt (<) (x # y # ys)"
    have step: "y - x \<ge> 1" using so by simp
    have so': "sorted_wrt (<) rest" using so unfolding all by (simp add: sorted_wrt_append)
    have len: "run_length (x, l, y - x) = Inr (int k + 2)"
      using step l by (simp add: run_length_def not_less)
    have rng: "py_range x (l + 1) (y - x) = run"
      unfolding l run_def by (rule py_range_run [OF step])
    have "length run = k + 2" by (simp add: run_def)
    note so' len rng this
  } note facts = this
  { case 1
    note f = facts [OF 1]
    show ?case using "3.IH"(1) [OF e [symmetric] f(1)] f by (simp add: e) (simp add: all)
  }
  { case 2
    note f = facts [OF 2]
    show ?case using "3.IH"(2) [OF e [symmetric] f(1)] f arg_cong [OF all, of length] by (simp add: e)
  }
  { case 3
    note f = facts [OF 3]
    show ?case using "3.IH"(3) [OF e [symmetric] f(1)] f arg_cong [OF all, of length] by (simp add: e)
  }
qed simp_all

lemma sorted_distinct_strict: "sorted xs \<Longrightarrow> distinct xs \<Longrightarrow> sorted_wrt (<) (xs :: 'a::linorder list)"
  by (induction xs) (auto simp: order.strict_iff_order)

lemma plan_stride_cases:
  assumes "plan_data_split req ids tasks roles ext smp blk dbs = Inr p" and "mode p = STRIDE"
  shows "islands p = ids \<and> 2 \<le> length ids"
  using assms
  by (auto simp: plan_data_split_def DataSplitPlan_def Let_def split: if_splits option.splits list.splits)

text \<open>What one island of the launch reads in a pass: its slot's rows in the order of the pass.\<close>

definition island_pass ::
  "(string \<Rightarrow> bytes) \<Rightarrow> (nat \<Rightarrow> nat list \<Rightarrow> nat list) \<Rightarrow> split_plan \<Rightarrow> int \<Rightarrow> int \<Rightarrow> 'a list \<Rightarrow> int \<Rightarrow>
   split_error + 'a list" where
  "island_pass sha256 shuffle p seed data_pass rows learner_id =
     rbind (plan_slot p learner_id) (\<lambda>slot. case slot of
        None \<Rightarrow> Inr []
      | Some s \<Rightarrow> rbind (slot_rows s rows) (\<lambda>out.
          Inr (map ((!) out) (pass_order sha256 shuffle (int (length out)) seed data_pass 0))))"

lemma pass_order_permutes:
  assumes "\<And>s xs. mset (shuffle s xs) = mset xs"
  shows "mset (map ((!) out) (pass_order sha256 shuffle (int (length out)) seed data_pass stream)) = mset out"
proof -
  have "mset (pass_order sha256 shuffle (int (length out)) seed data_pass stream) = mset [0..<length out]"
    by (simp add: pass_order_def Let_def assms del: mset_upt)
  then have "mset (map ((!) out) (pass_order sha256 shuffle (int (length out)) seed data_pass stream)) =
      mset (map ((!) out) [0..<length out])"
    by (simp del: mset_upt)
  then show ?thesis by (simp only: map_nth)
qed

lemma slot_class:
  assumes "r < n" and "n \<le> length rows"
  shows "slot_rows \<lparr> index = int r, count = int n \<rparr> rows =
         Inr (map snd (filter (\<lambda>z. fst z mod n = r) (zip [0..<length rows] rows)))"
proof -
  have eq: "py_stride r n rows = map snd (filter (\<lambda>z. fst z mod n = r) (zip [0..<length rows] rows))"
    using py_stride_filter [of r n 0 r rows] assms(1) by (simp add: case_prod_unfold)
  have "(r, rows ! r) \<in> set (filter (\<lambda>z. fst z mod n = r) (zip [0..<length rows] rows))"
    using assms by (auto simp: in_set_zip intro!: exI [of _ r])
  then have "filter (\<lambda>z. fst z mod n = r) (zip [0..<length rows] rows) \<noteq> []" by (metis empty_iff list.set(1))
  then show ?thesis using eq by (simp add: slot_rows_def)
qed

section \<open>Properties\<close>

text \<open>
  C14. In every pass the training islands of a launch that splits by stride together read every
  row of the data exactly once: no island's slot is empty, no row is read twice and none is
  left out, whatever order the seeded shuffle gives each of them.
\<close>

theorem stride_pass_reads_each_row_once:
  fixes rows :: "'a list"
  assumes "plan_data_split req ids tasks roles ext smp blk dbs = Inr p" and "mode p = STRIDE"
    and "distinct ids" and "length ids \<le> length rows"
    and "\<And>s xs. mset (shuffle s xs) = mset xs"
  shows "\<exists>reads. rmap (island_pass sha shuffle p seed data_pass rows) ids = Inr reads \<and>
           mset (concat reads) = mset rows"
proof -
  have p: "islands p = ids" "2 \<le> length ids" using plan_stride_cases assms(1,2) by blast+
  let ?n = "length ids" let ?zs = "zip [0..<length rows] rows"
  define part where "part r = map snd (filter (\<lambda>z. fst z mod ?n = r) ?zs)" for r
  define order where "order xs = map ((!) xs) (pass_order sha shuffle (int (length xs)) seed data_pass 0)"
    for xs :: "'a list"
  have "island_pass sha shuffle p seed data_pass rows k = Inr (order (part (index_of k ids)))"
    if "k \<in> set ids" for k
    using that p index_of_less [OF that] slot_class [of "index_of k ids" ?n rows] assms(2,4)
    by (simp add: island_pass_def plan_slot_def DataSlot_def order_def part_def)
  then have "rmap (island_pass sha shuffle p seed data_pass rows) ids =
      Inr (map (\<lambda>k. order (part (index_of k ids))) ids)"
    by (simp add: rmap_Inr_iff list_all2_map2 list_all2_same)
  moreover have "mset (concat (map (\<lambda>k. order (part (index_of k ids))) ids)) = mset rows"
  proof -
    have "mset (order xs) = mset xs" for xs
      unfolding order_def using assms(5) by (rule pass_order_permutes)
    then have "mset (concat (map (\<lambda>k. order (part (index_of k ids))) ids)) =
        mset (concat (map part (map (\<lambda>k. index_of k ids) ids)))"
      by (simp add: mset_concat comp_def)
    also have "\<dots> = mset (map snd (concat (map (\<lambda>r. filter (\<lambda>z. fst z mod ?n = r) ?zs) [0..<?n])))"
      by (simp add: map_index_of assms(3) part_def [abs_def] map_concat comp_def)
    also have "\<dots> = image_mset snd (mset (filter (\<lambda>z. fst z mod ?n < ?n) ?zs))"
      by (simp only: mset_map mset_classes)
    also have "filter (\<lambda>z. fst z mod ?n < ?n) ?zs = ?zs"
      using p by (intro filter_True) (auto intro!: mod_less_divisor)
    finally show ?thesis by (simp flip: mset_map)
  qed
  ultimately show ?thesis by blast
qed

theorem stride_pass_reads_each_row_once_witness:
  "\<exists>p reads. plan_data_split (Some STRIDE) [0, 4] False False 0 [] None None = Inr p \<and>
     rmap (island_pass (\<lambda>_. []) (\<lambda>_. rev) p 7 1 ''abcde'') [0, 4] = Inr reads \<and>
     mset (concat reads) = mset ''abcde''"
proof -
  have "plan_data_split (Some STRIDE) [0, 4] False False 0 [] None None =
      Inr (DataSplitPlan STRIDE STRIDE [0, 4] [] [])"
    by (simp add: plan_data_split_def DATA_SPLITS_def Let_def)
  note plan = this
  show ?thesis
    using plan stride_pass_reads_each_row_once [where rows = "''abcde''" and shuffle = "\<lambda>_. rev" and
        sha = "\<lambda>_. []" and seed = 7 and data_pass = 1, OF plan]
    by (simp add: DataSplitPlan_def)
qed

text \<open>
  C37. The runs that a round's record holds decode to exactly the distinct rows of the round in
  ascending order, the count read without decoding is their number, and there is at most one
  run per two rows (rounded up).
\<close>

theorem row_runs_roundtrip:
  "rows_of_runs (row_runs rows) = Inr (sort (remdups rows)) \<and>
   run_row_count (row_runs rows) = Inr (int (card (set rows))) \<and>
   2 * length (row_runs rows) \<le> card (set rows) + 1"
proof -
  have "sorted_wrt (<) (sort (remdups rows))" by (simp add: sorted_distinct_strict)
  note dec = runs_of_decode [OF this]
  show ?thesis
    using dec(1) [of "[]"] dec(2) [of 0] dec(3)
    by (simp add: row_runs_def rows_of_runs_def run_row_count_def length_remdups_card_conv)
qed

end
