(* ===== verification/Version_Segments.thy ===== *)
theory Version_Segments
  imports Complex_Main Yeto_Prelude
begin

text \<open>
  Version segments of sampled tokens (\<open>yeto/rl/engine/version_segments.py\<close>): the policy
  version that generated each response token, its compact form as segments, the truncated
  importance weights across versions, the in-flight trajectories that a cut carries and the
  governor of the policy-age limit.

  Floats are rationals, so the finiteness test of a log-probability always passes;
  \<open>math.exp\<close> is an argument of \<open>cross_version_is\<close>.  A JSON mapping is a record whose
  missing keys are \<open>None\<close>.  The lemmas show that a provenance survives its compact form, that
  the weights stay in the clip range, and what a restore resumes.
\<close>

datatype provenance_error =
    LengthMismatch
  | NegativeVersion
  | PositiveLogprob
  | UnknownSchema "string option"
  | NotATriple
  | SegmentsDoNotTile
  | TrainLogprobsMissing
  | BadClip
  | FutureVersion int int
  | MissingKey string
  | BadFractions

abbreviation PROVENANCE_SCHEMA :: string where "PROVENANCE_SCHEMA \<equiv> ''yeto-token-provenance-v1''"
abbreviation IN_FLIGHT_SCHEMA :: string where "IN_FLIGHT_SCHEMA \<equiv> ''yeto-in-flight-trajectory-v1''"

section \<open>Token provenance\<close>

record token_provenance =
  versions :: "int list"
  logprobs :: "rat list"

definition TokenProvenance :: "int list \<Rightarrow> rat list \<Rightarrow> provenance_error + token_provenance" where
  "TokenProvenance vs ps =
     (if length vs \<noteq> length ps then Inl LengthMismatch
      else if \<exists>v \<in> set vs. v < 0 then Inl NegativeVersion
      else if \<exists>p \<in> set ps. p > 0 then Inl PositiveLogprob
      else Inr \<lparr> versions = vs, logprobs = ps \<rparr>)"

text \<open>One turn of the loop of \<open>segments\<close>: token \<open>i\<close> of version \<open>v\<close> extends the last segment
  or opens a new one.\<close>

definition push_token :: "(int \<times> nat \<times> nat) list \<Rightarrow> nat \<times> int \<Rightarrow> (int \<times> nat \<times> nat) list" where
  "push_token out iv = (case iv of (i, v) \<Rightarrow>
     if out \<noteq> [] \<and> fst (last out) = v
     then butlast out @ [(v, fst (snd (last out)), i + 1)]
     else out @ [(v, i, i + 1)])"

definition segments :: "token_provenance \<Rightarrow> (int \<times> nat \<times> nat) list" where
  "segments p = foldl push_token [] (zip [0..<length (versions p)] (versions p))"

definition oldest :: "token_provenance \<Rightarrow> int option" where
  "oldest p = (case versions p of [] \<Rightarrow> None | v # vs \<Rightarrow> Some (fold min vs v))"

record provenance_doc =
  pd_schema :: "string option"
  pd_segments :: "int list list option"
  pd_logprobs :: "rat list option"

definition provenance_to_dict :: "token_provenance \<Rightarrow> provenance_doc" where
  "provenance_to_dict p =
     \<lparr> pd_schema = Some PROVENANCE_SCHEMA,
       pd_segments = Some (map (\<lambda>(v, start, stop). [v, int start, int stop]) (segments p)),
       pd_logprobs = Some (logprobs p) \<rparr>"

definition read_segment :: "int list \<Rightarrow> int list \<Rightarrow> provenance_error + int list" where
  "read_segment seg vs =
     (case seg of
        [v, start, stop] \<Rightarrow>
          if start \<noteq> int (length vs) \<or> stop \<le> start then Inl SegmentsDoNotTile
          else Inr (vs @ replicate (nat (stop - start)) v)
      | _ \<Rightarrow> Inl NotATriple)"

definition provenance_from_dict :: "provenance_doc \<Rightarrow> provenance_error + token_provenance" where
  "provenance_from_dict raw =
     (if pd_schema raw \<noteq> Some PROVENANCE_SCHEMA then Inl (UnknownSchema (pd_schema raw))
      else rbind (rfold read_segment (case pd_segments raw of None \<Rightarrow> [] | Some segs \<Rightarrow> segs) [])
        (\<lambda>vs. TokenProvenance vs (case pd_logprobs raw of None \<Rightarrow> [] | Some ps \<Rightarrow> ps)))"

definition extend :: "token_provenance \<Rightarrow> int \<Rightarrow> rat list \<Rightarrow> provenance_error + token_provenance" where
  "extend p version ps =
     TokenProvenance (versions p @ replicate (length ps) version) (logprobs p @ ps)"

section \<open>Importance weights across versions\<close>

record is_correction =
  weights :: "rat list"
  cross_version_tokens :: nat
  truncated_tokens :: nat

definition truncated_fraction :: "is_correction \<Rightarrow> rat option" where
  "truncated_fraction c =
     (if cross_version_tokens c \<noteq> 0
      then Some (of_nat (truncated_tokens c) / of_nat (cross_version_tokens c)) else None)"

text \<open>One turn of the loop over the tokens \<open>(version, generation, training)\<close>.\<close>

definition weigh_token ::
  "(rat \<Rightarrow> rat) \<Rightarrow> int \<Rightarrow> rat \<Rightarrow> rat \<Rightarrow> int \<times> rat \<times> rat \<Rightarrow> is_correction \<Rightarrow> provenance_error + is_correction" where
  "weigh_token exp_of current lo hi tok c = (case tok of (v, gen, train) \<Rightarrow>
     if v = current then Inr (c\<lparr> weights := weights c @ [1] \<rparr>)
     else if v > current then Inl (FutureVersion v current)
     else let ratio = exp_of (train - gen);
              clipped = min (max ratio lo) hi
          in Inr \<lparr> weights = weights c @ [clipped],
                   cross_version_tokens = cross_version_tokens c + 1,
                   truncated_tokens = truncated_tokens c + (if clipped \<noteq> ratio then 1 else 0) \<rparr>)"

definition cross_version_is ::
  "(rat \<Rightarrow> rat) \<Rightarrow> token_provenance \<Rightarrow> rat list \<Rightarrow> int \<Rightarrow> rat \<Rightarrow> rat \<Rightarrow> provenance_error + is_correction" where
  "cross_version_is exp_of p train current lo hi =
     (if length train \<noteq> length (versions p) then Inl TrainLogprobsMissing
      else if \<not> (0 \<le> lo \<and> lo \<le> 1 \<and> 1 \<le> hi) then Inl BadClip
      else rfold (weigh_token exp_of current lo hi) (zip (versions p) (zip (logprobs p) train))
        \<lparr> weights = [], cross_version_tokens = 0, truncated_tokens = 0 \<rparr>)"

definition batch_truncated_fraction :: "is_correction list \<Rightarrow> rat option" where
  "batch_truncated_fraction cs =
     (let crossed = sum_list (map cross_version_tokens cs);
          truncated = sum_list (map truncated_tokens cs)
      in if crossed \<noteq> 0 then Some (of_nat truncated / of_nat crossed) else None)"

section \<open>In-flight trajectories\<close>

record in_flight =
  trajectory_id :: string
  group_id :: string
  task_id :: string
  provenance :: token_provenance
  session_ref :: "string option"

record in_flight_doc =
  id_schema :: "string option"
  id_trajectory :: "string option"
  id_group :: "string option"
  id_task :: "string option"
  id_provenance :: "provenance_doc option"
  id_session :: "string option"

definition in_flight_to_dict :: "in_flight \<Rightarrow> in_flight_doc" where
  "in_flight_to_dict t =
     \<lparr> id_schema = Some IN_FLIGHT_SCHEMA, id_trajectory = Some (trajectory_id t),
       id_group = Some (group_id t), id_task = Some (task_id t),
       id_provenance = Some (provenance_to_dict (provenance t)),
       id_session = (case session_ref t of Some (c # cs) \<Rightarrow> Some (c # cs) | _ \<Rightarrow> None) \<rparr>"

definition need :: "string \<Rightarrow> 'a option \<Rightarrow> provenance_error + 'a" where
  "need key x = (case x of None \<Rightarrow> Inl (MissingKey key) | Some y \<Rightarrow> Inr y)"

definition in_flight_from_dict :: "in_flight_doc \<Rightarrow> provenance_error + in_flight" where
  "in_flight_from_dict raw =
     (if id_schema raw \<noteq> Some IN_FLIGHT_SCHEMA then Inl (UnknownSchema (id_schema raw))
      else rbind (need ''trajectory_id'' (id_trajectory raw)) (\<lambda>t.
           rbind (need ''group_id'' (id_group raw)) (\<lambda>g.
           rbind (need ''task_id'' (id_task raw)) (\<lambda>k.
           rbind (rbind (need ''provenance'' (id_provenance raw)) provenance_from_dict) (\<lambda>p.
             Inr \<lparr> trajectory_id = t, group_id = g, task_id = k, provenance = p,
                   session_ref = id_session raw \<rparr>)))))"

record in_flight_restore =
  resumed :: "in_flight list"
  discarded :: "(in_flight \<times> string) list"

record restore_summary =
  rr_resumed :: nat
  rr_discarded :: nat
  rr_discarded_tokens :: nat
  rr_reasons :: "(string, nat) dict"

definition restore_report :: "in_flight_restore \<Rightarrow> restore_summary" where
  "restore_report r =
     \<lparr> rr_resumed = length (resumed r), rr_discarded = length (discarded r),
       rr_discarded_tokens = sum_list (map (\<lambda>(t, _). length (versions (provenance t))) (discarded r)),
       rr_reasons = fold (\<lambda>(_, why) reasons.
          dict_set why ((case dict_get reasons why of None \<Rightarrow> 0 | Some n \<Rightarrow> n) + 1) reasons)
          (discarded r) [] \<rparr>"

text \<open>An entry of the cut's section is a mapping (\<open>Inl\<close>) or already a trajectory (\<open>Inr\<close>).\<close>

definition restore_one ::
  "int \<Rightarrow> int \<Rightarrow> string list \<Rightarrow> in_flight_doc + in_flight \<Rightarrow> in_flight_restore \<Rightarrow>
   provenance_error + in_flight_restore" where
  "restore_one max_policy_age current completed raw r =
     rbind (case raw of Inr t \<Rightarrow> Inr t | Inl d \<Rightarrow> in_flight_from_dict d) (\<lambda>t.
       Inr (if max_policy_age = 0 then r\<lparr> discarded := discarded r @ [(t, ''limit_zero'')] \<rparr>
            else if group_id t \<in> set completed then
              r\<lparr> discarded := discarded r @ [(t, ''group_already_completed'')] \<rparr>
            else case oldest (provenance t) of
                Some v \<Rightarrow>
                  if current - v > max_policy_age
                  then r\<lparr> discarded := discarded r @ [(t, ''policy_age_exceeded'')] \<rparr>
                  else r\<lparr> resumed := resumed r @ [t] \<rparr>
              | None \<Rightarrow> r\<lparr> resumed := resumed r @ [t] \<rparr>))"

definition restore_in_flight ::
  "(in_flight_doc + in_flight) list \<Rightarrow> int \<Rightarrow> int \<Rightarrow> string list \<Rightarrow> provenance_error + in_flight_restore" where
  "restore_in_flight entries max_policy_age current completed =
     rfold (restore_one max_policy_age current completed) entries \<lparr> resumed = [], discarded = [] \<rparr>"

section \<open>The governor of the policy-age limit\<close>

datatype governor_event =
    Fallback int rat int
  | Warning int rat int

record governor =
  limit :: int
  warn_fraction :: rat
  fallback_fraction :: rat
  gov_events :: "governor_event list"
  configured :: int

definition PolicyAgeGovernor :: "int \<Rightarrow> rat \<Rightarrow> rat \<Rightarrow> provenance_error + governor" where
  "PolicyAgeGovernor lmt warn fallback =
     (if \<not> (0 \<le> warn \<and> warn \<le> fallback \<and> fallback \<le> 1) then Inl BadFractions
      else Inr \<lparr> limit = lmt, warn_fraction = warn, fallback_fraction = fallback, gov_events = [],
                 configured = lmt \<rparr>)"

definition observe :: "governor \<Rightarrow> int \<Rightarrow> rat option \<Rightarrow> governor \<times> int" where
  "observe g rollout_id fraction =
     (case fraction of
        None \<Rightarrow> (g, limit g)
      | Some f \<Rightarrow>
          if limit g = 0 then (g, limit g)
          else if f > fallback_fraction g then
            (g\<lparr> gov_events := gov_events g @ [Fallback rollout_id f (limit g)], limit := 0 \<rparr>, 0)
          else if f > warn_fraction g then
            (g\<lparr> gov_events := gov_events g @ [Warning rollout_id f (limit g)] \<rparr>, limit g)
          else (g, limit g))"

section \<open>Lemmas\<close>

lemma TokenProvenance_Inr_iff:
  "TokenProvenance vs ps = Inr p \<longleftrightarrow>
     length vs = length ps \<and> (\<forall>v \<in> set vs. 0 \<le> v) \<and> (\<forall>q \<in> set ps. q \<le> 0) \<and>
     p = \<lparr> versions = vs, logprobs = ps \<rparr>"
  by (auto simp: TokenProvenance_def simp flip: not_less)

definition seg_row :: "int \<times> nat \<times> nat \<Rightarrow> int list" where
  "seg_row s = (case s of (v, start, stop) \<Rightarrow> [v, int start, int stop])"

lemma read_segment_row:
  "read_segment (seg_row (v, start, stop)) vs = Inr ws \<longleftrightarrow>
     start = length vs \<and> start < stop \<and> ws = vs @ replicate (stop - start) v"
  by (auto simp: seg_row_def read_segment_def nat_diff_distrib)

text \<open>The segments of a token list read back to it, are maximal runs and end at its length.\<close>

lemma push_tokens_read:
  "let out = foldl push_token [] (zip [0..<length vs] vs) in
     rfold read_segment (map seg_row out) [] = Inr vs \<and>
     (out \<noteq> [] \<longrightarrow> snd (snd (last out)) = length vs) \<and>
     successively (\<lambda>a b. fst a \<noteq> fst b) out"
proof (induction vs rule: rev_induct)
  case (snoc v vs)
  define out where "out = foldl push_token [] (zip [0..<length vs] vs)"
  have IH: "rfold read_segment (map seg_row out) [] = Inr vs"
      "out \<noteq> [] \<longrightarrow> snd (snd (last out)) = length vs" "successively (\<lambda>a b. fst a \<noteq> fst b) out"
    using snoc unfolding out_def Let_def by blast+
  have step: "foldl push_token [] (zip [0..<length (vs @ [v])] (vs @ [v])) = push_token out (length vs, v)"
    by (simp add: out_def)
  show ?case
  proof (cases "out \<noteq> [] \<and> fst (last out) = v")
    case True
    obtain s where l: "last out = (v, s, length vs)" using True IH(2) by (metis prod.collapse)
    have out: "out = butlast out @ [(v, s, length vs)]" using True l by (metis append_butlast_last_id)
    obtain pre where pre: "rfold read_segment (map seg_row (butlast out)) [] = Inr pre"
        "read_segment (seg_row (v, s, length vs)) pre = Inr vs"
      using IH(1) by (subst (asm) out) (auto simp: rfold_append rbind_Inr_iff)
    have "read_segment (seg_row (v, s, length vs + 1)) pre = Inr (vs @ [v])"
    proof -
      have k: "s = length pre" "s < length vs" "vs = pre @ replicate (length vs - s) v"
        using pre(2) unfolding read_segment_row by blast+
      have "vs @ [v] = pre @ replicate (length vs + 1 - s) v"
        using k(2) by (subst k(3)) (simp add: Suc_diff_le replicate_append_same)
      then show ?thesis using k(1,2) unfolding read_segment_row by simp
    qed
    moreover have "successively (\<lambda>a b. fst a \<noteq> fst b) (butlast out @ [(v, s, length vs + 1)])"
      using IH(3) by (subst (asm) out) (auto simp: successively_append_iff)
    ultimately show ?thesis
      unfolding step using True l pre(1) by (simp add: push_token_def rfold_append Let_def)
  next
    case False
    then have "push_token out (length vs, v) = out @ [(v, length vs, length vs + 1)]"
      by (auto simp: push_token_def)
    moreover have "read_segment (seg_row (v, length vs, length vs + 1)) vs = Inr (vs @ [v])"
      unfolding read_segment_row by simp
    ultimately show ?thesis
      unfolding step using False IH by (auto simp: rfold_append Let_def successively_append_iff)
  qed
qed simp

lemma provenance_roundtrip:
  assumes "TokenProvenance (versions p) (logprobs p) = Inr p"
  shows "provenance_from_dict (provenance_to_dict p) = Inr p"
proof -
  have "(\<lambda>(v, start, stop). [v, int start, int stop]) = seg_row" by (auto simp: seg_row_def)
  then have "rfold read_segment (map (\<lambda>(v, start, stop). [v, int start, int stop]) (segments p)) [] =
      Inr (versions p)"
    using push_tokens_read [of "versions p"] by (simp add: segments_def Let_def)
  then show ?thesis using assms by (simp add: provenance_from_dict_def provenance_to_dict_def)
qed

lemma fold_min_le: "(v :: 'a::linorder) \<in> set (a # vs) \<Longrightarrow> fold min vs a \<le> v"
  by (metis Min.set_eq_fold Min_le List.finite_set)

lemma oldest_le: "oldest p = Some o' \<Longrightarrow> v \<in> set (versions p) \<Longrightarrow> o' \<le> v"
  using fold_min_le by (fastforce simp: oldest_def split: list.splits)

definition weights_ok :: "rat \<Rightarrow> rat \<Rightarrow> is_correction \<Rightarrow> bool" where
  "weights_ok lo hi c \<longleftrightarrow> (\<forall>w \<in> set (weights c). lo \<le> w \<and> w \<le> hi) \<and>
     truncated_tokens c \<le> cross_version_tokens c \<and> cross_version_tokens c \<le> length (weights c)"

lemma weigh_tokens_ok:
  assumes "rfold (weigh_token exp_of current lo hi) toks c = Inr c'"
    and "weights_ok lo hi c" and "lo \<le> 1" and "1 \<le> hi"
  shows "weights_ok lo hi c' \<and> length (weights c') = length (weights c) + length toks \<and>
    cross_version_tokens c' = cross_version_tokens c + length (filter (\<lambda>t. fst t \<noteq> current) toks) \<and>
    (\<forall>t \<in> set toks. fst t \<le> current)"
  using assms
proof (induction toks arbitrary: c)
  case (Cons t toks)
  obtain v gen train where t: "t = (v, gen, train)" by (cases t)
  obtain c1 where c1: "weigh_token exp_of current lo hi t c = Inr c1"
      "rfold (weigh_token exp_of current lo hi) toks c1 = Inr c'"
    using Cons.prems(1) by (auto simp: rbind_Inr_iff)
  have "weights_ok lo hi c1 \<and> length (weights c1) = Suc (length (weights c)) \<and> v \<le> current \<and>
      cross_version_tokens c1 = cross_version_tokens c + (if v = current then 0 else 1)"
    using c1(1) Cons.prems(2-4) unfolding t
    by (auto simp: weigh_token_def weights_ok_def Let_def split: if_splits)
  then show ?case using Cons.IH [OF c1(2)] Cons.prems(3,4) t by auto
qed simp

lemma limit_only_down: "limit (fst (observe g r f)) = limit g \<or> limit (fst (observe g r f)) = 0"
  by (auto simp: observe_def split: option.splits)

text \<open>The verdict of a restore on one trajectory: \<open>None\<close> resumes it.\<close>

definition restore_verdict :: "int \<Rightarrow> int \<Rightarrow> string list \<Rightarrow> in_flight \<Rightarrow> string option" where
  "restore_verdict max_policy_age current completed t =
     (if max_policy_age = 0 then Some ''limit_zero''
      else if group_id t \<in> set completed then Some ''group_already_completed''
      else if \<exists>v \<in> set (versions (provenance t)). current - v > max_policy_age
      then Some ''policy_age_exceeded'' else None)"

lemma oldest_exceeds:
  "(case oldest p of Some v \<Rightarrow> current - v > age | None \<Rightarrow> False) \<longleftrightarrow>
   (\<exists>v \<in> set (versions p). current - v > age)"
proof (cases "versions p")
  case (Cons v vs)
  then have "oldest p = Some (Min (set (versions p)))"
    by (simp add: oldest_def Min.set_eq_fold del: list.set)
  then show ?thesis using Cons oldest_le [of p]
    by (metis (mono_tags, lifting) List.finite_set Min_in diff_left_mono list.discI option.simps(5)
        order_less_le_trans set_empty)
qed (simp add: oldest_def)

lemma restore_one_verdict:
  "restore_one age current completed (Inr t) r =
     Inr (case restore_verdict age current completed t of
            None \<Rightarrow> r\<lparr> resumed := resumed r @ [t] \<rparr>
          | Some why \<Rightarrow> r\<lparr> discarded := discarded r @ [(t, why)] \<rparr>)"
  using oldest_exceeds [where p = "provenance t" and current = current and age = age]
  by (cases "oldest (provenance t)") (auto simp: restore_one_def restore_verdict_def)

lemma restore_entries:
  assumes "list_all2 (\<lambda>e t. (case e of Inr t' \<Rightarrow> Inr t' | Inl d \<Rightarrow> in_flight_from_dict d) = Inr t) es ts"
  shows "rfold (restore_one age current completed) es r =
     Inr \<lparr> resumed = resumed r @ filter (\<lambda>t. restore_verdict age current completed t = None) ts,
           discarded = discarded r @ List.map_filter (\<lambda>t.
             map_option (Pair t) (restore_verdict age current completed t)) ts \<rparr>"
  using assms
proof (induction es ts arbitrary: r rule: list_all2_induct)
  case (Cons e es t ts)
  have "restore_one age current completed e r = restore_one age current completed (Inr t) r"
    using Cons(1) by (cases e) (auto simp: restore_one_def)
  then show ?case
    using Cons(3) by (simp add: restore_one_verdict map_filter_simps split: option.splits)
qed (simp add: map_filter_simps)

lemma in_flight_roundtrip:
  assumes "TokenProvenance (versions (provenance t)) (logprobs (provenance t)) = Inr (provenance t)"
    and "session_ref t \<noteq> Some []"
  shows "in_flight_from_dict (in_flight_to_dict t) = Inr t"
  using assms provenance_roundtrip [OF assms(1)]
  by (auto simp: in_flight_from_dict_def in_flight_to_dict_def need_def split: option.splits list.splits)

section \<open>Properties\<close>

text \<open>
  C15. What a cut writes of its in-flight trajectories, a restore reads back and sorts in order:
  it resumes exactly those whose every token is within the policy-age limit and whose group was
  not completed, so no completed group is used twice; with limit 0 it resumes none.
\<close>

theorem in_flight_restore_exact:
  assumes "\<forall>t \<in> set ts. TokenProvenance (versions (provenance t)) (logprobs (provenance t)) =
             Inr (provenance t) \<and> session_ref t \<noteq> Some []"
  shows "\<exists>r. restore_in_flight (map (Inl \<circ> in_flight_to_dict) ts) age current completed = Inr r \<and>
           resumed r = filter (\<lambda>t. age \<noteq> 0 \<and> group_id t \<notin> set completed \<and>
             (\<forall>v \<in> set (versions (provenance t)). current - v \<le> age)) ts \<and>
           mset (resumed r) + mset (map fst (discarded r)) = mset ts"
proof -
  let ?r = "\<lparr> resumed = filter (\<lambda>t. restore_verdict age current completed t = None) ts,
      discarded = List.map_filter (\<lambda>t. map_option (Pair t) (restore_verdict age current completed t)) ts \<rparr>"
  have "list_all2 (\<lambda>e t. (case e of Inr t' \<Rightarrow> Inr t' | Inl d \<Rightarrow> in_flight_from_dict d) = Inr t)
      (map (Inl \<circ> in_flight_to_dict) ts) ts"
    using assms in_flight_roundtrip by (auto simp: list_all2_conv_all_nth)
  from restore_entries [OF this, of age current completed "\<lparr> resumed = [], discarded = [] \<rparr>"]
  have "restore_in_flight (map (Inl \<circ> in_flight_to_dict) ts) age current completed = Inr ?r"
    by (simp add: restore_in_flight_def)
  moreover have "restore_verdict age current completed t = None \<longleftrightarrow>
      age \<noteq> 0 \<and> group_id t \<notin> set completed \<and> (\<forall>v \<in> set (versions (provenance t)). current - v \<le> age)" for t
    by (auto simp: restore_verdict_def simp flip: not_less)
  moreover have "mset (resumed ?r) + mset (map fst (discarded ?r)) = mset ts"
    by (induction ts) (auto simp: map_filter_simps split: option.splits)
  ultimately show ?thesis by (intro exI [of _ ?r]) simp
qed

definition ex_traj :: in_flight where
  "ex_traj = \<lparr> trajectory_id = ''t'', group_id = ''g'', task_id = ''k'',
     provenance = \<lparr> versions = [3, 3, 4], logprobs = [- 1, 0, - 2] \<rparr>, session_ref = None \<rparr>"

theorem in_flight_restore_exact_witness:
  "\<exists>r. restore_in_flight [Inl (in_flight_to_dict ex_traj)] 1 4 [''h''] = Inr r \<and> resumed r = [ex_traj]"
  using in_flight_restore_exact [of "[ex_traj]" 1 4 "[''h'']"]
  by (auto simp: ex_traj_def TokenProvenance_def)

text \<open>
  The importance weights of a response have one entry per token and lie in the clip range
  around 1, exactly the tokens of an older version are counted as crossed, at most those as
  truncated, and no token of a later version is ever weighted.
\<close>

theorem cross_version_weights_bounded:
  assumes "TokenProvenance (versions p) (logprobs p) = Inr p"
    and "cross_version_is exp_of p train current lo hi = Inr c"
  shows "length (weights c) = length (versions p) \<and> (\<forall>w \<in> set (weights c). lo \<le> w \<and> w \<le> hi) \<and>
    truncated_tokens c \<le> cross_version_tokens c \<and>
    cross_version_tokens c = length (filter (\<lambda>v. v \<noteq> current) (versions p)) \<and>
    (\<forall>v \<in> set (versions p). v \<le> current)"
proof -
  let ?toks = "zip (versions p) (zip (logprobs p) train)"
  have len: "length train = length (versions p)" "length (logprobs p) = length (versions p)"
    and clip: "lo \<le> 1" "1 \<le> hi"
    and run: "rfold (weigh_token exp_of current lo hi) ?toks
      \<lparr> weights = [], cross_version_tokens = 0, truncated_tokens = 0 \<rparr> = Inr c"
    using assms by (auto simp: cross_version_is_def TokenProvenance_Inr_iff split: if_splits)
  have fsts: "map fst ?toks = versions p" using len by simp
  then have cnt: "length (filter (\<lambda>t. fst t \<noteq> current) ?toks) = length (filter (\<lambda>v. v \<noteq> current) (versions p))"
    by (metis (no_types, lifting) length_map filter_map comp_def filter_cong)
  have "(\<forall>t \<in> set ?toks. fst t \<le> current) \<longleftrightarrow> (\<forall>v \<in> set (versions p). v \<le> current)"
    using fsts by (metis (mono_tags, lifting) image_iff set_map)
  then show ?thesis
    using weigh_tokens_ok [OF run _ clip] len cnt by (simp add: weights_ok_def)
qed

theorem cross_version_weights_bounded_witness:
  "\<exists>c. cross_version_is (\<lambda>x. 1 + x) (provenance ex_traj) [1, 2, 0] 4 0 2 = Inr c \<and>
     weights c = [2, 2, 1] \<and> length (weights c) = 3 \<and> truncated_tokens c \<le> cross_version_tokens c"
proof -
  have run: "cross_version_is (\<lambda>x. 1 + x) (provenance ex_traj) [1, 2, 0] 4 0 2 =
      Inr \<lparr> weights = [2, 2, 1], cross_version_tokens = 2, truncated_tokens = 2 \<rparr>"
    by (simp add: cross_version_is_def ex_traj_def weigh_token_def Let_def)
  show ?thesis
    using run cross_version_weights_bounded [OF _ run] by (simp add: ex_traj_def TokenProvenance_def)
qed

end
