(* ===== verification/Fleet_Plan.thy ===== *)
theory Fleet_Plan
  imports Complex_Main Yeto_Prelude "HOL-Library.Product_Lexorder"
begin

text \<open>
  The exact fleet-plan solver (\<open>yeto/shape/ilp.py\<close>): how many islands of each shape to run
  under a budget, vCPU quotas and an island cap.  The branch and bound of \<open>solve\<close> is modelled
  as it is written: the usable candidates in the order of their TFLOPs per dollar, the suffix
  maxima, the two bounds, the loop over the counts of one shape and the incumbent.

  Floats are rationals and \<open>math.inf\<close> is \<open>None\<close>; \<open>round9\<close> is \<open>round(x, 9)\<close> with ties to
  even.  An index \<open>i\<close> into the candidate order is the rest of that order; the dictionaries that
  the search fills and empties around each call are passed down.  The lemmas show that every
  plan the search looks at keeps the constraints up to the slack of the code, that no plan
  within the constraints beats the result, and so that the pruning loses nothing.
\<close>

section \<open>Candidates and plans\<close>

record candidate =
  key :: string
  region :: string
  gpu :: string
  instance_type :: string
  nodes :: int
  gpus_per_node :: int
  vcpus_per_island :: int
  price_per_hour :: rat
  eff_tflops :: rat
  quota_bucket :: "(string \<times> string) option"
  score :: "int option"
  assumed :: bool
  max_count :: "int option"
  cloud :: string
  price_source :: string

record plan =
  counts :: "(string, int) dict"
  total_tflops :: rat
  total_cost :: rat
  binding :: "string list"

definition EPS :: rat where
  "EPS = 1 / 1000000000"

text \<open>\<open>round(x, 9)\<close>: the nearest multiple of \<open>1e-9\<close>, ties to the even one.\<close>

definition round_even :: "rat \<Rightarrow> int" where
  "round_even x = (let f = \<lfloor>x\<rfloor>; r = x - of_int f in
     if r < 1 / 2 then f else if r > 1 / 2 then f + 1 else if even f then f else f + 1)"

definition round9 :: "rat \<Rightarrow> rat" where
  "round9 x = of_int (round_even (x * 1000000000)) / 1000000000"

definition ratio :: "candidate \<Rightarrow> rat option" where
  "ratio c = (if price_per_hour c \<le> 0 then None else Some (eff_tflops c / price_per_hour c))"

definition tiebreak :: "(string, int) dict \<Rightarrow> string list \<times> (string \<times> int) list" where
  "tiebreak cs = (sort (map fst cs), sort cs)"

text \<open>The sort key \<open>(-ratio, key)\<close>: an infinite ratio comes first.\<close>

definition order_key :: "candidate \<Rightarrow> (nat \<times> rat) \<times> string" where
  "order_key c = ((case ratio c of None \<Rightarrow> (0, 0) | Some r \<Rightarrow> (1, - r)), key c)"

section \<open>Suffix maxima\<close>

fun suffix_free :: "candidate list \<Rightarrow> bool" where
  "suffix_free [] = False"
| "suffix_free (c # cs) = (suffix_free cs \<or> ratio c = None)"

fun suffix_ratio :: "candidate list \<Rightarrow> rat" where
  "suffix_ratio [] = 0"
| "suffix_ratio (c # cs) = max (suffix_ratio cs) (case ratio c of None \<Rightarrow> 0 | Some r \<Rightarrow> r)"

fun suffix_tflops :: "candidate list \<Rightarrow> rat" where
  "suffix_tflops [] = 0"
| "suffix_tflops (c # cs) = max (suffix_tflops cs) (eff_tflops c)"

section \<open>The search\<close>

record incumbent =
  best_counts :: "(string, int) dict"
  best_tflops :: rat
  best_cost :: rat
  best_found :: bool
  best_key :: "rat \<times> rat"

definition plan_key :: "rat option \<Rightarrow> rat \<Rightarrow> rat \<Rightarrow> rat \<times> rat" where
  "plan_key target tflops cost =
     (case target of None \<Rightarrow> (round9 tflops, - round9 cost) | Some _ \<Rightarrow> (- round9 cost, round9 tflops))"

definition consider_plan :: "rat option \<Rightarrow> (string, int) dict \<Rightarrow> rat \<Rightarrow> rat \<Rightarrow> incumbent \<Rightarrow> incumbent" where
  "consider_plan target cur tflops cost b =
     (if (case target of None \<Rightarrow> False | Some t \<Rightarrow> tflops + EPS < t) then b
      else let k = plan_key target tflops cost in
        if \<not> best_found b \<or> k > best_key b \<or> (k = best_key b \<and> tiebreak cur < tiebreak (best_counts b))
        then b\<lparr> best_counts := cur, best_tflops := tflops, best_cost := cost, best_key := k,
                best_found := True \<rparr>
        else b)"

text \<open>The upper bound \<open>max_more\<close> on the TFLOPs the rest can add, and the two tests that prune.\<close>

definition max_more :: "candidate list \<Rightarrow> rat option \<Rightarrow> int \<Rightarrow> rat" where
  "max_more cs budget_left islands_left =
     (let slots = of_int islands_left * suffix_tflops cs in
      if suffix_free cs then slots
      else case budget_left of None \<Rightarrow> slots | Some l \<Rightarrow> min (l * suffix_ratio cs) slots)"

definition pruned ::
  "rat option \<Rightarrow> candidate list \<Rightarrow> rat option \<Rightarrow> int \<Rightarrow> rat \<Rightarrow> rat \<Rightarrow> incumbent \<Rightarrow> bool" where
  "pruned target cs budget_left islands_left tflops cost b =
     (let more = max_more cs budget_left islands_left in
      case target of
        Some t \<Rightarrow>
          round9 (tflops + more) < t - EPS \<or>
          (let extra = max 0 (t - tflops);
               lb = (if extra > 0 then (if suffix_free cs then 0 else extra / suffix_ratio cs) else 0)
           in best_found b \<and> round9 (cost + lb) > - fst (best_key b))
      | None \<Rightarrow>
          (let bound_r = round9 (tflops + more) in
           bound_r < fst (best_key b) \<or>
           bound_r = fst (best_key b) \<and> round9 cost > - snd (best_key b)))"

abbreviation bucket_get :: "(string \<times> string, rat) dict \<Rightarrow> string \<times> string \<Rightarrow> rat" where
  "bucket_get d b \<equiv> (case dict_get d b of None \<Rightarrow> 0 | Some v \<Rightarrow> v)"

definition cap_of :: "(string \<times> string, rat) dict \<Rightarrow> candidate \<Rightarrow> rat option" where
  "cap_of quota_limits c = (case quota_bucket c of None \<Rightarrow> None | Some bk \<Rightarrow> dict_get quota_limits bk)"

definition upper_count ::
  "(string \<times> string, rat) dict \<Rightarrow> candidate \<Rightarrow> rat option \<Rightarrow> int \<Rightarrow> (string \<times> string, rat) dict \<Rightarrow> int" where
  "upper_count quota_limits c budget_left islands_left quota_used =
     (let ub0 = islands_left;
          ub1 = (case max_count c of None \<Rightarrow> ub0 | Some k \<Rightarrow> min ub0 k);
          ub2 = (case budget_left of
                   None \<Rightarrow> ub1
                 | Some l \<Rightarrow> if price_per_hour c > 0 then min ub1 \<lfloor>(l + EPS) / price_per_hour c\<rfloor> else ub1)
      in case cap_of quota_limits c of
           None \<Rightarrow> ub2
         | Some cap \<Rightarrow>
             if vcpus_per_island c > 0 then
               let vcpu_room = cap - (case quota_bucket c of None \<Rightarrow> 0 | Some bk \<Rightarrow> bucket_get quota_used bk)
               in min ub2 (max 0 \<lfloor>(vcpu_room + EPS) / of_int (vcpus_per_island c)\<rfloor>)
             else ub2)"

definition use_quota ::
  "(string \<times> string, rat) dict \<Rightarrow> candidate \<Rightarrow> int \<Rightarrow> (string \<times> string, rat) dict \<Rightarrow>
   (string \<times> string, rat) dict" where
  "use_quota quota_limits c x quota_used =
     (case (cap_of quota_limits c, quota_bucket c) of
        (Some _, Some bk) \<Rightarrow>
          if x > 0 then dict_set bk (bucket_get quota_used bk + of_int (x * vcpus_per_island c)) quota_used
          else quota_used
      | _ \<Rightarrow> quota_used)"

fun dfs ::
  "rat option \<Rightarrow> (string \<times> string, rat) dict \<Rightarrow> candidate list \<Rightarrow> rat option \<Rightarrow> int \<Rightarrow> rat \<Rightarrow> rat \<Rightarrow>
   (string, int) dict \<Rightarrow> (string \<times> string, rat) dict \<Rightarrow> incumbent \<Rightarrow> incumbent" where
  "dfs target ql [] budget_left islands_left tflops cost cur used b = consider_plan target cur tflops cost b"
| "dfs target ql (c # cs) budget_left islands_left tflops cost cur used b =
     (if islands_left = 0 then consider_plan target cur tflops cost b
      else if pruned target (c # cs) budget_left islands_left tflops cost b then b
      else fold (\<lambda>x. dfs target ql cs
               (map_option (\<lambda>l. l - of_int x * price_per_hour c) budget_left)
               (islands_left - x) (tflops + of_int x * eff_tflops c) (cost + of_int x * price_per_hour c)
               (if x > 0 then dict_set (key c) x cur else cur) (use_quota ql c x used))
             (map int (rev [0..<nat (upper_count ql c budget_left islands_left used + 1)])) b)"

section \<open>The plan\<close>

definition usable_candidates :: "candidate list \<Rightarrow> rat option \<Rightarrow> candidate list" where
  "usable_candidates candidates room =
     filter (\<lambda>c. eff_tflops c > 0 \<and> (case room of None \<Rightarrow> True | Some r \<Rightarrow> price_per_hour c \<le> r + EPS))
       candidates"

definition empty_plan :: "string list \<Rightarrow> plan" where
  "empty_plan why = \<lparr> counts = [], total_tflops = 0, total_cost = 0, binding = why \<rparr>"

text \<open>The quota use of the chosen plan, \<open>by_key\<close> naming the last candidate of a key.\<close>

definition bucket_use ::
  "candidate list \<Rightarrow> (string \<times> string, rat) dict \<Rightarrow> (string, int) dict \<Rightarrow> (string \<times> string, rat) dict" where
  "bucket_use usable quota_limits cnts =
     fold (\<lambda>(k, x) used.
        case dict_get (rev (map (\<lambda>c. (key c, c)) usable)) k of
          None \<Rightarrow> used
        | Some c \<Rightarrow> (case quota_bucket c of
            None \<Rightarrow> used
          | Some bk \<Rightarrow>
              if dict_get quota_limits bk \<noteq> None
              then dict_set bk (bucket_get used bk + of_int (x * vcpus_per_island c)) used else used))
       cnts []"

definition binding_of ::
  "candidate list \<Rightarrow> rat option \<Rightarrow> (string \<times> string, rat) dict \<Rightarrow> int \<Rightarrow> (string, int) dict \<Rightarrow> rat \<Rightarrow>
   string list" where
  "binding_of usable budget quota_limits max_islands cnts cost =
     (case budget of
        None \<Rightarrow> []
      | Some bud \<Rightarrow> if Min (set (map price_per_hour usable)) > (bud - cost) + EPS then [''budget''] else [])
     @ concat (map (\<lambda>(bk, cap).
          let members = filter (\<lambda>c. quota_bucket c = Some bk \<and> vcpus_per_island c > 0) usable;
              used = bucket_get (bucket_use usable quota_limits cnts) bk
          in if members \<noteq> [] \<and> (\<forall>c \<in> set members. used + of_int (vcpus_per_island c) > cap + EPS)
             then [''quota:'' @ fst bk @ '':'' @ snd bk] else [])
        (items_sorted quota_limits))
     @ (if sum_list (map snd cnts) = max_islands then [''max-islands''] else [])"

definition solve ::
  "candidate list \<Rightarrow> rat option \<Rightarrow> (string \<times> string, rat) dict \<Rightarrow> int \<Rightarrow> rat \<Rightarrow> rat option \<Rightarrow> plan" where
  "solve candidates budget quota_limits max_islands head_cost target =
     (let room = map_option (\<lambda>bud. bud - head_cost) budget;
          fail_binding = (if target \<noteq> None then [''target-flops''] else [''budget''])
      in if (case room of None \<Rightarrow> False | Some r \<Rightarrow> r \<le> 0) then empty_plan [''budget'']
      else let usable = usable_candidates candidates room in
        if usable = [] then empty_plan fail_binding
        else let b = dfs target quota_limits (sort_key order_key usable) room max_islands 0 0 [] []
               \<lparr> best_counts = [], best_tflops = 0, best_cost = 0, best_found = (target = None),
                 best_key = (0, 0) \<rparr>
          in if \<not> best_found b then empty_plan [''target-flops'']
             else let cnts = items_sorted (best_counts b);
                      cost = (if cnts \<noteq> [] then best_cost b + head_cost else 0)
               in \<lparr> counts = cnts, total_tflops = best_tflops b, total_cost = cost,
                    binding = binding_of usable budget quota_limits max_islands cnts cost \<rparr>)"

section \<open>Rounding\<close>

lemma round_even_near: "of_int (round_even x) - x \<le> 1 / 2" "x - of_int (round_even x) \<le> 1 / 2"
proof -
  have "of_int \<lfloor>x\<rfloor> \<le> x" "x < of_int \<lfloor>x\<rfloor> + 1" by linarith+
  then show "of_int (round_even x) - x \<le> 1 / 2" "x - of_int (round_even x) \<le> 1 / 2"
    unfolding round_even_def Let_def by (auto, linarith+)
qed

lemma round_even_mono:
  assumes "x \<le> y" shows "round_even x \<le> round_even y"
proof (cases "\<lfloor>x\<rfloor> = \<lfloor>y\<rfloor>")
  case True
  then show ?thesis using assms by (auto simp: round_even_def Let_def)
next
  case False
  then have "\<lfloor>x\<rfloor> + 1 \<le> \<lfloor>y\<rfloor>" using floor_mono [OF assms] by linarith
  moreover have "round_even x \<le> \<lfloor>x\<rfloor> + 1" "\<lfloor>y\<rfloor> \<le> round_even y" by (auto simp: round_even_def Let_def)
  ultimately show ?thesis by linarith
qed

lemma round9_mono: "x \<le> y \<Longrightarrow> round9 x \<le> round9 y"
  by (simp add: round9_def round_even_mono divide_right_mono)

lemma round9_near: "x - round9 x \<le> EPS / 2"
  using round_even_near(2) [of "x * 1000000000"] by (simp add: round9_def EPS_def field_simps)

lemma EPS_pos [simp]: "0 < EPS" "0 \<le> EPS"
  by (simp_all add: EPS_def)

section \<open>Assignments\<close>

text \<open>
  An assignment gives every candidate a count.  Its totals over a list of candidates, and the
  dictionary of its nonzero counts in that order.
\<close>

definition tflops_of :: "(candidate \<Rightarrow> int) \<Rightarrow> candidate list \<Rightarrow> rat" where
  "tflops_of x cs = (\<Sum>c\<leftarrow>cs. of_int (x c) * eff_tflops c)"

definition cost_of :: "(candidate \<Rightarrow> int) \<Rightarrow> candidate list \<Rightarrow> rat" where
  "cost_of x cs = (\<Sum>c\<leftarrow>cs. of_int (x c) * price_per_hour c)"

definition islands_of :: "(candidate \<Rightarrow> int) \<Rightarrow> candidate list \<Rightarrow> int" where
  "islands_of x cs = (\<Sum>c\<leftarrow>cs. x c)"

definition vcpus_of :: "(candidate \<Rightarrow> int) \<Rightarrow> string \<times> string \<Rightarrow> candidate list \<Rightarrow> rat" where
  "vcpus_of x bk cs = (\<Sum>c\<leftarrow>cs. if quota_bucket c = Some bk then of_int (x c * vcpus_per_island c) else 0)"

definition counts_of :: "(candidate \<Rightarrow> int) \<Rightarrow> candidate list \<Rightarrow> (string, int) dict" where
  "counts_of x cs = map (\<lambda>c. (key c, x c)) (filter (\<lambda>c. x c > 0) cs)"

lemmas totals_defs = tflops_of_def cost_of_def islands_of_def vcpus_of_def counts_of_def

lemma totals_simps [simp]:
  "tflops_of x [] = 0" "cost_of x [] = 0" "islands_of x [] = 0" "vcpus_of x bk [] = 0" "counts_of x [] = []"
  "tflops_of x (c # cs) = of_int (x c) * eff_tflops c + tflops_of x cs"
  "cost_of x (c # cs) = of_int (x c) * price_per_hour c + cost_of x cs"
  "islands_of x (c # cs) = x c + islands_of x cs"
  "vcpus_of x bk (c # cs) =
     (if quota_bucket c = Some bk then of_int (x c * vcpus_per_island c) else 0) + vcpus_of x bk cs"
  "counts_of x (c # cs) = (if x c > 0 then [(key c, x c)] else []) @ counts_of x cs"
  by (simp_all add: totals_defs)

text \<open>The candidates the solver is meant for: no price, vCPU count or island cap is negative.\<close>

definition sane :: "candidate \<Rightarrow> bool" where
  "sane c \<longleftrightarrow> 0 \<le> price_per_hour c \<and> 0 \<le> vcpus_per_island c \<and>
     (case max_count c of None \<Rightarrow> True | Some m \<Rightarrow> 0 \<le> m)"

definition counted :: "(candidate \<Rightarrow> int) \<Rightarrow> candidate \<Rightarrow> bool" where
  "counted x c \<longleftrightarrow> 0 \<le> x c \<and> (case max_count c of None \<Rightarrow> True | Some k \<Rightarrow> x c \<le> k)"

text \<open>The paths of the search: each count lies under the bound the search computes for it.\<close>

fun on_path ::
  "(string \<times> string, rat) dict \<Rightarrow> (candidate \<Rightarrow> int) \<Rightarrow> candidate list \<Rightarrow> rat option \<Rightarrow> int \<Rightarrow>
   (string \<times> string, rat) dict \<Rightarrow> bool" where
  "on_path ql x [] l k used = True"
| "on_path ql x (c # cs) l k used =
     (0 \<le> x c \<and> x c \<le> upper_count ql c l k used \<and>
      on_path ql x cs (map_option (\<lambda>v. v - of_int (x c) * price_per_hour c) l) (k - x c)
        (use_quota ql c (x c) used))"

section \<open>Bounds of the search\<close>

lemma suffix_nonneg [simp]: "0 \<le> suffix_ratio cs" "0 \<le> suffix_tflops cs"
  by (induction cs) auto

lemma tflops_le_slots:
  assumes "\<forall>c \<in> set cs. 0 \<le> x c" and "islands_of x cs \<le> k"
  shows "tflops_of x cs \<le> of_int k * suffix_tflops cs"
proof -
  have "tflops_of x cs \<le> of_int (islands_of x cs) * suffix_tflops cs"
    using assms(1)
  proof (induction cs)
    case (Cons c cs)
    have "0 \<le> islands_of x cs" using Cons.prems by (auto simp: islands_of_def intro!: sum_list_nonneg)
    then have "tflops_of x cs \<le> of_int (islands_of x cs) * suffix_tflops (c # cs)"
      using Cons by (force intro: order_trans mult_left_mono)
    moreover have "of_int (x c) * eff_tflops c \<le> of_int (x c) * suffix_tflops (c # cs)"
      using Cons.prems by (intro mult_left_mono) auto
    ultimately show ?case by (simp add: distrib_right)
  qed simp
  also have "\<dots> \<le> of_int k * suffix_tflops cs" using assms(2) by (intro mult_right_mono) auto
  finally show ?thesis .
qed

lemma tflops_le_cost:
  assumes "\<forall>c \<in> set cs. 0 \<le> x c" and "\<not> suffix_free cs" and "\<forall>c \<in> set cs. sane c"
  shows "tflops_of x cs \<le> cost_of x cs * suffix_ratio cs"
  using assms
proof (induction cs)
  case (Cons c cs)
  have pos: "price_per_hour c > 0" using Cons.prems by (auto simp: ratio_def split: if_splits)
  have "0 \<le> cost_of x cs"
    using Cons.prems by (auto simp: cost_of_def sane_def intro!: sum_list_nonneg mult_nonneg_nonneg)
  then have "tflops_of x cs \<le> cost_of x cs * suffix_ratio (c # cs)"
    using Cons by (force intro: order_trans mult_left_mono)
  moreover have "of_int (x c) * eff_tflops c \<le> of_int (x c) * price_per_hour c * suffix_ratio (c # cs)"
  proof -
    have "eff_tflops c / price_per_hour c \<le> suffix_ratio (c # cs)" using pos by (simp add: ratio_def)
    then have "eff_tflops c \<le> price_per_hour c * suffix_ratio (c # cs)"
      using pos by (simp add: pos_divide_le_eq mult.commute del: suffix_ratio.simps)
    then have "of_int (x c) * eff_tflops c \<le> of_int (x c) * (price_per_hour c * suffix_ratio (c # cs))"
      using Cons.prems by (intro mult_left_mono) auto
    then show ?thesis by (simp add: mult.assoc)
  qed
  ultimately show ?case by (simp add: distrib_right del: suffix_ratio.simps)
qed simp

definition affords :: "rat option \<Rightarrow> rat \<Rightarrow> bool" where
  "affords l v \<longleftrightarrow> (case l of None \<Rightarrow> True | Some r \<Rightarrow> v \<le> r)"

lemma tflops_le_more:
  assumes "\<forall>c \<in> set cs. 0 \<le> x c" and "\<forall>c \<in> set cs. sane c"
    and "islands_of x cs \<le> k" and "affords l (cost_of x cs)"
  shows "tflops_of x cs \<le> max_more cs l k"
proof -
  have slots: "tflops_of x cs \<le> of_int k * suffix_tflops cs" using assms(1,3) by (rule tflops_le_slots)
  have "tflops_of x cs \<le> v * suffix_ratio cs" if "l = Some v" "\<not> suffix_free cs" for v
    using order_trans [OF tflops_le_cost mult_right_mono] assms that by (auto simp: affords_def)
  then show ?thesis using slots by (auto simp: max_more_def Let_def split: option.splits)
qed

lemma cost_nonneg: "\<forall>c \<in> set cs. 0 \<le> x c \<Longrightarrow> \<forall>c \<in> set cs. sane c \<Longrightarrow> 0 \<le> cost_of x cs"
  by (auto simp: cost_of_def sane_def intro!: sum_list_nonneg mult_nonneg_nonneg)

section \<open>The incumbent only improves\<close>

text \<open>A plan with key \<open>k\<close> and counts \<open>cs\<close> does not beat the incumbent.\<close>

definition beaten :: "incumbent \<Rightarrow> rat \<times> rat \<Rightarrow> (string, int) dict \<Rightarrow> bool" where
  "beaten b k cs \<longleftrightarrow> best_found b \<and> (k < best_key b \<or> k = best_key b \<and> tiebreak (best_counts b) \<le> tiebreak cs)"

lemma consider_keeps: "beaten b k cs \<Longrightarrow> beaten (consider_plan target cur t c b) k cs"
  by (auto simp: consider_plan_def beaten_def Let_def split: option.splits)

lemma consider_beats:
  assumes "\<And>t. target = Some t \<Longrightarrow> t \<le> tflops"
  shows "beaten (consider_plan target cur tflops cost b) (plan_key target tflops cost) cur"
proof -
  have "\<not> (case target of None \<Rightarrow> False | Some t \<Rightarrow> tflops + EPS < t)"
  proof (cases target)
    case (Some t)
    have "\<not> tflops + EPS < t" using assms [OF Some] EPS_pos(1) by linarith
    then show ?thesis using Some by simp
  qed simp
  then show ?thesis by (auto simp: consider_plan_def beaten_def Let_def not_less)
qed

lemma fold_keeps: "P b \<Longrightarrow> (\<And>x b. x \<in> set xs \<Longrightarrow> P b \<Longrightarrow> P (f x b)) \<Longrightarrow> P (fold f xs b)"
  by (induction xs arbitrary: b) auto

lemma dfs_keeps: "beaten b k ks \<Longrightarrow> beaten (dfs target ql cs l n t c cur used b) k ks"
proof (induction cs arbitrary: l n t c cur used b)
  case (Cons d cs)
  then show ?case by (auto intro: fold_keeps consider_keeps)
qed (simp add: consider_keeps)

lemma dfs_found: "best_found b \<Longrightarrow> best_found (dfs target ql cs l n t c cur used b)"
proof (induction cs arbitrary: l n t c cur used b)
  case (Cons d cs)
  then show ?case by (auto simp: consider_plan_def Let_def intro: fold_keeps)
qed (simp add: consider_plan_def Let_def)

lemma pruned_beaten:
  assumes "pruned target cs l k tflops cost b"
    and "T \<le> max_more cs l k" and "0 \<le> C"
    and "\<not> suffix_free cs \<Longrightarrow> T \<le> C * suffix_ratio cs \<and> 0 < suffix_ratio cs"
    and "\<And>t. target = Some t \<Longrightarrow> t \<le> tflops + T" and "target = None \<Longrightarrow> best_found b"
  shows "beaten b (plan_key target (tflops + T) (cost + C)) ks"
proof (cases target)
  case None
  have "round9 (tflops + T) \<le> round9 (tflops + max_more cs l k)" "round9 cost \<le> round9 (cost + C)"
    using assms(2,3) by (auto intro: round9_mono)
  then show ?thesis
    using assms(1,6) None
    by (cases "best_key b") (auto simp: pruned_def beaten_def plan_key_def Let_def less_prod_simp)
next
  case (Some t)
  have t: "t \<le> tflops + T" using assms(5) Some by simp
  have "round9 (tflops + T) \<le> round9 (tflops + max_more cs l k)" using assms(2) by (auto intro: round9_mono)
  moreover have "t - EPS < round9 (tflops + T)" using round9_near [of "tflops + T"] t EPS_pos(1) by linarith
  ultimately have reach: "\<not> round9 (tflops + max_more cs l k) < t - EPS" by linarith
  define lb where "lb = (if max 0 (t - tflops) > 0 then (if suffix_free cs then 0
    else max 0 (t - tflops) / suffix_ratio cs) else 0)"
  have "lb \<le> C"
    using assms(3,4) t by (auto simp: lb_def pos_divide_le_eq)
  then have "round9 (cost + lb) \<le> round9 (cost + C)" by (auto intro: round9_mono)
  moreover have "best_found b" "round9 (cost + lb) > - fst (best_key b)"
    using assms(1) Some reach by (auto simp: pruned_def Let_def lb_def)
  ultimately show ?thesis
    using Some by (cases "best_key b") (auto simp: beaten_def plan_key_def less_prod_simp)
qed

lemma dict_set_new: "k \<notin> fst ` set d \<Longrightarrow> dict_set k v d = d @ [(k, v)]"
  by (induction d) auto

lemma on_path_nonneg: "on_path ql x cs l k used \<Longrightarrow> c \<in> set cs \<Longrightarrow> 0 \<le> x c"
  by (induction cs arbitrary: l k used) auto

lemma suffix_ratio_pos:
  assumes "\<not> suffix_free (c # cs)" and "0 < eff_tflops c"
  shows "0 < suffix_ratio (c # cs)"
proof -
  have "0 < price_per_hour c" using assms(1) by (auto simp: ratio_def split: if_splits)
  then show ?thesis using assms(2) by (simp add: ratio_def less_max_iff_disj)
qed

lemma zero_counts:
  assumes "\<forall>d \<in> set cs. x d = 0"
  shows "tflops_of x cs = 0" "cost_of x cs = 0" "islands_of x cs = 0" "vcpus_of x bk cs = 0" "counts_of x cs = []"
  using assms by (induction cs) auto

lemma no_islands:
  assumes "\<forall>c \<in> set cs. 0 \<le> x c" and "islands_of x cs \<le> 0"
  shows "tflops_of x cs = 0" "cost_of x cs = 0" "counts_of x cs = []"
proof -
  have "\<forall>c \<in> set cs. x c = 0"
    using assms
  proof (induction cs)
    case (Cons c cs)
    have "0 \<le> islands_of x cs" using Cons.prems by (auto simp: islands_of_def intro!: sum_list_nonneg)
    then have zero: "x c = 0" "islands_of x cs \<le> 0" using Cons.prems by auto
    have "\<forall>d \<in> set cs. x d = 0" by (rule Cons.IH [OF _ zero(2)]) (use Cons.prems(1) in simp)
    then show ?case using zero(1) by simp
  qed simp
  then show "tflops_of x cs = 0" "cost_of x cs = 0" "counts_of x cs = []"
    by (rule zero_counts)+
qed

lemma fold_reaches:
  assumes "x \<in> set xs" and "\<And>b. Q b \<Longrightarrow> P (f x b)" and "Q b"
    and "\<And>y b. Q b \<Longrightarrow> Q (f y b)" and "\<And>y b. P b \<Longrightarrow> P (f y b)"
  shows "P (fold f xs b)"
  using assms(1,3)
proof (induction xs arbitrary: b)
  case (Cons y ys)
  show ?case
  proof (cases "x = y")
    case True
    then show ?thesis using assms(2,5) Cons.prems(2) by (auto intro: fold_keeps)
  next
    case False
    then show ?thesis using Cons assms(4) by auto
  qed
qed simp

lemma count_in_loop: "0 \<le> x \<Longrightarrow> x \<le> ub \<Longrightarrow> x \<in> set (map int (rev [0..<nat (ub + 1)]))"
  by (auto simp: image_iff intro!: bexI [of _ "nat x"])

text \<open>No plan on a path of the search that also keeps the budget beats the result.\<close>

lemma dfs_complete:
  assumes "on_path ql x cs l k used" and "\<forall>c \<in> set cs. sane c \<and> 0 < eff_tflops c"
    and "islands_of x cs \<le> k" and "affords l (cost_of x cs)"
    and "\<And>t. target = Some t \<Longrightarrow> t \<le> tflops + tflops_of x cs"
    and "distinct (map key cs)" and "key ` set cs \<inter> fst ` set cur = {}"
    and "target = None \<Longrightarrow> best_found b"
  shows "beaten (dfs target ql cs l k tflops cost cur used b)
    (plan_key target (tflops + tflops_of x cs) (cost + cost_of x cs)) (cur @ counts_of x cs)"
  using assms
proof (induction cs arbitrary: l k used tflops cost cur b)
  case Nil
  then show ?case using consider_beats [of target tflops cur cost b] by simp
next
  case (Cons c cs)
  have nonneg: "\<forall>d \<in> set (c # cs). 0 \<le> x d" using on_path_nonneg [OF Cons.prems(1)] by blast
  have sane: "\<forall>d \<in> set (c # cs). sane d" using Cons.prems(2) by blast
  show ?case
  proof (cases "k = 0")
    case True
    then show ?thesis
      using no_islands [OF nonneg] Cons.prems(3,5) consider_beats [of target tflops cur cost b] by simp
  next
    case False
    show ?thesis
    proof (cases "pruned target (c # cs) l k tflops cost b")
      case True
      have "beaten b (plan_key target (tflops + tflops_of x (c # cs))
          (cost + cost_of x (c # cs))) (cur @ counts_of x (c # cs))"
      proof (rule pruned_beaten [OF True])
        show "tflops_of x (c # cs) \<le> max_more (c # cs) l k"
          using nonneg sane Cons.prems(3,4) by (rule tflops_le_more)
        show "0 \<le> cost_of x (c # cs)" using nonneg sane by (rule cost_nonneg)
        show "tflops_of x (c # cs) \<le> cost_of x (c # cs) * suffix_ratio (c # cs) \<and> 0 < suffix_ratio (c # cs)"
          if "\<not> suffix_free (c # cs)"
          using tflops_le_cost [OF nonneg that sane] suffix_ratio_pos [OF that] Cons.prems(2) by simp
      qed (use Cons.prems(5,8) in blast)+
      then show ?thesis using True False by (simp del: totals_simps)
    next
      case no: False
      let ?cur = "if x c > 0 then dict_set (key c) (x c) cur else cur"
      have cur: "?cur @ counts_of x cs = cur @ counts_of x (c # cs)"
        using Cons.prems(7) by (auto simp: dict_set_new)
      have disj: "key ` set cs \<inter> fst ` set ?cur = {}"
        using Cons.prems(6,7) by (auto simp: dict_set_new image_iff)
      let ?l = "map_option (\<lambda>v. v - of_int (x c) * price_per_hour c) l"
      let ?t = "tflops + of_int (x c) * eff_tflops c" and ?p = "cost + of_int (x c) * price_per_hour c"
      have sums: "tflops + tflops_of x (c # cs) = ?t + tflops_of x cs" "cost + cost_of x (c # cs) = ?p + cost_of x cs"
        by (simp_all add: add.assoc)
      have step: "beaten (dfs target ql cs ?l (k - x c) ?t ?p ?cur (use_quota ql c (x c) used) b')
          (plan_key target (tflops + tflops_of x (c # cs)) (cost + cost_of x (c # cs)))
          (cur @ counts_of x (c # cs))" if "target = None \<longrightarrow> best_found b'" for b'
        unfolding cur [symmetric] sums
      proof (rule Cons.IH)
        show "affords ?l (cost_of x cs)" using Cons.prems(4) by (cases l) (auto simp: affords_def)
        show "t \<le> ?t + tflops_of x cs" if "target = Some t" for t
          using Cons.prems(5) [OF that] sums(1) by simp
      qed (use Cons.prems(1,2,3,6) disj that in auto)
      have eq: "dfs target ql (c # cs) l k tflops cost cur used b =
          fold (\<lambda>y. dfs target ql cs (map_option (\<lambda>v. v - of_int y * price_per_hour c) l) (k - y)
            (tflops + of_int y * eff_tflops c) (cost + of_int y * price_per_hour c)
            (if y > 0 then dict_set (key c) y cur else cur) (use_quota ql c y used))
          (map int (rev [0..<nat (upper_count ql c l k used + 1)])) b"
        using no False by simp
      have inloop: "x c \<in> set (map int (rev [0..<nat (upper_count ql c l k used + 1)]))"
        using Cons.prems(1) by (intro count_in_loop) auto
      show ?thesis
        unfolding eq
        by (rule fold_reaches [where Q = "\<lambda>b. target = None \<longrightarrow> best_found b", OF inloop])
          (rule step, assumption, use Cons.prems(8) in blast, use dfs_found in blast, rule dfs_keeps)
    qed
  qed
qed

section \<open>Every plan the search looks at keeps the constraints up to the slack\<close>

fun reached ::
  "(string \<times> string, rat) dict \<Rightarrow> (candidate \<Rightarrow> int) \<Rightarrow> candidate list \<Rightarrow> rat option \<Rightarrow> int \<Rightarrow>
   (string \<times> string, rat) dict \<Rightarrow> bool" where
  "reached ql x [] l k used = True"
| "reached ql x (c # cs) l k used =
     (if k = 0 then \<forall>d \<in> set (c # cs). x d = 0
      else 0 \<le> x c \<and> x c \<le> upper_count ql c l k used \<and>
        reached ql x cs (map_option (\<lambda>v. v - of_int (x c) * price_per_hour c) l) (k - x c)
          (use_quota ql c (x c) used))"

lemma reached_cong: "(\<And>c. c \<in> set cs \<Longrightarrow> x c = y c) \<Longrightarrow> reached ql x cs l k used = reached ql y cs l k used"
  by (induction cs arbitrary: l k used) auto

lemma totals_cong:
  assumes "\<And>c. c \<in> set cs \<Longrightarrow> x c = y c"
  shows "tflops_of x cs = tflops_of y cs" "cost_of x cs = cost_of y cs" "counts_of x cs = counts_of y cs"
    "islands_of x cs = islands_of y cs" "vcpus_of x bk cs = vcpus_of y bk cs"
  using assms by (induction cs) auto

definition sound ::
  "rat option \<Rightarrow> ((string, int) dict \<Rightarrow> rat \<Rightarrow> rat \<Rightarrow> bool) \<Rightarrow> incumbent \<Rightarrow> bool" where
  "sound target R b \<longleftrightarrow> (best_found b \<longrightarrow>
     R (best_counts b) (best_tflops b) (best_cost b) \<and>
     best_key b = plan_key target (best_tflops b) (best_cost b) \<and>
     (\<forall>t. target = Some t \<longrightarrow> t \<le> best_tflops b + EPS))"

lemma consider_sound: "sound target R b \<Longrightarrow> R cur t c \<Longrightarrow> sound target R (consider_plan target cur t c b)"
  by (auto simp: sound_def consider_plan_def Let_def not_less split: option.splits)

lemma dfs_sound:
  assumes "sound target R b" and "distinct (map key cs)" and "key ` set cs \<inter> fst ` set cur = {}"
    and "\<And>x. reached ql x cs l k used \<Longrightarrow>
           R (cur @ counts_of x cs) (tflops + tflops_of x cs) (cost + cost_of x cs)"
  shows "sound target R (dfs target ql cs l k tflops cost cur used b)"
  using assms
proof (induction cs arbitrary: l k used tflops cost cur b)
  case Nil
  then show ?case using consider_sound [of target R b cur tflops cost] by simp
next
  case (Cons c cs)
  show ?case
  proof (cases "k = 0 \<or> pruned target (c # cs) l k tflops cost b")
    case True
    have "R cur tflops cost" if "k = 0"
      using Cons.prems(4) [of "\<lambda>_. 0"] no_islands [of "c # cs" "\<lambda>_. 0"] that
      by (simp add: islands_of_def del: totals_simps)
    then show ?thesis using True Cons.prems(1) by (auto intro: consider_sound)
  next
    case False
    let ?l = "\<lambda>y :: int. map_option (\<lambda>v. v - of_int y * price_per_hour c) l"
    let ?cur = "\<lambda>y. if y > 0 then dict_set (key c) y cur else cur"
    have step: "sound target R (dfs target ql cs (?l y) (k - y) (tflops + of_int y * eff_tflops c)
        (cost + of_int y * price_per_hour c) (?cur y) (use_quota ql c y used) b')"
      if y: "y \<in> set (map int (rev [0..<nat (upper_count ql c l k used + 1)]))" and b': "sound target R b'"
      for y b'
    proof (rule Cons.IH [OF b'])
      show "distinct (map key cs)" using Cons.prems(2) by simp
      show "key ` set cs \<inter> fst ` set (?cur y) = {}"
        using Cons.prems(2,3) by (auto simp: dict_set_new image_iff)
      fix x assume x: "reached ql x cs (?l y) (k - y) (use_quota ql c y used)"
      define x' where "x' = x(c := y)"
      have new: "c \<notin> set cs" using Cons.prems(2) by auto
      then have same: "x' d = x d" if "d \<in> set cs" for d using that by (auto simp: x'_def)
      have r: "reached ql x' cs l' k' u' = reached ql x cs l' k' u'" for l' k' u'
        by (rule reached_cong) (rule same)
      note sums = totals_cong [of cs x' x, OF same]
      have "0 \<le> y" "y \<le> upper_count ql c l k used" using y by auto
      then have reach: "reached ql x' (c # cs) l k used"
        using x False by (simp add: r) (simp add: x'_def)
      have xc: "x' c = y" by (simp add: x'_def)
      have eqs: "?cur y @ counts_of x cs = cur @ counts_of x' (c # cs)"
          "tflops + of_int y * eff_tflops c + tflops_of x cs = tflops + tflops_of x' (c # cs)"
          "cost + of_int y * price_per_hour c + cost_of x cs = cost + cost_of x' (c # cs)"
        using Cons.prems(3) by (auto simp: dict_set_new xc sums)
      show "R (?cur y @ counts_of x cs) (tflops + of_int y * eff_tflops c + tflops_of x cs)
          (cost + of_int y * price_per_hour c + cost_of x cs)"
        unfolding eqs by (rule Cons.prems(4) [OF reach])
    qed
    then show ?thesis using False Cons.prems(1) by (auto intro!: fold_keeps [where P = "sound target R"])
  qed
qed

lemma upper_count_le:
  "upper_count ql c l k used \<le> k"
  "max_count c = Some m \<Longrightarrow> upper_count ql c l k used \<le> m"
  "l = Some v \<Longrightarrow> 0 < price_per_hour c \<Longrightarrow> upper_count ql c l k used \<le> \<lfloor>(v + EPS) / price_per_hour c\<rfloor>"
  "quota_bucket c = Some bk \<Longrightarrow> dict_get ql bk = Some cap \<Longrightarrow> 0 < vcpus_per_island c \<Longrightarrow>
   upper_count ql c l k used \<le> max 0 \<lfloor>(cap - bucket_get used bk + EPS) / of_int (vcpus_per_island c)\<rfloor>"
  by (auto simp: upper_count_def cap_of_def Let_def min_le_iff_disj split: option.splits)

lemma mult_le_of_floor:
  assumes "x \<le> \<lfloor>(a :: rat) / p\<rfloor>" and "0 < p" shows "of_int x * p \<le> a"
proof -
  have "of_int x \<le> a / p" using assms(1) by linarith
  then show ?thesis using assms(2) by (simp add: pos_le_divide_eq)
qed

lemma reached_nonneg: "reached ql x cs l k used \<Longrightarrow> c \<in> set cs \<Longrightarrow> 0 \<le> x c"
  by (induction cs arbitrary: l k used) (auto split: if_splits)

lemma reached_max_count:
  "reached ql x cs l k used \<Longrightarrow> c \<in> set cs \<Longrightarrow> max_count c = Some m \<Longrightarrow> x c = 0 \<or> x c \<le> m"
proof (induction cs arbitrary: l k used)
  case (Cons d cs)
  then show ?case using order_trans [OF _ upper_count_le(2)] by (fastforce split: if_splits)
qed simp

lemma reached_islands: "reached ql x cs l k used \<Longrightarrow> 0 \<le> k \<Longrightarrow> islands_of x cs \<le> k"
proof (induction cs arbitrary: l k used)
  case (Cons c cs)
  show ?case
  proof (cases "k = 0")
    case True
    then have "\<forall>d \<in> set (c # cs). x d = 0" using Cons.prems(1) by simp
    then have "islands_of x (c # cs) = 0" by (rule zero_counts(3))
    then show ?thesis using True by simp
  next
    case False
    then show ?thesis
      using Cons.IH [of "map_option (\<lambda>v. v - of_int (x c) * price_per_hour c) l" "k - x c"
          "use_quota ql c (x c) used"] Cons.prems upper_count_le(1) [of ql c l k used] by auto
  qed
qed simp

lemma reached_cost:
  "reached ql x cs (Some v) k used \<Longrightarrow> \<forall>c \<in> set cs. sane c \<Longrightarrow> - EPS \<le> v \<Longrightarrow> cost_of x cs \<le> v + EPS"
proof (induction cs arbitrary: v k used)
  case (Cons c cs)
  show ?case
  proof (cases "k = 0")
    case True
    then have "\<forall>d \<in> set (c # cs). x d = 0" using Cons.prems(1) by simp
    then have "cost_of x (c # cs) = 0" by (rule zero_counts(2))
    then show ?thesis using Cons.prems(3) by linarith
  next
    case False
    have "of_int (x c) * price_per_hour c \<le> v + EPS"
    proof (cases "0 < price_per_hour c")
      case True
      have "x c \<le> \<lfloor>(v + EPS) / price_per_hour c\<rfloor>"
        using Cons.prems(1) False upper_count_le(3) [OF refl True, of ql v k used] by auto
      then show ?thesis using True by (rule mult_le_of_floor)
    next
      case False
      then have "price_per_hour c = 0" using Cons.prems(2) by (simp add: sane_def)
      then show ?thesis using Cons.prems(3) by simp
    qed
    then show ?thesis
      using Cons.IH [of "v - of_int (x c) * price_per_hour c" "k - x c" "use_quota ql c (x c) used"]
        Cons.prems(1,2) False by auto
  qed
qed (use EPS_pos in auto)

lemma use_quota_get:
  assumes "dict_get ql bk = Some cap" and "0 \<le> x"
  shows "bucket_get (use_quota ql c x used) bk =
    bucket_get used bk + (if quota_bucket c = Some bk then of_int (x * vcpus_per_island c) else 0)"
  using assms by (auto simp: use_quota_def cap_of_def split: option.splits)

lemma reached_vcpus:
  assumes "dict_get ql bk = Some cap"
  shows "reached ql x cs l k used \<Longrightarrow> \<forall>c \<in> set cs. sane c \<Longrightarrow> bucket_get used bk \<le> cap + EPS \<Longrightarrow>
    bucket_get used bk + vcpus_of x bk cs \<le> cap + EPS"
proof (induction cs arbitrary: l k used)
  case (Cons c cs)
  show ?case
  proof (cases "k = 0")
    case True
    then have "\<forall>d \<in> set (c # cs). x d = 0" using Cons.prems(1) by simp
    then have "vcpus_of x bk (c # cs) = 0" by (rule zero_counts(4))
    then show ?thesis using Cons.prems(3) by simp
  next
    case False
    let ?used = "use_quota ql c (x c) used"
    have x: "0 \<le> x c" "x c \<le> upper_count ql c l k used" using Cons.prems(1) False by auto
    have "bucket_get ?used bk \<le> cap + EPS"
    proof (cases "quota_bucket c = Some bk \<and> 0 < vcpus_per_island c \<and> 0 < x c")
      case True
      then have "x c \<le> \<lfloor>(cap - bucket_get used bk + EPS) / of_int (vcpus_per_island c)\<rfloor>"
        using x upper_count_le(4) [OF _ assms, of c l k used] by fastforce
      then have "of_int (x c) * of_int (vcpus_per_island c) \<le> cap - bucket_get used bk + EPS"
        using True by (intro mult_le_of_floor) auto
      then show ?thesis using use_quota_get [OF assms x(1), of c used] True by simp
    next
      case False
      then have "x c * vcpus_per_island c = 0 \<or> quota_bucket c \<noteq> Some bk"
        using x(1) Cons.prems(2) by (auto simp: sane_def)
      then show ?thesis using use_quota_get [OF assms x(1), of c used] Cons.prems(3) by auto
    qed
    then show ?thesis
      using Cons.IH [of _ "k - x c" ?used] Cons.prems(1,2) False use_quota_get [OF assms x(1), of c used]
      by (fastforce simp: add.assoc)
  qed
qed simp

section \<open>Plans within the constraints lie on a path\<close>

lemma le_upper_count:
  assumes "x \<le> k" and "\<And>m. max_count c = Some m \<Longrightarrow> x \<le> m"
    and "\<And>v. l = Some v \<Longrightarrow> 0 < price_per_hour c \<Longrightarrow> x \<le> \<lfloor>(v + EPS) / price_per_hour c\<rfloor>"
    and "\<And>bk cap. quota_bucket c = Some bk \<Longrightarrow> dict_get ql bk = Some cap \<Longrightarrow> 0 < vcpus_per_island c \<Longrightarrow>
      x \<le> \<lfloor>(cap - bucket_get used bk + EPS) / of_int (vcpus_per_island c)\<rfloor>"
  shows "x \<le> upper_count ql c l k used"
proof -
  have four: "x \<le> max 0 \<lfloor>(cap - bucket_get used bk + EPS) / of_int (vcpus_per_island c)\<rfloor>"
    if "quota_bucket c = Some bk" "dict_get ql bk = Some cap" "0 < vcpus_per_island c" for bk cap
    using assms(4) [OF that] by linarith
  show ?thesis
    using assms(1-3) four
    by (auto simp: upper_count_def cap_of_def Let_def split: option.splits)
qed

lemma le_floor_of_mult:
  assumes "of_int x * p \<le> (a :: rat)" and "0 < p" shows "x \<le> \<lfloor>(a + EPS) / p\<rfloor>"
proof -
  have "of_int x \<le> a / p" using assms by (simp add: pos_le_divide_eq)
  also have "\<dots> \<le> (a + EPS) / p" using assms(2) by (intro divide_right_mono) auto
  finally show ?thesis by (simp add: le_floor_iff)
qed

lemma vcpus_nonneg:
  "\<forall>c \<in> set cs. 0 \<le> x c \<Longrightarrow> \<forall>c \<in> set cs. sane c \<Longrightarrow> 0 \<le> vcpus_of x bk cs"
  by (auto simp: vcpus_of_def sane_def intro!: sum_list_nonneg)

lemma exact_on_path:
  assumes "\<forall>c \<in> set cs. counted x c \<and> sane c" and "islands_of x cs \<le> k" and "affords l (cost_of x cs)"
    and "\<And>bk cap. dict_get ql bk = Some cap \<Longrightarrow> bucket_get used bk + vcpus_of x bk cs \<le> cap"
  shows "on_path ql x cs l k used"
  using assms
proof (induction cs arbitrary: l k used)
  case (Cons c cs)
  have c: "0 \<le> x c" "\<And>m. max_count c = Some m \<Longrightarrow> x c \<le> m" "0 \<le> price_per_hour c" "0 \<le> vcpus_per_island c"
    using Cons.prems(1) by (auto simp: counted_def sane_def split: option.splits)
  have rest: "\<forall>d \<in> set cs. 0 \<le> x d" "\<forall>d \<in> set cs. sane d"
    using Cons.prems(1) by (auto simp: counted_def)
  have isl: "0 \<le> islands_of x cs" using rest(1) by (auto simp: islands_of_def intro!: sum_list_nonneg)
  have cst: "0 \<le> cost_of x cs" using cost_nonneg [OF rest] .
  have "x c \<le> upper_count ql c l k used"
  proof (rule le_upper_count)
    show "x c \<le> k" using Cons.prems(2) isl by simp
    show "x c \<le> \<lfloor>(v + EPS) / price_per_hour c\<rfloor>" if "l = Some v" "0 < price_per_hour c" for v
      using Cons.prems(3) that cst by (intro le_floor_of_mult) (auto simp: affords_def)
    show "x c \<le> \<lfloor>(cap - bucket_get used bk + EPS) / of_int (vcpus_per_island c)\<rfloor>"
      if "quota_bucket c = Some bk" "dict_get ql bk = Some cap" "0 < vcpus_per_island c" for bk cap
      using Cons.prems(4) [OF that(2)] that vcpus_nonneg [OF rest, of bk] by (intro le_floor_of_mult) auto
  qed (use c in auto)
  moreover have "on_path ql x cs (map_option (\<lambda>v. v - of_int (x c) * price_per_hour c) l) (k - x c)
      (use_quota ql c (x c) used)"
  proof (rule Cons.IH)
    show "affords (map_option (\<lambda>v. v - of_int (x c) * price_per_hour c) l) (cost_of x cs)"
      using Cons.prems(3) by (cases l) (auto simp: affords_def)
    show "bucket_get (use_quota ql c (x c) used) bk + vcpus_of x bk cs \<le> cap" if "dict_get ql bk = Some cap"
      for bk cap
      using Cons.prems(4) [OF that] use_quota_get [OF that c(1), of c used] by (simp add: add.assoc)
  qed (use Cons.prems in auto)
  ultimately show ?case using c(1) by simp
qed simp

section \<open>The contract of the solver\<close>

text \<open>
  The plans the solver chooses from, with a slack on the budget and the quotas: \<open>slack = 0\<close> is
  the problem as stated, \<open>EPS\<close> what the code admits.
\<close>

definition feasible ::
  "rat \<Rightarrow> candidate list \<Rightarrow> rat option \<Rightarrow> (string \<times> string, rat) dict \<Rightarrow> int \<Rightarrow> (candidate \<Rightarrow> int) \<Rightarrow> bool" where
  "feasible slack cands room ql max_islands x \<longleftrightarrow>
     (\<forall>c \<in> set cands. 0 \<le> x c \<and> (\<forall>m. max_count c = Some m \<longrightarrow> x c = 0 \<or> x c \<le> m)) \<and>
     islands_of x cands \<le> max_islands \<and> affords (map_option (\<lambda>r. r + slack) room) (cost_of x cands) \<and>
     (\<forall>bk cap. dict_get ql bk = Some cap \<longrightarrow> vcpus_of x bk cands \<le> cap + slack)"

definition meets :: "rat option \<Rightarrow> rat \<Rightarrow> bool" where
  "meets target v \<longleftrightarrow> (case target of None \<Rightarrow> True | Some t \<Rightarrow> t \<le> v)"

lemma sum_list_sort: "(\<Sum>c\<leftarrow>sort_key f cs. g c) = (\<Sum>c\<leftarrow>cs. (g c :: 'b::comm_monoid_add))"
  by (metis mset_map mset_sort sum_mset_sum_list)

lemma totals_sort:
  "tflops_of x (sort_key f cs) = tflops_of x cs" "cost_of x (sort_key f cs) = cost_of x cs"
  "islands_of x (sort_key f cs) = islands_of x cs" "vcpus_of x bk (sort_key f cs) = vcpus_of x bk cs"
  "mset (counts_of x (sort_key f cs)) = mset (counts_of x cs)"
  by (simp_all add: totals_defs sum_list_sort)

lemma totals_filter:
  assumes "\<And>c. c \<in> set cs \<Longrightarrow> \<not> P c \<Longrightarrow> x c = 0"
  shows "tflops_of x (filter P cs) = tflops_of x cs" "cost_of x (filter P cs) = cost_of x cs"
    "islands_of x (filter P cs) = islands_of x cs" "vcpus_of x bk (filter P cs) = vcpus_of x bk cs"
    "counts_of x (filter P cs) = counts_of x cs"
  using assms by (induction cs) auto

lemma plan_key_mono:
  assumes "t \<le> t'" and "c' \<le> c" shows "plan_key target t c \<le> plan_key target t' c'"
  using round9_mono [OF assms(1)] round9_mono [OF assms(2)]
  by (auto simp: plan_key_def less_eq_prod_simp split: option.splits)

text \<open>Leaving out the candidates that are not usable makes no plan worse.\<close>

lemma usable_restriction:
  assumes "feasible 0 cands room ql n x" and "\<forall>c \<in> set cands. sane c"
  defines "P \<equiv> \<lambda>c. eff_tflops c > 0 \<and> (case room of None \<Rightarrow> True | Some r \<Rightarrow> price_per_hour c \<le> r + EPS)"
  defines "y \<equiv> \<lambda>c. if P c then x c else 0"
  shows "feasible 0 cands room ql n y" "tflops_of x cands \<le> tflops_of y cands" "cost_of y cands \<le> cost_of x cands"
proof -
  have x: "0 \<le> x c" if "c \<in> set cands" for c using assms(1) that by (auto simp: feasible_def)
  have price: "0 \<le> price_per_hour c" if "c \<in> set cands" for c using assms(2) that by (simp add: sane_def)
  have vcpu: "0 \<le> vcpus_per_island c" if "c \<in> set cands" for c using assms(2) that by (simp add: sane_def)
  have dear: "x c = 0" if "c \<in> set cands" "room = Some r" "r + EPS < price_per_hour c" for c r
  proof (rule ccontr)
    assume "x c \<noteq> 0"
    then have "1 * price_per_hour c \<le> of_int (x c) * price_per_hour c"
      using x [OF that(1)] price [OF that(1)] by (intro mult_right_mono) auto
    also have "\<dots> \<le> cost_of x cands"
      unfolding cost_of_def using that(1) x price
      by (intro member_le_sum_list) (auto intro!: image_eqI [of _ _ c])
    also have "\<dots> \<le> r" using assms(1) that(2) by (simp add: feasible_def affords_def)
    finally show False using that(3) EPS_pos(1) by linarith
  qed
  show "tflops_of x cands \<le> tflops_of y cands"
    unfolding tflops_of_def
  proof (rule sum_list_mono)
    fix c assume c: "c \<in> set cands"
    show "of_int (x c) * eff_tflops c \<le> of_int (y c) * eff_tflops c"
      using x [OF c] dear [OF c]
      by (auto simp: y_def P_def mult_nonneg_nonpos not_less split: option.splits)
  qed
  show le: "cost_of y cands \<le> cost_of x cands"
    unfolding cost_of_def using x price by (intro sum_list_mono) (auto simp: y_def)
  have isl: "islands_of y cands \<le> islands_of x cands"
    unfolding islands_of_def using x by (intro sum_list_mono) (auto simp: y_def)
  have vc: "vcpus_of y bk cands \<le> vcpus_of x bk cands" for bk
    unfolding vcpus_of_def using x vcpu by (intro sum_list_mono) (auto simp: y_def)
  have f: "\<forall>c \<in> set cands. 0 \<le> x c \<and> (\<forall>m. max_count c = Some m \<longrightarrow> x c = 0 \<or> x c \<le> m)"
      "islands_of x cands \<le> n" "affords (map_option (\<lambda>r. r + 0) room) (cost_of x cands)"
      "\<forall>bk cap. dict_get ql bk = Some cap \<longrightarrow> vcpus_of x bk cands \<le> cap + 0"
    using assms(1) unfolding feasible_def by blast+
  have "\<forall>c \<in> set cands. 0 \<le> y c \<and> (\<forall>m. max_count c = Some m \<longrightarrow> y c = 0 \<or> y c \<le> m)"
    using f(1) by (simp add: y_def)
  moreover have "islands_of y cands \<le> n" using f(2) isl by linarith
  moreover have "affords (map_option (\<lambda>r. r + 0) room) (cost_of y cands)"
    using f(3) le by (cases room) (auto simp: affords_def)
  moreover have "\<forall>bk cap. dict_get ql bk = Some cap \<longrightarrow> vcpus_of y bk cands \<le> cap + 0"
    using f(4) vc by (meson order_trans)
  ultimately show "feasible 0 cands room ql n y" unfolding feasible_def by blast
qed

lemma items_sorted_cong:
  assumes "mset d = mset d'" and "distinct (map fst d)"
  shows "items_sorted d = items_sorted d'"
proof -
  have "inj_on fst (set d)" using assms(2) by (simp add: distinct_map)
  then show ?thesis
    unfolding items_sorted_def using assms(1)
    by (intro sort_key_inj_key_eq) (auto simp: sorted_sort_key)
qed

lemma distinct_counts: "distinct (map key cs) \<Longrightarrow> distinct (map fst (counts_of x cs))"
  by (simp add: counts_of_def comp_def distinct_map_filter)

lemma reached_feasible:
  assumes "reached ql y (sort_key f us) room n []" and "us = filter P cands" and "\<forall>c \<in> set cands. sane c"
    and "0 \<le> n" and "\<And>r. room = Some r \<Longrightarrow> 0 < r" and "\<And>bk cap. dict_get ql bk = Some cap \<Longrightarrow> 0 \<le> cap"
  defines "z \<equiv> \<lambda>c. if P c then y c else 0"
  shows "feasible EPS cands room ql n z" "tflops_of z cands = tflops_of y (sort_key f us)"
    "cost_of z cands = cost_of y (sort_key f us)" "mset (counts_of z cands) = mset (counts_of y (sort_key f us))"
proof -
  let ?o = "sort_key f us"
  have sane: "\<forall>c \<in> set ?o. sane c" using assms(2,3) by auto
  have "z c = y c" if "c \<in> set us" for c using that assms(2) by (simp add: z_def)
  note us = totals_cong [of us z y, OF this]
  have all: "tflops_of z cands = tflops_of y us" "cost_of z cands = cost_of y us"
      "islands_of z cands = islands_of y us" "vcpus_of z bk cands = vcpus_of y bk us"
      "counts_of z cands = counts_of y us" for bk
    using totals_filter [of cands P z] us assms(2) by (auto simp: z_def)
  then show "tflops_of z cands = tflops_of y ?o" "cost_of z cands = cost_of y ?o"
      "mset (counts_of z cands) = mset (counts_of y ?o)"
    by (simp_all add: totals_sort)
  have "islands_of y ?o \<le> n" using reached_islands [OF assms(1,4)] .
  moreover have "cost_of y ?o \<le> r + EPS" if "room = Some r" for r
    using reached_cost [OF _ sane, of ql y r n "[]"] assms(1,5) that EPS_pos(1) by fastforce
  moreover have "vcpus_of y bk ?o \<le> cap + EPS" if "dict_get ql bk = Some cap" for bk cap
    using reached_vcpus [OF that assms(1) sane] assms(6) [OF that] by simp
  moreover have "0 \<le> y c" "max_count c = Some m \<Longrightarrow> y c = 0 \<or> y c \<le> m" if "c \<in> set cands" "P c" for c m
    using reached_nonneg [OF assms(1)] reached_max_count [OF assms(1)] that assms(2) by auto
  ultimately show "feasible EPS cands room ql n z"
    unfolding feasible_def all
    by (auto simp: totals_sort affords_def z_def split: option.splits)
qed

text \<open>The result of the search over the usable candidates.\<close>

lemma search_result:
  assumes "distinct (map key cands)" and "\<forall>c \<in> set cands. sane c" and "0 \<le> n"
    and "feasible 0 cands room ql n x" and "meets target (tflops_of x cands)"
    and "\<And>r. room = Some r \<Longrightarrow> 0 < r"
  defines "us \<equiv> usable_candidates cands room"
  defines "b \<equiv> dfs target ql (sort_key order_key us) room n 0 0 [] []
     \<lparr> best_counts = [], best_tflops = 0, best_cost = 0, best_found = (target = None), best_key = (0, 0) \<rparr>"
  shows "best_found b \<and> (\<exists>z. feasible EPS cands room ql n z \<and>
    items_sorted (best_counts b) = items_sorted (counts_of z cands) \<and> best_tflops b = tflops_of z cands \<and>
    best_cost b = cost_of z cands \<and> meets target (tflops_of z cands + EPS) \<and>
    plan_key target (tflops_of x cands) (cost_of x cands) \<le> plan_key target (tflops_of z cands) (cost_of z cands))"
proof -
  define P where "P = (\<lambda>c :: candidate. eff_tflops c > 0 \<and>
    (case room of None \<Rightarrow> True | Some r \<Rightarrow> price_per_hour c \<le> r + EPS))"
  define y where "y = (\<lambda>c. if P c then x c else 0)"
  define ord where "ord = sort_key order_key us"
  have us: "us = filter P cands" by (simp add: us_def usable_candidates_def P_def)
  have y: "feasible 0 cands room ql n y" "tflops_of x cands \<le> tflops_of y cands" "cost_of y cands \<le> cost_of x cands"
    unfolding y_def P_def using usable_restriction [OF assms(4,2)] by simp_all
  have dk: "distinct (map key ord)"
    using assms(1) by (auto simp: ord_def us distinct_map inj_on_def)
  have so: "\<forall>c \<in> set ord. sane c \<and> 0 < eff_tflops c" using assms(2) by (auto simp: ord_def us P_def)
  have yo: "tflops_of y ord = tflops_of y cands" "cost_of y ord = cost_of y cands"
      "islands_of y ord = islands_of y cands" "vcpus_of y bk ord = vcpus_of y bk cands" for bk
    using totals_filter [of cands P y] by (auto simp: ord_def us totals_sort y_def)
  have caps: "0 \<le> cap" if "dict_get ql bk = Some cap" for bk cap
  proof -
    have "0 \<le> vcpus_of x bk cands" using assms(2,4) by (intro vcpus_nonneg) (auto simp: feasible_def)
    also have "\<dots> \<le> cap + 0" using assms(4) that unfolding feasible_def by blast
    finally show ?thesis by simp
  qed
  have yfeas: "islands_of y ord \<le> n" "affords room (cost_of y ord)"
      "\<And>bk cap. dict_get ql bk = Some cap \<Longrightarrow> vcpus_of y bk ord \<le> cap"
    using y(1) unfolding yo feasible_def by (auto simp: affords_def split: option.splits)
  have "counted y c" if "c \<in> set ord" for c
  proof -
    have "c \<in> set cands" using that by (simp add: ord_def us)
    then have "0 \<le> y c" "\<forall>m. max_count c = Some m \<longrightarrow> y c = 0 \<or> y c \<le> m" "sane c"
      using y(1) assms(2) unfolding feasible_def by blast+
    then show ?thesis by (auto simp: counted_def sane_def split: option.splits)
  qed
  then have path: "on_path ql y ord room n []"
    using so yfeas by (intro exact_on_path) auto
  have met: "t \<le> tflops_of y ord" if "target = Some t" for t
    using assms(5) that y(2) by (simp add: meets_def yo)
  let ?b0 = "\<lparr> best_counts = [], best_tflops = 0, best_cost = 0, best_found = (target = None), best_key = (0, 0) \<rparr>"
  have beat: "beaten b (plan_key target (tflops_of y ord) (cost_of y ord)) (counts_of y ord)"
    using dfs_complete [OF path so yfeas(1,2) _ dk, of target 0 "[]" ?b0 0] met
    by (simp add: b_def ord_def)
  define R where "R cnts t c \<longleftrightarrow> (cnts = [] \<and> t = 0 \<and> c = 0) \<or>
    (\<exists>z. reached ql z ord room n [] \<and> cnts = counts_of z ord \<and> t = tflops_of z ord \<and> c = cost_of z ord)"
    for cnts t c
  have "sound target R ?b0"
    by (auto simp: sound_def R_def plan_key_def round9_def round_even_def split: option.splits)
  then have snd: "sound target R b"
    unfolding b_def ord_def [symmetric] by (rule dfs_sound) (use dk in \<open>auto simp: R_def\<close>)
  have found: "best_found b" using beat by (simp add: beaten_def)
  have R: "R (best_counts b) (best_tflops b) (best_cost b)"
    and bkey: "best_key b = plan_key target (best_tflops b) (best_cost b)"
    and bmet: "meets target (best_tflops b + EPS)"
    using snd found by (auto simp: sound_def meets_def split: option.splits)
  have "plan_key target (tflops_of x cands) (cost_of x cands) \<le> plan_key target (tflops_of y ord) (cost_of y ord)"
    using y(2,3) unfolding yo by (rule plan_key_mono)
  also have "\<dots> \<le> best_key b" using beat by (auto simp: beaten_def)
  finally have opt: "plan_key target (tflops_of x cands) (cost_of x cands) \<le>
      plan_key target (best_tflops b) (best_cost b)" unfolding bkey .
  have "\<exists>z. feasible EPS cands room ql n z \<and> items_sorted (best_counts b) = items_sorted (counts_of z cands) \<and>
      best_tflops b = tflops_of z cands \<and> best_cost b = cost_of z cands"
    using R unfolding R_def
  proof (elim disjE exE conjE)
    assume e: "best_counts b = []" "best_tflops b = 0" "best_cost b = 0"
    have "feasible EPS cands room ql n (\<lambda>_. 0)"
      using assms(3,6) caps EPS_pos(1)
      by (auto simp: feasible_def affords_def zero_counts split: option.splits)
    then show ?thesis using e by (intro exI [of _ "\<lambda>_. 0"]) (simp add: zero_counts)
  next
    fix z assume z: "reached ql z ord room n []" and e: "best_counts b = counts_of z ord"
      "best_tflops b = tflops_of z ord" "best_cost b = cost_of z ord"
    note f = reached_feasible [OF z [unfolded ord_def] us assms(2,3,6) caps, folded ord_def]
    have "items_sorted (best_counts b) = items_sorted (counts_of (\<lambda>c. if P c then z c else 0) cands)"
      unfolding e using distinct_counts [OF dk] f(4) by (intro items_sorted_cong) auto
    then show ?thesis
      using f(1,2,3) e(2,3) by (intro exI [of _ "\<lambda>c. if P c then z c else 0"] conjI) simp_all
  qed
  then show ?thesis using found opt bmet by auto
qed

section \<open>Property\<close>

text \<open>
  C8. The branch and bound loses nothing: against every plan within the budget, the quotas and
  the island cap (and reaching the target, in target mode), the returned plan is at least as
  good in the lexicographic objective, its totals are the totals of its counts, and it keeps
  the constraints up to the slack of \<open>1e-9\<close> that the code admits.
\<close>

theorem solve_optimal:
  assumes "distinct (map key cands)" and "\<forall>c \<in> set cands. sane c" and "0 \<le> max_islands"
    and "\<forall>bud. budget = Some bud \<longrightarrow> head < bud"
    and "feasible 0 cands (map_option (\<lambda>bud. bud - head) budget) ql max_islands x"
    and "meets target (tflops_of x cands)"
  defines "p \<equiv> solve cands budget ql max_islands head target"
  shows "\<exists>y. feasible EPS cands (map_option (\<lambda>bud. bud - head) budget) ql max_islands y \<and>
    counts p = items_sorted (counts_of y cands) \<and> total_tflops p = tflops_of y cands \<and>
    total_cost p = (if counts p = [] then 0 else cost_of y cands + head) \<and>
    meets target (tflops_of y cands + EPS) \<and>
    plan_key target (tflops_of x cands) (cost_of x cands) \<le> plan_key target (tflops_of y cands) (cost_of y cands)"
proof -
  define room where "room = map_option (\<lambda>bud. bud - head) budget"
  have room: "0 < r" if "room = Some r" for r using assms(4) that by (auto simp: room_def)
  note res = search_result [OF assms(1-3) assms(5,6) [folded room_def] room]
  show ?thesis
  proof (cases "usable_candidates cands room = []")
    case True
    then have "p = empty_plan (if target \<noteq> None then [''target-flops''] else [''budget''])"
      using room by (auto simp: p_def solve_def room_def [symmetric] Let_def split: option.splits)
    then have "counts p = []" "total_tflops p = 0" "total_cost p = 0" by (simp_all add: empty_plan_def)
    moreover obtain y where "feasible EPS cands room ql max_islands y" "[] = items_sorted (counts_of y cands)"
        "0 = tflops_of y cands" "meets target (tflops_of y cands + EPS)"
        "plan_key target (tflops_of x cands) (cost_of x cands) \<le> plan_key target (tflops_of y cands) (cost_of y cands)"
      using res True by (auto simp: consider_plan_def Let_def items_sorted_def split: if_splits)
    ultimately show ?thesis unfolding room_def by (intro exI [of _ y]) simp
  next
    case False
    then have "p = (let b = dfs target ql (sort_key order_key (usable_candidates cands room)) room max_islands 0 0 [] []
         \<lparr> best_counts = [], best_tflops = 0, best_cost = 0, best_found = (target = None), best_key = (0, 0) \<rparr>;
         cnts = items_sorted (best_counts b); cost = (if cnts \<noteq> [] then best_cost b + head else 0)
       in \<lparr> counts = cnts, total_tflops = best_tflops b, total_cost = cost,
            binding = binding_of (usable_candidates cands room) budget ql max_islands cnts cost \<rparr>)"
      using room res by (auto simp: p_def solve_def room_def [symmetric] Let_def split: option.splits)
    then show ?thesis using res by (auto simp: Let_def room_def)
  qed
qed

definition ex_cand :: "string \<Rightarrow> rat \<Rightarrow> rat \<Rightarrow> candidate" where
  "ex_cand k price tf = \<lparr> key = k, region = ''r'', gpu = ''a100'', instance_type = ''i'', nodes = 1,
     gpus_per_node = 8, vcpus_per_island = 96, price_per_hour = price, eff_tflops = tf,
     quota_bucket = Some (''r'', ''q''), score = None, assumed = False, max_count = Some 2, cloud = ''aws'',
     price_source = ''catalog'' \<rparr>"

definition ex_choice :: "candidate \<Rightarrow> int" where
  "ex_choice c = (if key c = ''a'' then 2 else 1)"

definition ex_cands :: "candidate list" where
  "ex_cands = [ex_cand ''a'' 2 10, ex_cand ''b'' 3 14]"

theorem solve_optimal_witness:
  "\<exists>y. counts (solve ex_cands (Some 8) [((''r'', ''q''), 288)] 4 1 None) = items_sorted (counts_of y ex_cands) \<and>
       plan_key None 34 7 \<le> plan_key None (tflops_of y ex_cands) (cost_of y ex_cands)"
proof -
  have h: "distinct (map key ex_cands)" "\<forall>c \<in> set ex_cands. sane c" "(0 :: int) \<le> 4"
      "\<forall>bud. Some 8 = Some bud \<longrightarrow> (1 :: rat) < bud"
      "feasible 0 ex_cands (map_option (\<lambda>bud. bud - 1) (Some 8)) [((''r'', ''q''), 288)] 4 ex_choice"
      "meets None (tflops_of ex_choice ex_cands)"
    and t: "tflops_of ex_choice ex_cands = 34" "cost_of ex_choice ex_cands = 7"
    by (auto simp: ex_cands_def ex_cand_def ex_choice_def sane_def feasible_def affords_def meets_def)
  show ?thesis using solve_optimal [OF h] unfolding t by blast
qed

end
