(* ===== verification/Island_Topology.thy ===== *)
theory Island_Topology
  imports Complex_Main Py_Base
begin

text \<open>
  The node-aware topology of an island (\<open>yeto/rl/engine/multinode.py\<close>): logical bundles and
  \<open>(node, local GPU)\<close> slots, the spellings of a placement, the rules a placement must keep,
  the engine runs of a role, and the reconciliation of the GPUs found at start-up with the
  declared ones.

  Counts and slots are \<^typ>\<open>int\<close>; where the code tests the type of a manifest value it is a
  \<^typ>\<open>pyval\<close>.  A \<open>TopologyError\<close> is a constructor of \<open>topo_error\<close> and a rejection text a
  constructor of \<open>rejection\<close>.  \<open>math.ceil\<close> of a quotient of integers is taken exactly.  The
  lemmas show that a normalized placement gives every GPU at most one role, that the engine
  runs partition a role's bundles without crossing a node, and when a GPU pool is accepted.
\<close>

type_synonym slot = "int \<times> int"

datatype topo_error =
    NotPositive string
  | BundleOutside int
  | SlotOutside int int
  | NeedGpusPerNode
  | PoolSize nat int
  | GpuNeedsNode
  | PoolNodes nat int
  | BadIndices string
  | NotASlot
  | UnknownGpu string
  | GpuHasNoIndex string
  | MixedSpellings
  | GpuTwice slot
  | NoTrainer
  | UnequalNodes
  | RunNotOneNode int
  | RunNotContiguous int
  | RunsNotTogether
  | EmptyEngine
  | RevisitsNode int
  | NotConsecutive int
  | NotAMultiple int int
  | NotWholeNodes int int
  | NegativeStandby
  | InNodeDoesNotFit int int
  | EngineDoesNotFit int int
  | BlockSpansNodes nat
  | NodeRepeats
  | HeadShareTooLarge
  | NoBlocks
  | NotTheHead
  | GpuOutside string
  | ProbeNodes nat int
  | ProbeCards nat nat
  | EmptyOrRepeatedUuid nat
  | NeedsCounts
  | BundleOutsidePool string int
  | RoleConflict string string string
  | OccupiedTwice string string

datatype rejection =
    NotWholeNodeEngine
  | EngineSize int
  | EngineSpansNodes
  | TrainerNotDivisible nat int
  | GroupSpansNodes nat
  | TrainerShape topo_error
  | NodeNotDivisible int int
  | ExpertParallel int
  | NotWholeReplicas string int
  | DuplicateGpus "string list"
  | BoundElsewhere string "string list"
  | NoRole "string list"
  | RoleOutsidePool "string list"
  | StaleIncarnation "(string \<times> string) list"

section \<open>Sizes\<close>

definition dim :: "(string, int) dict \<Rightarrow> string \<Rightarrow> int" where
  "dim dims d = max 1 (case dict_get dims d of None \<Rightarrow> 1 | Some v \<Rightarrow> if v = 0 then 1 else v)"

definition node_parallel_of :: "(string, int) dict \<Rightarrow> int" where
  "node_parallel_of dims = dim dims ''tp'' * dim dims ''cp''"

definition trainer_replica_gpus :: "(string, int) dict \<Rightarrow> int" where
  "trainer_replica_gpus dims =
     (let tp = dim dims ''tp''; cp = dim dims ''cp''; pp = dim dims ''pp''; ep = dim dims ''ep'';
          etp = dim dims ''etp''
      in tp * cp * pp * max 1 (- ((- ep * etp) div (tp * cp))))"

section \<open>Topology\<close>

record topology =
  nodes :: int
  gpus_per_node :: int

definition positive_int :: "string \<Rightarrow> pyval \<Rightarrow> topo_error + int" where
  "positive_int name v = (case v of PInt i \<Rightarrow> if i < 1 then Inl (NotPositive name) else Inr i
     | _ \<Rightarrow> Inl (NotPositive name))"

definition Topology :: "pyval \<Rightarrow> pyval \<Rightarrow> topo_error + topology" where
  "Topology n g =
     rbind (positive_int ''nodes'' n) (\<lambda>ni. rbind (positive_int ''gpus_per_node'' g) (\<lambda>gi.
       Inr \<lparr> nodes = ni, gpus_per_node = gi \<rparr>))"

definition total_gpus :: "topology \<Rightarrow> int" where
  "total_gpus t = nodes t * gpus_per_node t"

definition node_of :: "topology \<Rightarrow> int \<Rightarrow> topo_error + int" where
  "node_of t b = (if \<not> (0 \<le> b \<and> b < total_gpus t) then Inl (BundleOutside b)
     else Inr (b div gpus_per_node t))"

definition slot_of :: "topology \<Rightarrow> int \<Rightarrow> topo_error + slot" where
  "slot_of t b = rbind (node_of t b) (\<lambda>n. Inr (n, b mod gpus_per_node t))"

definition bundle_of :: "topology \<Rightarrow> int \<Rightarrow> int \<Rightarrow> topo_error + int" where
  "bundle_of t node g =
     (if \<not> (0 \<le> node \<and> node < nodes t) \<or> \<not> (0 \<le> g \<and> g < gpus_per_node t) then Inl (SlotOutside node g)
      else Inr (node * gpus_per_node t + g))"

record gpu =
  uuid :: "pyval option"
  gnode :: "pyval option"
  gindex :: "pyval option"

record resources =
  rs_nodes :: "pyval option"
  rs_per_node :: "pyval option"
  rs_gpus :: "gpu list option"

definition gpus_of :: "resources \<Rightarrow> gpu list" where
  "gpus_of r = (case rs_gpus r of None \<Rightarrow> [] | Some gs \<Rightarrow> gs)"

definition topology_of :: "resources \<Rightarrow> topo_error + topology option" where
  "topology_of r =
     (if rs_nodes r = None \<and> rs_per_node r = None then Inr None
      else let n = (case rs_nodes r of None \<Rightarrow> PInt 1 | Some v \<Rightarrow> v);
               per = (case rs_per_node r of Some PNone \<Rightarrow> None | v \<Rightarrow> v)
           in rbind (case per of
                Some v \<Rightarrow> Inr v
              | None \<Rightarrow> (case n of
                  PInt i \<Rightarrow>
                    if i < 1 \<or> gpus_of r = [] \<or> int (length (gpus_of r)) mod i \<noteq> 0 then Inl NeedGpusPerNode
                    else Inr (PInt (int (length (gpus_of r)) div i))
                | _ \<Rightarrow> Inl NeedGpusPerNode))
              (\<lambda>p. rbind (Topology n p) (\<lambda>t. Inr (Some t))))"

definition int_list :: "pyval list \<Rightarrow> int list option" where
  "int_list vs = (if \<forall>v \<in> set vs. case v of PInt _ \<Rightarrow> True | PBool _ \<Rightarrow> True | _ \<Rightarrow> False
     then Some (map (\<lambda>v. the (py_to_int v)) vs) else None)"

definition check_pool_topology :: "resources \<Rightarrow> topology \<Rightarrow> topo_error + unit" where
  "check_pool_topology r t =
     (let gs = gpus_of r in
      if gs = [] then Inr ()
      else if int (length gs) \<noteq> total_gpus t then Inl (PoolSize (length gs) (total_gpus t))
      else rbind (rfold (\<lambda>g (by :: (pyval, pyval list) dict).
               case (gnode g, gindex g) of
                 (Some n, Some i) \<Rightarrow>
                   Inr (dict_set (py_key n) ((case dict_get by (py_key n) of None \<Rightarrow> [] | Some is \<Rightarrow> is) @ [i]) by)
               | _ \<Rightarrow> Inl GpuNeedsNode) gs [])
        (\<lambda>by. if int (length by) \<noteq> nodes t then Inl (PoolNodes (length by) (nodes t))
          else rfold (\<lambda>(n, is) _. case int_list is of
                 Some xs \<Rightarrow> if sort xs \<noteq> map int [0..<nat (gpus_per_node t)] then Inl (BadIndices (py_str n)) else Inr ()
               | None \<Rightarrow> Inl (BadIndices (py_str n))) by ()))"

section \<open>Placements\<close>

text \<open>\<open>_SLOT_RE\<close>: \<open>n<digits>:<digits>\<close>, where \<open>$\<close> also matches before a last newline.\<close>

definition slot_re :: "string \<Rightarrow> (nat \<times> nat) option" where
  "slot_re s =
     (let s' = (if s \<noteq> [] \<and> last s = CHR 0x0A then butlast s else s) in
      case s' of
        c # cs \<Rightarrow> if c \<noteq> CHR ''n'' then None
          else (case py_partition (CHR '':'') cs of
            (a, sep, b) \<Rightarrow> if \<not> sep then None
              else (case (read_nat a, read_nat b) of (Some k, Some g) \<Rightarrow> Some (k, g) | _ \<Rightarrow> None))
      | [] \<Rightarrow> None)"

definition need_key :: "topo_error \<Rightarrow> 'a option \<Rightarrow> topo_error + 'a" where
  "need_key e x = (case x of None \<Rightarrow> Inl e | Some v \<Rightarrow> Inr v)"

definition resolve_slot :: "pyval \<Rightarrow> topology \<Rightarrow> (string, gpu) dict option \<Rightarrow> topo_error + slot" where
  "resolve_slot entry t pool =
     (case entry of
        PInt b \<Rightarrow> slot_of t b
      | PStr s \<Rightarrow>
          (case slot_re s of
             Some (k, g) \<Rightarrow> rbind (bundle_of t (int k) (int g)) (\<lambda>_. Inr (int k, int g))
           | None \<Rightarrow>
               (case pool of
                  None \<Rightarrow> Inl (UnknownGpu s)
                | Some d \<Rightarrow> (case dict_get d s of
                    None \<Rightarrow> Inl (UnknownGpu s)
                  | Some gp \<Rightarrow>
                      let names = sort (remdups (map (\<lambda>g. py_str (case gnode g of None \<Rightarrow> PNone | Some v \<Rightarrow> v)) (map snd d)))
                      in rbind (need_key (GpuHasNoIndex s) (gnode gp)) (\<lambda>n.
                         rbind (need_key (GpuHasNoIndex s) (gindex gp)) (\<lambda>i.
                         rbind (need_key (GpuHasNoIndex s) (py_to_int i)) (\<lambda>iv.
                         let node = int (index_of (py_str n) names)
                         in rbind (bundle_of t node iv) (\<lambda>_. Inr (node, iv))))))))
      | _ \<Rightarrow> Inl NotASlot)"

definition spelling :: "pyval \<Rightarrow> string" where
  "spelling entry = (case entry of PInt _ \<Rightarrow> ''bundle''
     | PStr s \<Rightarrow> if slot_re s \<noteq> None then ''slot'' else ''uuid'' | _ \<Rightarrow> ''uuid'')"

record 'e placement =
  trainer :: "'e list"
  rollout :: "'e list list"
  standby :: "'e list"

definition placement_overlap :: "slot placement \<Rightarrow> slot option" where
  "placement_overlap p =
     (let flat = trainer p @ concat (rollout p) @ standby p in
      fst (fold (\<lambda>s (dup, seen). case dup of Some d \<Rightarrow> (dup, seen)
           | None \<Rightarrow> if s \<in> set seen then (Some s, seen) else (None, s # seen)) flat (None, [])))"

definition normalize_placement ::
  "pyval placement \<Rightarrow> topology \<Rightarrow> (string, gpu) dict option \<Rightarrow> topo_error + slot placement" where
  "normalize_placement p t pool =
     (let flat = trainer p @ standby p @ concat (rollout p) in
      if length (remdups (map spelling flat)) > 1 then Inl MixedSpellings
      else rbind (rmap (\<lambda>e. resolve_slot e t pool) (trainer p)) (\<lambda>tr.
           rbind (rmap (rmap (\<lambda>e. resolve_slot e t pool)) (rollout p)) (\<lambda>ro.
           rbind (rmap (\<lambda>e. resolve_slot e t pool) (standby p)) (\<lambda>st.
           let out = \<lparr> trainer = tr, rollout = ro, standby = st \<rparr>
           in case placement_overlap out of Some d \<Rightarrow> Inl (GpuTwice d) | None \<Rightarrow> Inr out))))"

definition spans_nodes :: "slot list \<Rightarrow> bool" where
  "spans_nodes slots \<longleftrightarrow> length (remdups (map fst slots)) > 1"

text \<open>The number of slots on each node, in the order the nodes appear.\<close>

definition node_counts :: "slot list \<Rightarrow> (int, nat) dict" where
  "node_counts slots = fold (\<lambda>(n, _) d. dict_set n ((case dict_get d n of None \<Rightarrow> 0 | Some k \<Rightarrow> k) + 1) d) slots []"

definition rectangular_trainer :: "slot list \<Rightarrow> topo_error + nat \<times> nat" where
  "rectangular_trainer slots =
     (if slots = [] then Inl NoTrainer
      else let cs = node_counts slots; sizes = remdups (map snd cs) in
        case sizes of [k] \<Rightarrow> Inr (length cs, k) | _ \<Rightarrow> Inl UnequalNodes)"

text \<open>The check of one run of trainer slots in \<open>trainer_layout\<close>.\<close>

definition check_run :: "nat \<Rightarrow> slot list \<Rightarrow> topo_error + unit" where
  "check_run per_node run =
     (case remdups (map fst run) of
        [n] \<Rightarrow> if map snd run \<noteq> map (\<lambda>i. snd (hd run) + int i) [0..<per_node] then Inl (RunNotContiguous n) else Inr ()
      | _ \<Rightarrow> Inl (RunNotOneNode (fst (hd run))))"

definition bundles :: "topology \<Rightarrow> slot list \<Rightarrow> topo_error + int list" where
  "bundles t slots = rmap (\<lambda>(n, g). bundle_of t n g) slots"

definition trainer_layout :: "slot placement \<Rightarrow> topology \<Rightarrow> topo_error + nat \<times> nat \<times> (string, int list) dict" where
  "trainer_layout p t =
     rbind (rectangular_trainer (trainer p)) (\<lambda>(n, per_node).
       let runs = py_slices per_node (trainer p) in
       rbind (rfold (\<lambda>run _. check_run per_node run) runs ()) (\<lambda>_.
         if \<not> distinct (map (\<lambda>run. fst (hd run)) runs) then Inl RunsNotTogether
         else rbind (bundles t (trainer p)) (\<lambda>tr. rbind (bundles t (concat (rollout p))) (\<lambda>ro.
              rbind (bundles t (standby p)) (\<lambda>st.
                Inr (n, per_node, [(''trainer'', tr), (''rollout'', ro), (''standby'', st)]))))))"

definition leading_bundle_map :: "nat \<Rightarrow> nat \<Rightarrow> nat \<Rightarrow> (string, int list) dict" where
  "leading_bundle_map tr ro st =
     [(''trainer'', map int [0..<tr]), (''rollout'', map int [tr..<tr + ro]),
      (''standby'', map int [tr + ro..<tr + ro + st])]"

section \<open>Engines\<close>

definition engine_replica_rejection :: "slot list \<Rightarrow> int option \<Rightarrow> rejection option" where
  "engine_replica_rejection engine per_node =
     (if \<not> spans_nodes engine then None
      else let cs = node_counts engine in
        case per_node of
          None \<Rightarrow> if length (remdups (map snd cs)) \<noteq> 1 then Some NotWholeNodeEngine else None
        | Some g \<Rightarrow> if \<exists>(n, c) \<in> set cs. int c \<noteq> g then Some NotWholeNodeEngine else None)"

record tp_rank =
  rank :: nat
  node_rank :: nat
  rnode :: int
  rgpu :: int

text \<open>The first loop of \<open>sglang_tp_rank_map\<close>: the GPUs of each node, nodes in order.\<close>

definition engine_nodes :: "slot list \<Rightarrow> topo_error + (int, int list) dict" where
  "engine_nodes engine =
     rfold (\<lambda>(n, g) per.
        case dict_get per n of
          None \<Rightarrow> Inr (per @ [(n, [g])])
        | Some gs \<Rightarrow> if fst (last per) \<noteq> n then Inl (RevisitsNode n) else Inr (dict_set n (gs @ [g]) per))
       engine []"

definition sglang_tp_rank_map :: "slot list \<Rightarrow> topo_error + tp_rank list" where
  "sglang_tp_rank_map engine =
     (if engine = [] then Inl EmptyEngine
      else rbind (engine_nodes engine) (\<lambda>per.
        let k = length (snd (hd per)) in
        rfold (\<lambda>(r, n, gs) out.
            if length gs \<noteq> k \<or> gs \<noteq> map (\<lambda>i. hd gs + int i) [0..<k] then Inl (NotConsecutive n)
            else Inr (out @ map (\<lambda>(i, g). \<lparr> rank = r * k + i, node_rank = r, rnode = n, rgpu = g \<rparr>)
                        (zip [0..<length gs] gs)))
          (zip [0..<length per] per) []))"

definition colocated_engine_slots :: "int \<Rightarrow> int \<Rightarrow> topology \<Rightarrow> topo_error + slot list list" where
  "colocated_engine_slots trainer_gpus gpus_per_engine t =
     (let g = max 1 gpus_per_engine in
      if trainer_gpus mod g \<noteq> 0 then Inl (NotAMultiple trainer_gpus g)
      else rmap (\<lambda>i. rmap (slot_of t) (map (\<lambda>j. i + int j) [0..<nat g])) (py_range 0 trainer_gpus g))"

definition engine_replica_delta_rejection :: "int \<Rightarrow> int \<Rightarrow> int \<Rightarrow> rejection option" where
  "engine_replica_delta_rejection source target engine_gpus =
     (let per = max 1 engine_gpus in
      if source mod per \<noteq> 0 then Some (NotWholeReplicas ''source'' source)
      else if target mod per \<noteq> 0 then Some (NotWholeReplicas ''target'' target) else None)"

fun first_rejection :: "('a \<Rightarrow> rejection option) \<Rightarrow> 'a list \<Rightarrow> rejection option" where
  "first_rejection f [] = None"
| "first_rejection f (x # xs) = (case f x of Some r \<Rightarrow> Some r | None \<Rightarrow> first_rejection f xs)"

definition engine_rejection :: "int option \<Rightarrow> bool \<Rightarrow> int option \<Rightarrow> slot list \<Rightarrow> rejection option" where
  "engine_rejection gpus_per_engine allow_cross per_node engine =
     (case gpus_per_engine of
        Some g \<Rightarrow> if int (length engine) \<noteq> g then Some (EngineSize g)
          else if spans_nodes engine then
            (if \<not> allow_cross then Some EngineSpansNodes else engine_replica_rejection engine per_node)
          else None
      | None \<Rightarrow> if spans_nodes engine then
            (if \<not> allow_cross then Some EngineSpansNodes else engine_replica_rejection engine per_node)
          else None)"

definition node_placement_rejection ::
  "slot placement \<Rightarrow> int option \<Rightarrow> int \<Rightarrow> int \<Rightarrow> int option \<Rightarrow> bool \<Rightarrow> bool \<Rightarrow> int option \<Rightarrow> rejection option" where
  "node_placement_rejection p node_parallel model_parallel expert_parallel gpus_per_engine
       allow_cross_node_tp allow_cross_node_engine per_node =
     (case first_rejection (engine_rejection gpus_per_engine allow_cross_node_engine per_node) (rollout p) of
        Some r \<Rightarrow> Some r
      | None \<Rightarrow>
        let tr = trainer p;
            np = max 1 (case node_parallel of None \<Rightarrow> model_parallel | Some v \<Rightarrow> v)
        in if int (length tr) mod np \<noteq> 0 then Some (TrainerNotDivisible (length tr) np)
        else case (if allow_cross_node_tp then None
                   else first_rejection (\<lambda>(i, g). if spans_nodes g then Some (GroupSpansNodes i) else None)
                     (let gs = py_slices (nat np) tr in zip [0..<length gs] gs)) of
             Some r \<Rightarrow> Some r
           | None \<Rightarrow>
             (case (if tr = [] then Inr (0, 0) else rectangular_trainer tr) of
                Inl e \<Rightarrow> Some (TrainerShape e)
              | Inr (_, pn) \<Rightarrow>
                if tr \<noteq> [] \<and> int pn mod np \<noteq> 0 \<and> \<not> allow_cross_node_tp then Some (NodeNotDivisible np (int pn))
                else let ep = max 1 expert_parallel in
                  if ep > 1 \<and> tr \<noteq> [] then
                    let mp = max 1 model_parallel; pp = max 1 (mp div np);
                        attn_ranks = int (length tr) div pp
                    in if int (length tr) mod mp \<noteq> 0 \<or> attn_ranks mod ep \<noteq> 0 then Some (ExpertParallel ep) else None
                  else None))"

section \<open>Engine runs of a role\<close>

text \<open>The consecutive split without a topology, and the loop that never crosses a node.\<close>

record chunk_state =
  runs :: "int list list"
  rest :: "int list"
  block :: "int list"
  current :: "int option"

definition chunk_step :: "topology \<Rightarrow> nat \<Rightarrow> int \<Rightarrow> chunk_state \<Rightarrow> topo_error + chunk_state" where
  "chunk_step t per b s =
     rbind (node_of t b) (\<lambda>n.
       let s1 = (if Some n \<noteq> current s \<and> block s \<noteq> [] then s\<lparr> rest := rest s @ block s, block := [] \<rparr> else s);
           blk = block s1 @ [b]
       in Inr (if length blk = per then s1\<lparr> current := Some n, runs := runs s1 @ [blk], block := [] \<rparr>
               else s1\<lparr> current := Some n, block := blk \<rparr>))"

definition whole_nodes :: "topology \<Rightarrow> int list \<Rightarrow> topo_error + int list list" where
  "whole_nodes t bs =
     rbind (rfold (\<lambda>b by. rbind (node_of t b) (\<lambda>n.
              Inr (dict_set n ((case dict_get by n of None \<Rightarrow> [] | Some xs \<Rightarrow> xs) @ [b]) by))) bs [])
       (\<lambda>by. Inr (map (\<lambda>(n, xs). sort xs)
          (filter (\<lambda>(n, xs). set (map (\<lambda>b. b mod gpus_per_node t) xs) = set (map int [0..<nat (gpus_per_node t)]))
            (items_sorted by))))"

definition chunk_by_node ::
  "int list \<Rightarrow> topology option \<Rightarrow> nat \<Rightarrow> bool \<Rightarrow> topo_error + int list list \<times> int list" where
  "chunk_by_node bs topo per allow_cross_node =
     (case topo of
        None \<Rightarrow>
          let rs = filter (\<lambda>r. length r = per) (py_slices per bs) in Inr (rs, drop (length rs * per) bs)
      | Some t \<Rightarrow>
          let g = gpus_per_node t in
          if allow_cross_node \<and> int per > g then
            if int per mod g \<noteq> 0 then Inl (NotWholeNodes (int per) g)
            else rbind (whole_nodes t bs) (\<lambda>whole.
              let k = per div nat g;
                  rs = map concat (filter (\<lambda>r. length r = k) (py_slices k whole));
                  used = concat rs
              in Inr (rs, filter (\<lambda>b. b \<notin> set used) bs))
          else rbind (rfold (chunk_step t per) bs \<lparr> runs = [], rest = [], block = [], current = None \<rparr>)
            (\<lambda>s. Inr (runs s, rest s @ block s)))"

section \<open>The smallest island\<close>

definition min_nodes :: "int \<Rightarrow> int \<Rightarrow> int \<Rightarrow> int \<Rightarrow> int option \<Rightarrow> bool \<Rightarrow> bool \<Rightarrow> topo_error + int" where
  "min_nodes trainer_min rollout_min standby_gpus g node_parallel allow_cross_node_tp allow_cross_node_engine =
     (if trainer_min < 1 then Inl (NotPositive ''trainer_min_gpus'')
      else if rollout_min < 1 then Inl (NotPositive ''rollout_min_gpus'')
      else if g < 1 then Inl (NotPositive ''gpus_per_node'')
      else if standby_gpus < 0 then Inl NegativeStandby
      else rbind (case node_parallel of
              None \<Rightarrow> Inr ()
            | Some np \<Rightarrow>
                if np < 1 then Inl (NotPositive ''node_parallel'')
                else if \<not> allow_cross_node_tp \<and> (np > g \<or> g mod np \<noteq> 0) then Inl (InNodeDoesNotFit np g)
                else if trainer_min mod np \<noteq> 0 then Inl (NotAMultiple trainer_min np) else Inr ())
        (\<lambda>_. if trainer_min > g \<and> trainer_min mod g \<noteq> 0 then Inl (NotWholeNodes trainer_min g)
          else if rollout_min > g \<and> \<not> allow_cross_node_engine then Inl (EngineDoesNotFit rollout_min g)
          else if rollout_min > g \<and> rollout_min mod g \<noteq> 0 then Inl (NotWholeNodes rollout_min g)
          else Inr (max 1 (- ((- (trainer_min + rollout_min + standby_gpus)) div g)))))"

section \<open>The placement group at start-up\<close>

definition assert_node_blocks :: "string list \<Rightarrow> nat \<Rightarrow> topo_error + string list" where
  "assert_node_blocks ids g =
     (if ids = [] \<or> length ids mod g \<noteq> 0 then Inl (NotWholeNodes (int (length ids)) (int g))
      else rbind (rfold (\<lambda>(i, blk) blocks. if length (remdups blk) \<noteq> 1 then Inl (BlockSpansNodes i)
               else Inr (blocks @ [hd blk])) (let bs = py_slices g ids in zip [0..<length bs] bs) [])
        (\<lambda>blocks. if \<not> distinct blocks then Inl NodeRepeats else Inr blocks))"

definition head_pinned_bundles :: "int \<Rightarrow> int \<Rightarrow> string \<Rightarrow> rat \<Rightarrow> topo_error + (string, rat) dict list" where
  "head_pinned_bundles num_gpus g head_resource share =
     (if g \<le> 0 \<or> num_gpus \<le> 0 \<or> num_gpus mod g \<noteq> 0 then Inl (NotWholeNodes num_gpus g)
      else if of_int g * share > 1 then Inl HeadShareTooLarge
      else Inr (map (\<lambda>i. if i < nat g then dict_set head_resource share [(''GPU'', 1), (''CPU'', 1)]
                 else [(''GPU'', 1), (''CPU'', 1)]) [0..<nat num_gpus]))"

definition head_first_sort_key :: "string \<Rightarrow> (nat \<times> string \<times> int \<Rightarrow> 'k) \<Rightarrow> nat \<times> string \<times> int \<Rightarrow> nat \<times> 'k" where
  "head_first_sort_key head_ip base_key entry =
     (if fst (snd entry) = head_ip then 0 else 1, base_key entry)"

definition assert_head_block :: "string list \<Rightarrow> string \<Rightarrow> topo_error + unit" where
  "assert_head_block blocks head_node =
     (case blocks of [] \<Rightarrow> Inl NoBlocks | b # _ \<Rightarrow> if b \<noteq> head_node then Inl NotTheHead else Inr ())"

section \<open>The GPU pool\<close>

record reconcile_result =
  ok :: bool
  observed :: "string list list"
  rebind :: bool
  mapping :: "(string, string) dict"
  diffs :: "(int \<times> int \<times> string \<times> string) list"
  shape_error :: bool

definition flat_pool :: "reconcile_result \<Rightarrow> string list" where
  "flat_pool r = concat (observed r)"

text \<open>A Python index: negative ones count from the end, \<open>None\<close> is an \<open>IndexError\<close>.\<close>

definition py_index :: "int \<Rightarrow> nat \<Rightarrow> nat option" where
  "py_index i n = (if 0 \<le> i \<and> i < int n then Some (nat i)
     else if i < 0 \<and> 0 \<le> i + int n then Some (nat (i + int n)) else None)"

definition declared_gpu_pool :: "resources \<Rightarrow> topology \<Rightarrow> topo_error + string option list list" where
  "declared_gpu_pool r t =
     rfold (\<lambda>g pool.
        case (uuid g, gnode g, gindex g) of
          (Some (PStr u), Some n, Some i) \<Rightarrow>
            if u = [] \<or> n = PNone \<or> i = PNone then Inr pool
            else (case (py_to_int n, py_to_int i) of
                (Some ni, Some ii) \<Rightarrow>
                  (case py_index ni (length pool) of
                     None \<Rightarrow> Inl (GpuOutside u)
                   | Some a \<Rightarrow> (case py_index ii (length (pool ! a)) of
                       None \<Rightarrow> Inl (GpuOutside u)
                     | Some b \<Rightarrow> Inr (pool[a := (pool ! a)[b := Some u]])))
              | _ \<Rightarrow> Inl (GpuOutside u))
        | _ \<Rightarrow> Inr pool)
       (gpus_of r) (replicate (nat (nodes t)) (replicate (nat (gpus_per_node t)) None))"

definition observe_row ::
  "nat \<Rightarrow> int \<times> string \<Rightarrow> (int, string) dict \<times> string list \<Rightarrow> topo_error + (int, string) dict \<times> string list" where
  "observe_row k row st = (case (row, st) of ((i, raw), (by_index, seen)) \<Rightarrow>
     let u = py_strip raw in
     if u = [] \<or> u \<in> set seen then Inl (EmptyOrRepeatedUuid k)
     else Inr (dict_set i u by_index, u # seen))"

definition observed_gpu_pool :: "(int \<times> string) list list \<Rightarrow> topology \<Rightarrow> topo_error + string list list" where
  "observed_gpu_pool probe t =
     (if int (length probe) \<noteq> nodes t then Inl (ProbeNodes (length probe) (nodes t))
      else rbind (rfold (\<lambda>(k, rows) (out, seen).
          if int (length rows) \<noteq> gpus_per_node t then Inl (ProbeCards k (length rows))
          else rbind (rfold (observe_row k) rows ([], seen)) (\<lambda>(by_index, seen').
            if sort (map fst by_index) \<noteq> map int [0..<nat (gpus_per_node t)] then Inl (BadIndices (show_nat k))
            else Inr (out @ [map (\<lambda>i. the (dict_get by_index (int i))) [0..<nat (gpus_per_node t)]], seen')))
          (zip [0..<length probe] probe) ([], []))
        (\<lambda>(out, seen). Inr out))"

definition slot_diffs :: "string option list list \<Rightarrow> string list list \<Rightarrow> (int \<times> int \<times> string \<times> string) list" where
  "slot_diffs dec obs =
     concat (map (\<lambda>(k, ds, os). concat (map (\<lambda>(g, d, u).
         case d of Some v \<Rightarrow> if v \<noteq> u then [(int k, int g, v, u)] else [] | None \<Rightarrow> [])
       (zip [0..<length ds] (zip ds os)))) (zip [0..<length dec] (zip dec obs)))"

definition reconcile_gpu_pool ::
  "string option list list option \<Rightarrow> string list list \<Rightarrow> bool \<Rightarrow> reconcile_result" where
  "reconcile_gpu_pool declared obs accept_rebind =
     (let yes = \<lparr> ok = True, observed = obs, rebind = False, mapping = [], diffs = [], shape_error = False \<rparr> in
      case declared of
        None \<Rightarrow> yes
      | Some dec \<Rightarrow>
          if length dec \<noteq> length obs \<or> (\<exists>(d, u) \<in> set (zip dec obs). length d \<noteq> length u)
          then yes\<lparr> ok := False, shape_error := True \<rparr>
          else let ds = slot_diffs dec obs in
            if ds = [] then yes
            else if \<not> accept_rebind then yes\<lparr> ok := False, diffs := ds \<rparr>
            else yes\<lparr> rebind := True, diffs := ds,
                      mapping := fold (\<lambda>(_, _, d, u) mp. dict_set d u mp) ds [] \<rparr>)"

definition merge_declared_pool ::
  "string option list list option \<Rightarrow> string list list option \<Rightarrow> string option list list option" where
  "merge_declared_pool cfg baseline =
     (case baseline of
        None \<Rightarrow> (case cfg of None \<Rightarrow> None
          | Some c \<Rightarrow> if \<not> (\<exists>node \<in> set c. \<exists>u \<in> set node. u \<noteq> None) then None else Some c)
      | Some base \<Rightarrow>
          (case cfg of
             None \<Rightarrow> Some (map (map Some) base)
           | Some c \<Rightarrow>
               if length c \<noteq> length base \<or> (\<exists>(d, u) \<in> set (zip c base). length d \<noteq> length u) then Some c
               else Some (map (\<lambda>(cn, bn). map (\<lambda>(d, u). case d of Some v \<Rightarrow> Some v | None \<Rightarrow> Some u) (zip cn bn))
                      (zip c base))))"

section \<open>Roles of the GPUs\<close>

definition ROLE_NAMES :: "string list" where
  "ROLE_NAMES = [''trainer'', ''rollout'', ''standby'']"

definition take_role ::
  "string list \<Rightarrow> string \<times> int \<Rightarrow> (string, string) dict \<Rightarrow> topo_error + (string, string) dict" where
  "take_role flat rb roles = (case rb of (role, b) \<Rightarrow>
     if \<not> (0 \<le> b \<and> b < int (length flat)) then Inl (BundleOutsidePool role b)
     else let u = flat ! nat b in
       case dict_get roles u of
         Some r \<Rightarrow> if r \<noteq> role then Inl (RoleConflict u r role) else Inl (OccupiedTwice u role)
       | None \<Rightarrow> Inr (dict_set u role roles))"

definition role_uuid_map ::
  "(string, int list) dict option \<Rightarrow> string list \<Rightarrow> (nat \<times> nat \<times> nat) option \<Rightarrow> topo_error + (string, string) dict" where
  "role_uuid_map bundle_map flat cnts =
     rbind (case bundle_map of
              Some m \<Rightarrow> Inr m
            | None \<Rightarrow> (case cnts of None \<Rightarrow> Inl NeedsCounts | Some (a, b, c) \<Rightarrow> Inr (leading_bundle_map a b c)))
       (\<lambda>m. rfold (take_role flat) (concat (map (\<lambda>role.
              map (Pair role) (case dict_get m role of None \<Rightarrow> [] | Some bs \<Rightarrow> bs)) ROLE_NAMES)) [])"

definition occupation_rejection ::
  "string list \<Rightarrow> (string, string) dict \<Rightarrow> (string, string list) dict \<Rightarrow> rejection option" where
  "occupation_rejection flat roles other_islands =
     (if length (remdups flat) \<noteq> length flat
      then Some (DuplicateGpus (sort (remdups (filter (\<lambda>u. count_list flat u > 1) flat))))
      else case first_rejection (\<lambda>(island, us).
               let clash = sort (remdups (filter (\<lambda>u. u \<in> set us) flat))
               in if clash \<noteq> [] then Some (BoundElsewhere island clash) else None) other_islands of
          Some r \<Rightarrow> Some r
        | None \<Rightarrow>
            let missing = filter (\<lambda>u. dict_get roles u = None) flat;
                extra = sort (filter (\<lambda>u. u \<notin> set flat) (map fst roles))
            in if missing \<noteq> [] then Some (NoRole missing)
               else if extra \<noteq> [] then Some (RoleOutsidePool extra) else None)"

definition stale_incarnation_rejection ::
  "string list option \<Rightarrow> string list \<Rightarrow> (string, string) dict \<Rightarrow> string \<Rightarrow> rejection option" where
  "stale_incarnation_rejection baseline flat live mine =
     (let pool = (case baseline of None \<Rightarrow> [] | Some bs \<Rightarrow> bs) @ flat;
          stale = filter (\<lambda>(u, inc). u \<in> set pool \<and> inc \<noteq> [] \<and> inc \<noteq> mine) live
      in if stale \<noteq> [] then Some (StaleIncarnation (map (\<lambda>u. (u, the (dict_get stale u))) (sort (map fst stale)))) else None)"

section \<open>Slots and bundles\<close>

definition topo_ok :: "topology \<Rightarrow> bool" where
  "topo_ok t \<longleftrightarrow> 0 < nodes t \<and> 0 < gpus_per_node t"

definition slot_ok :: "topology \<Rightarrow> slot \<Rightarrow> bool" where
  "slot_ok t s \<longleftrightarrow> 0 \<le> fst s \<and> fst s < nodes t \<and> 0 \<le> snd s \<and> snd s < gpus_per_node t"

definition slot_bundle :: "topology \<Rightarrow> slot \<Rightarrow> int" where
  "slot_bundle t s = fst s * gpus_per_node t + snd s"

lemma Topology_ok: "Topology n g = Inr t \<Longrightarrow> topo_ok t"
  by (auto simp: Topology_def positive_int_def topo_ok_def rbind_Inr_iff split: pyval.splits if_splits)

lemma bundle_of_slot: "bundle_of t n g = Inr b \<longleftrightarrow> slot_ok t (n, g) \<and> b = slot_bundle t (n, g)"
  by (auto simp: bundle_of_def slot_ok_def slot_bundle_def)

lemma slot_bundle_range:
  assumes "slot_ok t s" shows "0 \<le> slot_bundle t s \<and> slot_bundle t s < total_gpus t"
proof -
  have "fst s * gpus_per_node t \<le> (nodes t - 1) * gpus_per_node t"
    using assms by (intro mult_right_mono) (auto simp: slot_ok_def)
  then have "slot_bundle t s < total_gpus t"
    using assms by (simp add: slot_bundle_def total_gpus_def slot_ok_def algebra_simps)
  then show ?thesis using assms by (simp add: slot_bundle_def slot_ok_def)
qed

lemma slot_bundle_inverse:
  assumes "slot_ok t s" shows "slot_of t (slot_bundle t s) = Inr s"
  using slot_bundle_range [OF assms] assms
  by (cases s) (auto simp: slot_of_def node_of_def slot_bundle_def slot_ok_def)

lemma slot_bundle_inject: "slot_ok t s \<Longrightarrow> slot_ok t s' \<Longrightarrow> slot_bundle t s = slot_bundle t s' \<longleftrightarrow> s = s'"
  by (metis slot_bundle_inverse sum.inject(2))

lemma slot_of_ok:
  assumes "slot_of t b = Inr s" and "topo_ok t" shows "slot_ok t s"
proof -
  have "0 \<le> b" "b < nodes t * gpus_per_node t" "s = (b div gpus_per_node t, b mod gpus_per_node t)"
    using assms(1) by (auto simp: slot_of_def node_of_def total_gpus_def split: if_splits)
  moreover have "b div gpus_per_node t < nodes t"
  proof (rule ccontr)
    assume "\<not> b div gpus_per_node t < nodes t"
    then have "nodes t * gpus_per_node t \<le> b div gpus_per_node t * gpus_per_node t"
      using assms(2) by (intro mult_right_mono) (auto simp: topo_ok_def)
    moreover have "0 \<le> b mod gpus_per_node t" using assms(2) by (simp add: topo_ok_def)
    ultimately show False
      using \<open>b < nodes t * gpus_per_node t\<close> div_mult_mod_eq [of b "gpus_per_node t"] by linarith
  qed
  ultimately show ?thesis
    using assms(2) by (auto simp: slot_ok_def topo_ok_def pos_imp_zdiv_nonneg_iff)
qed

lemma resolve_slot_ok:
  assumes "resolve_slot e t pool = Inr s" and "topo_ok t" shows "slot_ok t s"
  using assms slot_of_ok [OF _ assms(2)]
  by (auto simp: resolve_slot_def rbind_Inr_iff need_key_def bundle_of_slot Let_def
      split: pyval.splits option.splits prod.splits)

section \<open>Normalized placements\<close>

definition all_slots :: "slot placement \<Rightarrow> slot list" where
  "all_slots p = trainer p @ concat (rollout p) @ standby p"

lemma overlap_fold:
  "fst (fold (\<lambda>s (dup, seen). case dup of Some d \<Rightarrow> (dup, seen)
     | None \<Rightarrow> if s \<in> set seen then (Some s, seen) else (None, s # seen)) flat (None, seen)) = None \<longleftrightarrow>
   distinct flat \<and> set flat \<inter> set seen = {}"
proof (induction flat arbitrary: seen)
  case (Cons s flat)
  have stay: "fst (fold (\<lambda>s (dup, seen). case dup of Some d \<Rightarrow> (dup, seen)
     | None \<Rightarrow> if s \<in> set seen then (Some s, seen) else (None, s # seen)) xs (Some d, seen)) = Some d" for xs d
    by (induction xs) auto
  show ?case using Cons.IH [of "s # seen"] stay [of flat s] by auto
qed simp

lemma overlap_none: "placement_overlap p = None \<longleftrightarrow> distinct (all_slots p)"
  unfolding placement_overlap_def Let_def overlap_fold by (simp add: all_slots_def)

lemma normalize_ok:
  assumes "normalize_placement p t pool = Inr q" and "topo_ok t"
  shows "distinct (all_slots q)" "\<forall>s \<in> set (all_slots q). slot_ok t s"
proof -
  obtain tr ro st where r: "rmap (\<lambda>e. resolve_slot e t pool) (trainer p) = Inr tr"
      "rmap (rmap (\<lambda>e. resolve_slot e t pool)) (rollout p) = Inr ro"
      "rmap (\<lambda>e. resolve_slot e t pool) (standby p) = Inr st"
      and c: "(case placement_overlap \<lparr> trainer = tr, rollout = ro, standby = st \<rparr> of
          Some d \<Rightarrow> Inl (GpuTwice d) | None \<Rightarrow> Inr \<lparr> trainer = tr, rollout = ro, standby = st \<rparr>) = Inr q"
    using assms(1) by (auto simp: normalize_placement_def rbind_Inr_iff Let_def split: if_splits)
  have q: "q = \<lparr> trainer = tr, rollout = ro, standby = st \<rparr>" "placement_overlap q = None"
    using c by (cases "placement_overlap \<lparr> trainer = tr, rollout = ro, standby = st \<rparr>"; simp)+
  show "distinct (all_slots q)" using q(2) by (simp add: overlap_none)
  have one: "\<forall>s \<in> set ys. slot_ok t s" if "rmap (\<lambda>e. resolve_slot e t pool) xs = Inr ys" for xs ys
    using list_all2_in_right [OF that [unfolded rmap_Inr_iff]] resolve_slot_ok [OF _ assms(2)] by blast
  have "\<forall>e \<in> set ro. \<forall>s \<in> set e. slot_ok t s"
  proof
    fix e assume "e \<in> set ro"
    then obtain x where "rmap (\<lambda>e. resolve_slot e t pool) x = Inr e"
      using list_all2_in_right [OF r(2) [unfolded rmap_Inr_iff [of "rmap (\<lambda>e. resolve_slot e t pool)"]]] by blast
    then show "\<forall>s \<in> set e. slot_ok t s" by (rule one)
  qed
  then show "\<forall>s \<in> set (all_slots q). slot_ok t s"
    using one [OF r(1)] one [OF r(3)] by (auto simp: q(1) all_slots_def)
qed

lemma bundles_slots: "bundles t ss = Inr bs \<longleftrightarrow> (\<forall>s \<in> set ss. slot_ok t s) \<and> bs = map (slot_bundle t) ss"
proof (induction ss arbitrary: bs)
  case (Cons s ss)
  then show ?case by (cases s) (auto simp: bundles_def rbind_Inr_iff bundle_of_slot)
qed (auto simp: bundles_def)

definition role_slots :: "slot placement \<Rightarrow> string \<Rightarrow> slot list" where
  "role_slots q role = (if role = ''trainer'' then trainer q else if role = ''rollout'' then concat (rollout q)
     else if role = ''standby'' then standby q else [])"

lemma trainer_layout_bundles:
  assumes "trainer_layout q t = Inr (n, per, bm)"
  shows "dict_get bm role = (if role \<in> set ROLE_NAMES then Some (map (slot_bundle t) (role_slots q role)) else None)"
    and "concat (map (\<lambda>role. map (Pair role) (case dict_get bm role of None \<Rightarrow> [] | Some bs \<Rightarrow> bs)) ROLE_NAMES) =
      concat (map (\<lambda>role. map (\<lambda>s. (role, slot_bundle t s)) (role_slots q role)) ROLE_NAMES)"
  using assms
  by (auto simp: trainer_layout_def rbind_Inr_iff Let_def bundles_slots ROLE_NAMES_def role_slots_def
      split: if_splits)

section \<open>Roles\<close>

lemma take_roles:
  assumes "distinct flat" and "distinct (map snd rbs)" and "\<forall>rb \<in> set rbs. 0 \<le> snd rb \<and> snd rb < int (length flat)"
    and "\<forall>rb \<in> set rbs. dict_get roles (flat ! nat (snd rb)) = None" and "dict_ok roles"
  shows "\<exists>out. rfold (take_role flat) rbs roles = Inr out \<and> dict_ok out \<and>
    (\<forall>u r. dict_get out u = Some r \<longleftrightarrow> dict_get roles u = Some r \<or> (\<exists>b. (r, b) \<in> set rbs \<and> flat ! nat b = u))"
  using assms
proof (induction rbs arbitrary: roles)
  case (Cons rb rbs)
  obtain r b where rb: "rb = (r, b)" by (cases rb)
  let ?u = "flat ! nat b" let ?roles = "dict_set ?u r roles"
  have fresh: "flat ! nat (snd x) \<noteq> ?u" if "x \<in> set rbs" for x
  proof
    assume "flat ! nat (snd x) = ?u"
    then have "nat (snd x) = nat b"
      using Cons.prems(1,3) that rb by (subst (asm) nth_eq_iff_index_eq) (auto simp: nat_less_iff)
    then show False using Cons.prems(2,3) that rb by (auto simp: eq_nat_nat_iff image_iff)
  qed
  have step: "take_role flat rb roles = Inr ?roles"
    using Cons.prems(3,4) rb by (simp add: take_role_def Let_def)
  obtain out where out: "rfold (take_role flat) rbs ?roles = Inr out" "dict_ok out"
      "\<forall>u q. dict_get out u = Some q \<longleftrightarrow> dict_get ?roles u = Some q \<or> (\<exists>c. (q, c) \<in> set rbs \<and> flat ! nat c = u)"
  proof -
    have "\<forall>x \<in> set rbs. dict_get ?roles (flat ! nat (snd x)) = None"
      using Cons.prems(4) fresh by (auto dest: not_sym)
    then have "\<exists>out. rfold (take_role flat) rbs ?roles = Inr out \<and> dict_ok out \<and>
        (\<forall>u q. dict_get out u = Some q \<longleftrightarrow> dict_get ?roles u = Some q \<or> (\<exists>c. (q, c) \<in> set rbs \<and> flat ! nat c = u))"
      using Cons.prems(1,2,3,5) by (intro Cons.IH) auto
    then show ?thesis using that by blast
  qed
  have "dict_get roles ?u = None" using Cons.prems(4) rb by simp
  then have "dict_get out u = Some q \<longleftrightarrow> dict_get roles u = Some q \<or> (\<exists>c. (q, c) \<in> set (rb # rbs) \<and> flat ! nat c = u)"
    for u q using out(3) rb by auto
  then show ?case using out step by auto
qed simp

section \<open>Properties\<close>

text \<open>
  C16. A placement that \<open>normalize_placement\<close> and \<open>trainer_layout\<close> accept gives every GPU of a
  pool of distinct GPUs at most one role: the role map is built without a conflict, and it
  names exactly the GPUs whose slots the placement lists for that role.
\<close>

theorem placement_roles_exclusive:
  assumes "Topology (PInt nn) (PInt gg) = Inr t" and "normalize_placement p t pool = Inr q"
    and "trainer_layout q t = Inr (n, per, bm)" and "distinct flat" and "int (length flat) = total_gpus t"
  shows "\<exists>roles. role_uuid_map (Some bm) flat None = Inr roles \<and> dict_ok roles \<and>
    (\<forall>u r. dict_get roles u = Some r \<longleftrightarrow>
       (\<exists>s \<in> set (role_slots q r). flat ! nat (slot_bundle t s) = u))"
proof -
  have t: "topo_ok t" using Topology_ok assms(1) by blast
  note q = normalize_ok [OF assms(2) t]
  define rbs where "rbs = concat (map (\<lambda>role. map (\<lambda>s. (role, slot_bundle t s)) (role_slots q role)) ROLE_NAMES)"
  have snds: "map snd rbs = map (slot_bundle t) (all_slots q)"
    by (simp add: rbs_def ROLE_NAMES_def role_slots_def all_slots_def comp_def)
  have inj: "inj_on (slot_bundle t) (set (all_slots q))"
    using q(2) slot_bundle_inject by (auto simp: inj_on_def)
  have d: "distinct (map snd rbs)" unfolding snds using q(1) inj by (simp add: distinct_map)
  have "\<forall>b \<in> set (map snd rbs). 0 \<le> b \<and> b < int (length flat)"
    unfolding snds assms(5) using q(2) slot_bundle_range by auto
  then have r: "\<forall>rb \<in> set rbs. 0 \<le> snd rb \<and> snd rb < int (length flat)" by simp
  obtain out where out: "rfold (take_role flat) rbs [] = Inr out" "dict_ok out"
      "\<forall>u r. dict_get out u = Some r \<longleftrightarrow> (\<exists>b. (r, b) \<in> set rbs \<and> flat ! nat b = u)"
    using take_roles [OF assms(4) d r, of "[]"] by auto
  have eqv: "(\<exists>b. (r, b) \<in> set rbs \<and> flat ! nat b = u) \<longleftrightarrow> (\<exists>s \<in> set (role_slots q r). flat ! nat (slot_bundle t s) = u)"
    for u r by (auto simp: rbs_def ROLE_NAMES_def role_slots_def)
  have "role_uuid_map (Some bm) flat None = Inr out"
    using out(1) by (simp add: role_uuid_map_def trainer_layout_bundles(2) [OF assms(3)] rbs_def)
  then show ?thesis using out(2) out(3) [unfolded eqv] by (intro exI [of _ out] conjI)
qed

definition ex_placement :: "pyval placement" where
  "ex_placement = \<lparr> trainer = [PStr ''n0:0'', PStr ''n0:1''], rollout = [[PStr ''n1:1'']], standby = [PStr ''n1:0''] \<rparr>"

theorem placement_roles_exclusive_witness:
  "\<exists>t q bm roles. Topology (PInt 2) (PInt 2) = Inr t \<and> normalize_placement ex_placement t None = Inr q \<and>
     trainer_layout q t = Inr (1, 2, bm) \<and> role_uuid_map (Some bm) [''a'', ''b'', ''c'', ''d''] None = Inr roles \<and>
     dict_get roles ''d'' = Some ''rollout''"
proof -
  define t where "t = \<lparr> nodes = 2, gpus_per_node = 2 \<rparr>"
  define q :: "slot placement" where
    "q = \<lparr> trainer = [(0, 0), (0, 1)], rollout = [[(1, 1)]], standby = [(1, 0)] \<rparr>"
  have t: "Topology (PInt 2) (PInt 2) = Inr t" by (simp add: Topology_def positive_int_def t_def)
  have digits: "slot_re ''n0:0'' = Some (0, 0)" "slot_re ''n0:1'' = Some (0, 1)" "slot_re ''n1:1'' = Some (1, 1)"
      "slot_re ''n1:0'' = Some (1, 0)"
    by (simp_all add: slot_re_def read_nat_def digit_val_def)
  have q: "normalize_placement ex_placement t None = Inr q"
    by (simp add: normalize_placement_def ex_placement_def resolve_slot_def spelling_def digits bundle_of_def
        t_def q_def placement_overlap_def)
  have l: "trainer_layout q t = Inr (1, 2, [(''trainer'', [0, 1]), (''rollout'', [3]), (''standby'', [2])])"
    by (simp add: trainer_layout_def rectangular_trainer_def node_counts_def q_def t_def py_slices.simps
        check_run_def bundles_def bundle_of_def numeral_2_eq_2)
  have "\<exists>s \<in> set (role_slots q ''rollout''). [''a'', ''b'', ''c'', ''d''] ! nat (slot_bundle t s) = ''d''"
    by (simp add: role_slots_def q_def slot_bundle_def t_def)
  then show ?thesis
    using placement_roles_exclusive [OF t q l, of "[''a'', ''b'', ''c'', ''d'']"] t q l
    by (force simp: total_gpus_def t_def)
qed

text \<open>The state of the loop of \<open>chunk_by_node\<close> after the bundles \<open>xs\<close>.\<close>

definition chunked :: "topology \<Rightarrow> nat \<Rightarrow> int list \<Rightarrow> chunk_state \<Rightarrow> bool" where
  "chunked t per xs s \<longleftrightarrow>
     mset (concat (runs s)) + mset (rest s) + mset (block s) = mset xs \<and>
     (\<forall>r \<in> set (runs s). length r = per \<and> (\<exists>n. \<forall>b \<in> set r. node_of t b = Inr n)) \<and>
     length (block s) < per \<and> (\<forall>b \<in> set (block s). \<exists>n. current s = Some n \<and> node_of t b = Inr n)"

lemma chunk_step_chunked:
  assumes "chunked t per xs s" and "chunk_step t per b s = Inr s'"
  shows "chunked t per (xs @ [b]) s'"
proof -
  obtain n where n: "node_of t b = Inr n" using assms(2) by (auto simp: chunk_step_def rbind_Inr_iff)
  define s1 where "s1 = (if Some n \<noteq> current s \<and> block s \<noteq> [] then s\<lparr> rest := rest s @ block s, block := [] \<rparr> else s)"
  have s': "s' = (if length (block s1 @ [b]) = per
      then s1\<lparr> current := Some n, runs := runs s1 @ [block s1 @ [b]], block := [] \<rparr>
      else s1\<lparr> current := Some n, block := block s1 @ [b] \<rparr>)"
    using assms(2) [symmetric] n unfolding chunk_step_def s1_def Let_def by (simp only: rbind_simps sum.inject)
  have one: "mset (concat (runs s1)) + mset (rest s1) + mset (block s1) = mset xs" "runs s1 = runs s"
      "length (block s1) < per" "\<forall>c \<in> set (block s1). node_of t c = Inr n"
    using assms(1) by (auto simp: chunked_def s1_def ac_simps)
  show ?thesis
    using one(1,3,4) assms(1) n unfolding s' by (auto simp: chunked_def one(2) ac_simps)
qed

lemma chunk_loop_chunked:
  assumes "rfold (chunk_step t per) bs s = Inr s'" and "chunked t per xs s"
  shows "chunked t per (xs @ bs) s'"
  using assms
proof (induction bs arbitrary: s xs)
  case (Cons b bs)
  then obtain s1 where "chunk_step t per b s = Inr s1" "rfold (chunk_step t per) bs s1 = Inr s'"
    by (auto simp: rbind_Inr_iff)
  then show ?case using Cons.IH [of s1 "xs @ [b]"] chunk_step_chunked [OF Cons.prems(2)] by simp
qed simp

text \<open>
  C38. Without the cross-node flag the engine runs of a role have the engine's size and stay on
  one node each, and the runs and the leftover together are the role's bundles, none lost and
  none used twice; the split fails only for a bundle outside the topology.
\<close>

theorem chunk_runs_partition:
  assumes "0 < per"
  shows "((\<forall>b \<in> set bs. 0 \<le> b \<and> b < total_gpus t) \<longleftrightarrow> (\<exists>out. chunk_by_node bs (Some t) per False = Inr out)) \<and>
    (\<forall>rs left. chunk_by_node bs (Some t) per False = Inr (rs, left) \<longrightarrow>
      mset (concat rs @ left) = mset bs \<and>
      (\<forall>r \<in> set rs. length r = per \<and> (\<exists>n. \<forall>b \<in> set r. node_of t b = Inr n)))"
proof (intro conjI allI impI)
  have "(\<forall>b \<in> set bs. 0 \<le> b \<and> b < total_gpus t) \<longleftrightarrow> (\<exists>s'. rfold (chunk_step t per) bs s = Inr s')" for s
    by (induction bs arbitrary: s) (auto simp: chunk_step_def node_of_def rbind_Inr_iff Let_def)
  then show "(\<forall>b \<in> set bs. 0 \<le> b \<and> b < total_gpus t) \<longleftrightarrow> (\<exists>out. chunk_by_node bs (Some t) per False = Inr out)"
    by (auto simp: chunk_by_node_def rbind_Inr_iff Let_def)
next
  fix rs left assume "chunk_by_node bs (Some t) per False = Inr (rs, left)"
  then obtain s where s: "rfold (chunk_step t per) bs \<lparr> runs = [], rest = [], block = [], current = None \<rparr> = Inr s"
      "rs = runs s" "left = rest s @ block s"
    by (auto simp: chunk_by_node_def rbind_Inr_iff Let_def)
  have "chunked t per [] \<lparr> runs = [], rest = [], block = [], current = None \<rparr>"
    using assms by (simp add: chunked_def)
  then have "chunked t per bs s" using chunk_loop_chunked [OF s(1)] by fastforce
  then show "mset (concat rs @ left) = mset bs"
      "\<forall>r \<in> set rs. length r = per \<and> (\<exists>n. \<forall>b \<in> set r. node_of t b = Inr n)"
    using s(2,3) by (simp_all add: chunked_def ac_simps)
qed

theorem chunk_runs_partition_witness:
  "\<exists>out. chunk_by_node [0, 1, 3, 2] (Some \<lparr> nodes = 2, gpus_per_node = 2 \<rparr>) 2 False = Inr out \<and>
     mset (concat (fst out) @ snd out) = mset [0, 1, 3, 2]"
proof -
  note c = chunk_runs_partition [of 2 "[0, 1, 3, 2]" "\<lparr> nodes = 2, gpus_per_node = 2 \<rparr>"]
  obtain out where "chunk_by_node [0, 1, 3, 2] (Some \<lparr> nodes = 2, gpus_per_node = 2 \<rparr>) 2 False = Inr out"
    using c by (auto simp: total_gpus_def)
  then show ?thesis using c by (cases out) auto
qed

end
