(* ===== verification/Buffer_Index.thy ===== *)
theory Buffer_Index
  imports Complex_Main Py_Base
begin

text \<open>
  The index of the durable sample buffer (\<open>yeto/rl/engine/sample_buffer.py\<close>, the classes
  \<open>JsonlIndex\<close> and \<open>ObjectIndex\<close>) and the store it lives in: a shared directory with one line
  file per index, or an object store with one object per record.

  The JSON codec is an argument (\<open>loads\<close> is \<open>None\<close> where \<open>json.loads\<close> raises); floats are
  rationals.  An operation that may raise after it changed something returns the changed state
  together with \<open>Inl\<close> of the error.  \<open>flock\<close> and the store's guards make an append of the line
  file one step; the other writers of an object index act between its reads and its create
  (\<open>others\<close>).  What an index promises its readers is the locale \<open>record_log\<close> in
  theory \<open>Buffer_Log\<close>.
\<close>

section \<open>Records and errors\<close>

datatype buffer_error =
    BadLine nat
  | BadRecord string
  | NoIndexFile
  | ShardShort string nat nat
  | LostRaces
  | OutOfOrder
  | AfterDataEnd
  | ShardAfterEnd
  | MissingField
  | PayloadExists string
  | PayloadMissing string
  | NotPublisherLane
  | BadBatchSize
  | NotAShardIndex string
  | EmptyShardName
  | ShardWriterMerges
  | ExpectedNeedsMerge
  | CursorOutside int nat
  | WatermarkOutside int nat
  | OtherConsumer string
  | ConsumedOutside int
  | MergeAfterEnd
  | BadLane int int
  | LaneFormat string
  | LearnerOutside int
  | HeadOnly

record sample_entry =
  sample_id :: string
  behavior_version :: int
  payload_ref :: string
  tokens :: int
  appended_at :: rat
  provenance :: "(string, string) dict option"
  sampler_round :: "(string, pyval) dict option"

text \<open>A JSON record of an index; the last record has \<open>end\<close> and no sample.\<close>

record idx_record =
  r_schema :: "string option"
  r_pos :: "int option"
  r_end :: bool
  r_entry :: "sample_entry option"
  r_shard :: "string option"
  r_shard_pos :: "int option"

abbreviation SCHEMA :: string where "SCHEMA \<equiv> ''yeto.rl.sample-buffer/v1''"
abbreviation BUFFER_DIR :: string where "BUFFER_DIR \<equiv> ''sample-buffer''"
abbreviation INDEX :: string where "INDEX \<equiv> ''index.jsonl''"
abbreviation nl :: byte where "nl \<equiv> 10"

definition make_entry :: "idx_record \<Rightarrow> buffer_error + sample_entry" where
  "make_entry r = (case r_entry r of None \<Rightarrow> Inl MissingField | Some e \<Rightarrow> Inr e)"

section \<open>The store\<close>

text \<open>
  \<open>dir_files\<close> are the files under \<open>sample-buffer/\<close> of a directory store, \<open>objects\<close> the objects
  of an object store in key order (\<open>None\<close>: the store has no object API).
\<close>

record bstore =
  dir_files :: "(string, bytes) dict"
  objects :: "(string, bytes) dict option"
  buffer_shards :: bool
  commits :: nat

record benv =
  loads :: "bytes \<Rightarrow> idx_record option"
  dumps :: "idx_record \<Rightarrow> bytes"
  others :: "nat \<Rightarrow> bstore \<Rightarrow> bstore"

definition objs :: "bstore \<Rightarrow> (string, bytes) dict" where
  "objs w = (case objects w of None \<Rightarrow> [] | Some d \<Rightarrow> d)"

definition prefixed :: "string \<Rightarrow> string \<Rightarrow> bool" where
  "prefixed p s \<longleftrightarrow> take (length p) s = p"

text \<open>\<open>ObjectStore.list\<close>: the keys under a prefix in byte order, after \<open>start_after\<close>.\<close>

definition obj_list :: "bstore \<Rightarrow> string \<Rightarrow> string \<Rightarrow> string list" where
  "obj_list w p start_after = sort (filter (\<lambda>k. prefixed p k \<and> start_after < k) (map fst (objs w)))"

definition obj_write :: "string \<Rightarrow> bytes \<Rightarrow> bstore \<Rightarrow> bstore" where
  "obj_write k data w = w\<lparr> objects := Some (dict_set k data (objs w)) \<rparr>"

section \<open>The line file\<close>

record jsonl_index =
  path :: string
  offset :: nat
  held :: nat
  uncommitted :: bool

text \<open>The loop of \<open>_lines\<close> over the parts between newlines; the last part is a torn line.\<close>

fun lines_from :: "benv \<Rightarrow> nat \<Rightarrow> bytes list \<Rightarrow> idx_record list \<Rightarrow> nat \<times> (buffer_error + idx_record list)" where
  "lines_from E off (raw # part # parts) acc =
     (case loads E raw of
        None \<Rightarrow> (off, Inl (BadLine off))
      | Some r \<Rightarrow> lines_from E (off + length raw + 1) (part # parts) (acc @ [r]))"
| "lines_from E off _ acc = (off, Inr acc)"

definition read_lines :: "benv \<Rightarrow> nat \<Rightarrow> bytes \<Rightarrow> nat \<times> (buffer_error + idx_record list)" where
  "read_lines E off data = lines_from E off (split_on nl (drop off data)) []"

definition jsonl_open :: "bstore \<Rightarrow> string \<Rightarrow> bool \<Rightarrow> bstore \<times> jsonl_index" where
  "jsonl_open w p create_index =
     ((if create_index \<and> dict_get (dir_files w) p = None then w\<lparr> dir_files := dict_set p [] (dir_files w) \<rparr> else w),
      \<lparr> path = p, offset = 0, held = 0, uncommitted = False \<rparr>)"

definition jsonl_read_new :: "benv \<Rightarrow> bstore \<Rightarrow> jsonl_index \<Rightarrow> jsonl_index \<times> (buffer_error + idx_record list)" where
  "jsonl_read_new E w j =
     (case dict_get (dir_files w) (path j) of
        None \<Rightarrow> (j, Inr [])
      | Some data \<Rightarrow> (case read_lines E (offset j) data of (off, r) \<Rightarrow> (j\<lparr> offset := off \<rparr>, r)))"

definition encode_records :: "benv \<Rightarrow> idx_record list \<Rightarrow> bytes" where
  "encode_records E rs = concat (map (\<lambda>r. dumps E r @ [nl]) rs)"

text \<open>
  \<open>append_many\<close> with the two callbacks of the buffer: \<open>absorb\<close> takes records in, \<open>produce\<close> (the source: \<open>make\<close>) gives
  the records to write.
\<close>

definition jsonl_append_many ::
  "benv \<Rightarrow> (idx_record list \<Rightarrow> 'b \<Rightarrow> 'b \<times> (buffer_error + unit)) \<Rightarrow> ('b \<Rightarrow> buffer_error + idx_record list) \<Rightarrow>
   bstore \<Rightarrow> jsonl_index \<Rightarrow> 'b \<Rightarrow> (bstore \<times> jsonl_index \<times> 'b) \<times> (buffer_error + unit)" where
  "jsonl_append_many E absorb produce w j b =
     (case dict_get (dir_files w) (path j) of
        None \<Rightarrow> ((w, j, b), Inl NoIndexFile)
      | Some data \<Rightarrow>
        (case read_lines E (offset j) data of
           (off, Inl e) \<Rightarrow> ((w, j\<lparr> offset := off \<rparr>, b), Inl e)
         | (off, Inr before) \<Rightarrow>
           let j1 = j\<lparr> offset := off \<rparr> in
           (case absorb before b of
              (b1, Inl e) \<Rightarrow> ((w, j1, b1), Inl e)
            | (b1, Inr _) \<Rightarrow>
              (case produce b1 of
                 Inl e \<Rightarrow> ((w, j1, b1), Inl e)
               | Inr new \<Rightarrow>
                 let data' = take off data @ encode_records E new;
                     w1 = w\<lparr> dir_files := dict_set (path j) data' (dir_files w) \<rparr>
                 in case read_lines E off data' of
                      (off', Inl e) \<Rightarrow> ((w1, j1\<lparr> offset := off' \<rparr>, b1), Inl e)
                    | (off', Inr after) \<Rightarrow>
                      let j2 = j1\<lparr> offset := off' \<rparr> in
                      (case absorb after b1 of
                         (b2, Inl e) \<Rightarrow> ((w1, j2, b2), Inl e)
                       | (b2, Inr _) \<Rightarrow>
                           if held j2 \<noteq> 0 then ((w1, j2\<lparr> uncommitted := True \<rparr>, b2), Inr ())
                           else ((w1\<lparr> commits := commits w1 + 1 \<rparr>, j2, b2), Inr ()))))))"

text \<open>The two ends of a \<open>one_commit\<close> block.\<close>

definition hold_commit :: "jsonl_index \<Rightarrow> jsonl_index" where
  "hold_commit j = j\<lparr> held := held j + 1 \<rparr>"

definition release_commit :: "bstore \<Rightarrow> jsonl_index \<Rightarrow> bstore \<times> jsonl_index" where
  "release_commit w j =
     (let j1 = j\<lparr> held := held j - 1 \<rparr> in
      if held j1 = 0 \<and> uncommitted j1
      then (w\<lparr> commits := commits w + 1 \<rparr>, j1\<lparr> uncommitted := False \<rparr>) else (w, j1))"

section \<open>The object index\<close>

fun pad_nat :: "nat \<Rightarrow> nat \<Rightarrow> string" where
  "pad_nat 0 n = []"
| "pad_nat (Suc d) n = pad_nat d (n div 10) @ [digit_char (n mod 10)]"

record object_index =
  prefix :: string
  next_pos :: nat
  last_key :: string

text \<open>\<open>f"{pos:012d}"\<close> of a position below \<open>10 ^ 12\<close>.\<close>

definition obj_key :: "string \<Rightarrow> nat \<Rightarrow> string" where
  "obj_key p pos = p @ pad_nat 12 pos @ ''.json''"

definition object_open :: "string \<Rightarrow> nat \<Rightarrow> object_index" where
  "object_open p start =
     \<lparr> prefix = p, next_pos = start, last_key = (if start \<noteq> 0 then obj_key p (start - 1) else []) \<rparr>"

fun object_read ::
  "benv \<Rightarrow> bstore \<Rightarrow> string list \<Rightarrow> object_index \<Rightarrow> idx_record list \<Rightarrow> object_index \<times> (buffer_error + idx_record list)" where
  "object_read E w [] o' acc = (o', Inr acc)"
| "object_read E w (k # ks) o' acc =
     (if k \<noteq> obj_key (prefix o') (next_pos o') then (o', Inr acc)
      else case dict_get (objs w) k of
          None \<Rightarrow> (o', Inr acc)
        | Some raw \<Rightarrow>
            (case loads E raw of
               None \<Rightarrow> (o', Inl (BadRecord k))
             | Some r \<Rightarrow> object_read E w ks (o'\<lparr> last_key := k, next_pos := next_pos o' + 1 \<rparr>) (acc @ [r])))"

definition object_read_new :: "benv \<Rightarrow> bstore \<Rightarrow> object_index \<Rightarrow> object_index \<times> (buffer_error + idx_record list)" where
  "object_read_new E w o' = object_read E w (obj_list w (prefix o') (last_key o')) o' []"

text \<open>
  The append of one record: at most \<open>_MAX_CREATE_RACES\<close> tries, each of which may lose the next
  position to another writer.
\<close>

fun object_append ::
  "nat \<Rightarrow> benv \<Rightarrow> (idx_record list \<Rightarrow> 'b \<Rightarrow> 'b \<times> (buffer_error + unit)) \<Rightarrow> ('b \<Rightarrow> buffer_error + idx_record) \<Rightarrow>
   bstore \<Rightarrow> object_index \<Rightarrow> 'b \<Rightarrow> (bstore \<times> object_index \<times> 'b) \<times> (buffer_error + unit)" where
  "object_append 0 E absorb produce w o' b = ((w, o', b), Inl LostRaces)"
| "object_append (Suc tries) E absorb produce w o' b =
     (case object_read_new E w o' of
        (o1, Inl e) \<Rightarrow> ((w, o1, b), Inl e)
      | (o1, Inr before) \<Rightarrow>
        (case absorb before b of
           (b1, Inl e) \<Rightarrow> ((w, o1, b1), Inl e)
         | (b1, Inr _) \<Rightarrow>
           (case produce b1 of
              Inl e \<Rightarrow> ((w, o1, b1), Inl e)
            | Inr r \<Rightarrow>
              let w1 = others E tries w;
                  k = obj_key (prefix o1) (case r_pos r of None \<Rightarrow> 0 | Some p \<Rightarrow> nat p)
              in if dict_get (objs w1) k \<noteq> None then object_append tries E absorb produce w1 o1 b1
                 else let w2 = obj_write k (dumps E r @ [nl]) w1 in
                   (case object_read_new E w2 o1 of
                      (o2, Inl e) \<Rightarrow> ((w2, o2, b1), Inl e)
                    | (o2, Inr after) \<Rightarrow> (case absorb after b1 of (b2, res) \<Rightarrow> ((w2, o2, b2), res))))))"

section \<open>Either layout\<close>

datatype index = Jsonl jsonl_index | Objects object_index

definition ix_read_new :: "benv \<Rightarrow> bstore \<Rightarrow> index \<Rightarrow> index \<times> (buffer_error + idx_record list)" where
  "ix_read_new E w ix = (case ix of
     Jsonl j \<Rightarrow> (case jsonl_read_new E w j of (j', r) \<Rightarrow> (Jsonl j', r))
   | Objects o' \<Rightarrow> (case object_read_new E w o' of (o1, r) \<Rightarrow> (Objects o1, r)))"

text \<open>\<open>has_payload\<close>, \<open>write_payload\<close>: a file of the directory or an object.\<close>

definition ix_has_payload :: "bstore \<Rightarrow> index \<Rightarrow> string \<Rightarrow> bool" where
  "ix_has_payload w ix ref = (case ix of
     Jsonl _ \<Rightarrow> dict_get (dir_files w) ref \<noteq> None
   | Objects _ \<Rightarrow> dict_get (objs w) (BUFFER_DIR @ ''/'' @ ref) \<noteq> None)"

definition ix_write_payload :: "bstore \<Rightarrow> index \<Rightarrow> string \<Rightarrow> bytes \<Rightarrow> bstore \<times> string" where
  "ix_write_payload w ix name data =
     (let ref = ''payloads/'' @ name in
      case ix of
        Jsonl _ \<Rightarrow> (w\<lparr> dir_files := dict_set ref data (dir_files w) \<rparr>, ref)
      | Objects _ \<Rightarrow> (obj_write (BUFFER_DIR @ ''/'' @ ref) data w, ref))"

definition safe_name :: "string \<Rightarrow> string" where
  "safe_name s = map (\<lambda>c. if c \<in> set ''ABCDEFGHIJKLMNOPQRSTUVWXYZabcdefghijklmnopqrstuvwxyz0123456789._-''
     then c else CHR ''_'') s"

definition shard_name :: "string \<Rightarrow> buffer_error + string" where
  "shard_name s = (let n = safe_name s in if n = [] then Inl EmptyShardName else Inr n)"

definition shard_index :: "string \<Rightarrow> buffer_error + string" where
  "shard_index s = rbind (shard_name s) (\<lambda>n. Inr (''shards/'' @ n @ ''.jsonl''))"

definition shard_prefix :: "string \<Rightarrow> buffer_error + string" where
  "shard_prefix s = rbind (shard_name s) (\<lambda>n. Inr (BUFFER_DIR @ ''/shards/'' @ n @ ''/''))"

definition ends_with :: "string \<Rightarrow> string \<Rightarrow> bool" where
  "ends_with suf s \<longleftrightarrow> length suf \<le> length s \<and> drop (length s - length suf) s = suf"

definition strip_end :: "string \<Rightarrow> string \<Rightarrow> string" where
  "strip_end suf s = take (length s - length suf) s"

definition shard_of_index :: "string \<Rightarrow> buffer_error + string" where
  "shard_of_index ix = (case py_partition (CHR ''/'') ix of
     (head, _, name) \<Rightarrow>
       if head \<noteq> ''shards'' \<or> \<not> ends_with ''.jsonl'' name \<or> CHR ''/'' \<in> set name then Inl (NotAShardIndex ix)
       else Inr (strip_end ''.jsonl'' name))"

text \<open>The shards of the store, sorted: the files of \<open>shards/\<close> or the names under \<open>shard-names/\<close>.\<close>

definition ix_shard_names :: "bstore \<Rightarrow> index \<Rightarrow> string list" where
  "ix_shard_names w ix = (case ix of
     Jsonl _ \<Rightarrow> sort (map (\<lambda>p. strip_end ''.jsonl'' (drop (length ''shards/'') p))
       (filter (\<lambda>p. prefixed ''shards/'' p \<and> ends_with ''.jsonl'' p \<and> CHR ''/'' \<notin> set (drop (length ''shards/'') p))
         (map fst (dir_files w))))
   | Objects _ \<Rightarrow> sort (map (drop (length (BUFFER_DIR @ ''/shard-names/''))) (obj_list w (BUFFER_DIR @ ''/shard-names/'') [])))"

text \<open>The reader of one shard that skips its first \<open>start\<close> records.\<close>

definition skip_lines :: "benv \<Rightarrow> bytes \<Rightarrow> nat \<Rightarrow> (buffer_error + nat) \<times> nat" where
  "skip_lines E data start = foldl (\<lambda>(res, off) raw.
      case res of
        Inl e \<Rightarrow> (res, off)
      | Inr n \<Rightarrow> if n = start then (res, off)
          else (case loads E raw of None \<Rightarrow> (Inl (BadLine off), off) | Some _ \<Rightarrow> (Inr (n + 1), off + length raw + 1)))
     (Inr 0, 0) (butlast (split_on nl data))"

definition ix_shard_reader :: "benv \<Rightarrow> bstore \<Rightarrow> index \<Rightarrow> string \<Rightarrow> nat \<Rightarrow> buffer_error + index" where
  "ix_shard_reader E w ix shard start = (case ix of
     Objects _ \<Rightarrow> rbind (shard_prefix shard) (\<lambda>p. Inr (Objects (object_open p start)))
   | Jsonl _ \<Rightarrow>
       rbind (shard_index shard) (\<lambda>p.
         let j = snd (jsonl_open w p False) in
         if start = 0 then Inr (Jsonl j)
         else (case dict_get (dir_files w) p of
             None \<Rightarrow> Inl (ShardShort shard 0 start)
           | Some data \<Rightarrow>
               (case skip_lines E data start of
                  (Inl e, _) \<Rightarrow> Inl e
                | (Inr n, off) \<Rightarrow> if n < start then Inl (ShardShort shard n start) else Inr (Jsonl (j\<lparr> offset := off \<rparr>))))))"

definition needs_shards :: "bstore \<Rightarrow> bool" where
  "needs_shards w \<longleftrightarrow> objects w \<noteq> None \<and> buffer_shards w"

definition index_for :: "bstore \<Rightarrow> string \<Rightarrow> bool \<Rightarrow> buffer_error + bstore \<times> index" where
  "index_for w ix create_index =
     (if objects w = None then (case jsonl_open w ix create_index of (w1, j) \<Rightarrow> Inr (w1, Jsonl j))
      else if ix = INDEX then Inr (w, Objects (object_open (BUFFER_DIR @ ''/index/'') 0))
      else rbind (shard_of_index ix) (\<lambda>shard.
        let name_key = BUFFER_DIR @ ''/shard-names/'' @ shard;
            w1 = (if create_index \<and> dict_get (objs w) name_key = None then obj_write name_key [] w else w)
        in rbind (shard_prefix shard) (\<lambda>p. Inr (w1, Objects (object_open p 0)))))"

section \<open>The merge of the shards\<close>

text \<open>
  \<open>heapq.merge\<close>: the next record is the least head, the earliest list first among equal keys.
  \<open>pick_min\<close> splits the lists at that head.
\<close>

fun pick_min :: "('a \<Rightarrow> 'k::linorder) \<Rightarrow> 'a list list \<Rightarrow> ('a \<times> 'a list list) option" where
  "pick_min f [] = None"
| "pick_min f ([] # ls) = map_option (\<lambda>(x, ls'). (x, [] # ls')) (pick_min f ls)"
| "pick_min f ((y # ys) # ls) =
     (case pick_min f ls of
        None \<Rightarrow> Some (y, ys # ls)
      | Some (x, ls') \<Rightarrow> if f x < f y then Some (x, (y # ys) # ls') else Some (y, ys # ls))"

lemma pick_min_shorter: "pick_min f ls = Some (x, ls') \<Longrightarrow> Suc (length (concat ls')) = length (concat ls)"
  by (induction f ls arbitrary: x ls' rule: pick_min.induct) (auto split: option.splits if_splits)

function heap_merge :: "('a \<Rightarrow> 'k::linorder) \<Rightarrow> 'a list list \<Rightarrow> 'a list" where
  "heap_merge f ls = (case pick_min f ls of None \<Rightarrow> [] | Some (x, ls') \<Rightarrow> x # heap_merge f ls')"
  by pat_completeness auto
termination
  by (relation "measure (\<lambda>(f, ls). length (concat ls))") (auto dest: pick_min_shorter)

declare heap_merge.simps [simp del]

end
