(* ===== verification/Buffer_Lanes.thy ===== *)
theory Buffer_Lanes
  imports Buffer_Index
begin

text \<open>
  The rules of synced trainers that share one sample buffer
  (\<open>yeto/rl/engine/merged_release.py\<close>): the lanes, the publisher, the release versions and the
  versions a relaunched trainer continues, and the durable lane cursors in both store layouts.

  A lane cursor file holds ASCII text (\<open>json.dumps\<close> escapes every other character), so
  its bytes are its characters.  \<open>cursor_of\<close> is \<open>int(json.loads(line)["cursor"])\<close>, \<open>None\<close> where
  that raises, and \<open>dump_cursor\<close> the JSON text of a record; both are arguments.
\<close>

section \<open>Lanes\<close>

record buffer_lane =
  lane_index :: int
  lane_count :: int

definition BufferLane :: "int \<Rightarrow> int \<Rightarrow> buffer_error + buffer_lane" where
  "BufferLane i n = (if \<not> (0 \<le> i \<and> i < n) then Inl (BadLane i n) else Inr \<lparr> lane_index = i, lane_count = n \<rparr>)"

definition lane_owns :: "buffer_lane \<Rightarrow> int \<Rightarrow> bool" where
  "lane_owns l position \<longleftrightarrow> position mod lane_count l = lane_index l"

definition lane_env :: "buffer_lane \<Rightarrow> string" where
  "lane_env l = show_int (lane_index l) @ ''/'' @ show_int (lane_count l)"

definition parse_lane :: "string option \<Rightarrow> buffer_error + buffer_lane option" where
  "parse_lane txt = (case txt of None \<Rightarrow> Inr None | Some s \<Rightarrow>
     if s = [] then Inr None
     else (case py_partition (CHR ''/'') s of (i, sep, n) \<Rightarrow>
       if \<not> sep then Inl (LaneFormat s)
       else (case (read_nat (py_strip i), read_nat (py_strip n)) of
          (Some iv, Some nv) \<Rightarrow> rbind (BufferLane (int iv) (int nv)) (\<lambda>l. Inr (Some l))
        | _ \<Rightarrow> Inl (LaneFormat s))))"

definition lane_name :: "buffer_lane \<Rightarrow> string" where
  "lane_name l = show_int (lane_index l) @ ''-of-'' @ show_int (lane_count l)"

definition lane_is_own :: "buffer_lane \<Rightarrow> bool" where
  "lane_is_own l \<longleftrightarrow> lane_count l = 1"

abbreviation (input) PUBLISHER_LEARNER_ID :: int where "PUBLISHER_LEARNER_ID \<equiv> 0"

definition merges_shards :: "buffer_lane option \<Rightarrow> bool" where
  "merges_shards l \<longleftrightarrow> (case l of None \<Rightarrow> True | Some v \<Rightarrow> lane_index v = PUBLISHER_LEARNER_ID)"

definition is_publisher :: "int \<Rightarrow> int \<Rightarrow> buffer_error + bool" where
  "is_publisher learner num =
     (if \<not> (0 \<le> learner \<and> learner < num) then Inl (LearnerOutside learner) else Inr (learner = PUBLISHER_LEARNER_ID))"

section \<open>Release versions\<close>

text \<open>\<open>outer\<close> is \<open>driver.outer_version\<close>, absent or \<open>None\<close> when no sync session set one.\<close>

definition merged_version :: "int option \<Rightarrow> int \<Rightarrow> int" where
  "merged_version outer policy_version = (case outer of None \<Rightarrow> policy_version | Some v \<Rightarrow> v)"

definition release_version :: "int option \<Rightarrow> int \<Rightarrow> buffer_lane \<Rightarrow> int" where
  "release_version outer policy_version l =
     (if lane_is_own l then policy_version else merged_version outer policy_version)"

definition gate_version :: "int option \<Rightarrow> int option \<Rightarrow> int option" where
  "gate_version weight merged = (case merged of Some v \<Rightarrow> Some v | None \<Rightarrow> weight)"

datatype release_verdict = Release | Stale

text \<open>The verdict and the gap it reports.\<close>

definition guard_check :: "int \<Rightarrow> int option \<Rightarrow> release_verdict \<times> (int \<times> int) option" where
  "guard_check version latest = (case latest of
     None \<Rightarrow> (Release, None)
   | Some l \<Rightarrow>
       if version \<le> l then (Stale, None)
       else (Release, if version > l + 1 then Some (l, version) else None))"

record release_record =
  rel_seq :: int
  rel_version :: int
  policy_hash :: string
  derived_from :: "int option"

record resumed_releases =
  base_version :: int
  age_limit :: int
  releases :: "(int \<times> string) list"

definition known_versions :: "resumed_releases \<Rightarrow> int list" where
  "known_versions r = map fst (releases r)"

definition resumed_window :: "resumed_releases \<Rightarrow> (int, string) dict" where
  "resumed_window r = (let oldest = base_version r - age_limit r in
     foldl (\<lambda>d (v, h). if oldest \<le> v \<and> v < base_version r then dict_set v h d else d) [] (releases r))"

definition resume_releases :: "release_record list \<Rightarrow> int \<Rightarrow> resumed_releases option" where
  "resume_releases records age =
     (let found = foldl (\<lambda>d r. if derived_from r = None \<and> policy_hash r \<noteq> [] then dict_set (rel_version r) (policy_hash r) d else d)
            [] (sort_key rel_seq records)
      in if found = [] then None
         else Some \<lparr> base_version = Max (set (map fst found)), age_limit = age, releases = items_sorted found \<rparr>)"

section \<open>Lane cursors\<close>

record cursor_record =
  rollout_id :: int
  sel_positions :: "int list"
  at_cursor :: int

record cursor_codec =
  cursor_of :: "bytes \<Rightarrow> int option"
  dump_cursor :: "cursor_record \<Rightarrow> bytes"

text \<open>
  \<open>splitlines()\<close> with the given line ends; a carriage return and a newline together are one.
  Text also ends a line at a vertical tab, a form feed and the separators 28, 29 and 30.
\<close>

abbreviation carriage :: byte where "carriage \<equiv> 13"

fun splitlines :: "byte list \<Rightarrow> bytes \<Rightarrow> bytes list" where
  "splitlines seps [] = []"
| "splitlines seps (x # xs) =
     (if x = carriage \<and> carriage \<in> set seps \<and> xs \<noteq> [] \<and> hd xs = nl then [] # splitlines seps (tl xs)
      else if x \<in> set seps then [] # splitlines seps xs
      else (case splitlines seps xs of
          [] \<Rightarrow> [[x]]
        | l # ls \<Rightarrow> (x # l) # ls))"

abbreviation text_ends :: "byte list" where "text_ends \<equiv> [10, 11, 12, 13, 28, 29, 30]"
abbreviation byte_ends :: "byte list" where "byte_ends \<equiv> [10, 13]"

definition last_cursor_of :: "cursor_codec \<Rightarrow> bytes list \<Rightarrow> int" where
  "last_cursor_of C lines = foldl (\<lambda>c line. case cursor_of C line of None \<Rightarrow> c | Some v \<Rightarrow> v) 0 lines"

text \<open>\<open>LaneCursorLog\<close>: the cursor file of a shared directory.\<close>

definition cursor_path :: "string \<Rightarrow> string" where
  "cursor_path name = ''lanes/'' @ name @ ''.jsonl''"

definition file_last_cursor :: "cursor_codec \<Rightarrow> bstore \<Rightarrow> string \<Rightarrow> int" where
  "file_last_cursor C w name = (case dict_get (dir_files w) (cursor_path name) of
     None \<Rightarrow> 0 | Some data \<Rightarrow> last_cursor_of C (splitlines text_ends data))"

definition file_cursor_append :: "cursor_codec \<Rightarrow> cursor_record \<Rightarrow> string \<Rightarrow> bstore \<Rightarrow> bstore" where
  "file_cursor_append C r name w =
     (let old = (case dict_get (dir_files w) (cursor_path name) of None \<Rightarrow> [] | Some d \<Rightarrow> d)
      in w\<lparr> dir_files := dict_set (cursor_path name) (old @ dump_cursor C r @ [nl]) (dir_files w),
           commits := commits w + 1 \<rparr>)"

text \<open>\<open>ObjectLaneCursorLog\<close>: one object per round; the key list is read once and kept.\<close>

record object_cursor_log =
  oc_prefix :: string
  oc_keys :: "string list option"

definition open_cursor_log :: "string \<Rightarrow> object_cursor_log" where
  "open_cursor_log name = \<lparr> oc_prefix = BUFFER_DIR @ ''/lanes/'' @ name @ ''/'', oc_keys = None \<rparr>"

definition listed :: "bstore \<Rightarrow> object_cursor_log \<Rightarrow> object_cursor_log \<times> string list" where
  "listed w c = (case oc_keys c of
     Some ks \<Rightarrow> (c, ks)
   | None \<Rightarrow> let ks = sort (obj_list w (oc_prefix c) []) in (c\<lparr> oc_keys := Some ks \<rparr>, ks))"

fun newest_cursor :: "cursor_codec \<Rightarrow> bstore \<Rightarrow> string list \<Rightarrow> int" where
  "newest_cursor C w [] = 0"
| "newest_cursor C w (k # ks) =
     (case dict_get (objs w) k of
        None \<Rightarrow> newest_cursor C w ks
      | Some raw \<Rightarrow> (case cursor_of C raw of None \<Rightarrow> newest_cursor C w ks | Some v \<Rightarrow> v))"

definition object_last_cursor :: "cursor_codec \<Rightarrow> bstore \<Rightarrow> object_cursor_log \<Rightarrow> object_cursor_log \<times> int" where
  "object_last_cursor C w c = (case listed w c of (c1, ks) \<Rightarrow> (c1, newest_cursor C w (rev ks)))"

definition object_cursor_append ::
  "cursor_codec \<Rightarrow> cursor_record \<Rightarrow> bstore \<Rightarrow> object_cursor_log \<Rightarrow> bstore \<times> object_cursor_log" where
  "object_cursor_append C r w c =
     (case listed w c of (c1, ks) \<Rightarrow>
        let k = oc_prefix c1 @ pad_nat 10 (length ks) @ ''.json''
        in (obj_write k (dump_cursor C r) w, c1\<lparr> oc_keys := Some (ks @ [k]) \<rparr>))"

datatype cursor_log = FileCursor string | ObjectCursor object_cursor_log

definition lane_cursor_log :: "bstore \<Rightarrow> buffer_lane option \<Rightarrow> int option \<Rightarrow> cursor_log option" where
  "lane_cursor_log w lan learner =
     (case (case lan of Some l \<Rightarrow> Some (lane_name l) | None \<Rightarrow> map_option (\<lambda>i. ''solo'' @ show_int i) learner) of
        None \<Rightarrow> None
      | Some name \<Rightarrow> Some (if objects w \<noteq> None then ObjectCursor (open_cursor_log name) else FileCursor name))"

section \<open>The cursor after a crash\<close>

lemma splitlines_line:
  "set xs \<inter> set seps = {} \<Longrightarrow> nl \<in> set seps \<Longrightarrow> splitlines seps (xs @ nl # ys) = xs # splitlines seps ys"
proof (induction xs)
  case (Cons x xs)
  then show ?case by (cases "xs @ nl # ys") (auto split: list.splits)
qed simp

lemma splitlines_rest:
  "set xs \<inter> set seps = {} \<Longrightarrow> splitlines seps xs = (if xs = [] then [] else [xs])"
  by (induction xs) (auto split: list.splits if_splits)

lemma splitlines_lines:
  assumes "\<forall>l \<in> set (tail # lines). set l \<inter> set seps = {}" and "nl \<in> set seps"
  shows "splitlines seps (concat (map (\<lambda>l. l @ [nl]) lines) @ tail) = lines @ (if tail = [] then [] else [tail])"
  using assms by (induction lines) (simp_all add: splitlines_line splitlines_rest)

lemma last_cursor_of_snoc:
  "last_cursor_of C (ls @ [l]) = (case cursor_of C l of None \<Rightarrow> last_cursor_of C ls | Some v \<Rightarrow> v)"
  by (simp add: last_cursor_of_def split: option.split)

text \<open>
  C39. The lane cursor in a directory.  After an append to a file of whole lines the last cursor is
  that of the appended round.  A crash in a write leaves a torn line; the next append continues it,
  and when the two together are no record, the cursor of the appended round is not read back:
  the last cursor is the one from before the append.
\<close>

theorem lane_cursor_append:
  assumes stored: "dict_get (dir_files w) (cursor_path name) = Some (concat (map (\<lambda>l. l @ [nl]) lines) @ tail)"
    and plain: "\<forall>l \<in> set (tail # dump_cursor C r # lines). set l \<inter> set text_ends = {}"
    and codec: "cursor_of C (dump_cursor C r) = Some (at_cursor r)"
  shows "(tail = [] \<longrightarrow> file_last_cursor C (file_cursor_append C r name w) name = at_cursor r)
    \<and> (tail \<noteq> [] \<and> cursor_of C tail = None \<and> cursor_of C (tail @ dump_cursor C r) = None \<longrightarrow>
        file_last_cursor C (file_cursor_append C r name w) name = file_last_cursor C w name)"
proof -
  let ?dump = "tail @ dump_cursor C r"
  have after: "file_last_cursor C (file_cursor_append C r name w) name
      = last_cursor_of C (splitlines text_ends (concat (map (\<lambda>l. l @ [nl]) (lines @ [?dump])) @ []))"
    using stored by (simp add: file_last_cursor_def file_cursor_append_def)
  also have "splitlines text_ends (concat (map (\<lambda>l. l @ [nl]) (lines @ [?dump])) @ []) = lines @ [?dump]"
    using plain by (subst splitlines_lines) auto
  finally have now: "file_last_cursor C (file_cursor_append C r name w) name
      = (case cursor_of C ?dump of None \<Rightarrow> last_cursor_of C lines | Some v \<Rightarrow> v)"
    by (simp add: last_cursor_of_snoc)
  have "splitlines text_ends (concat (map (\<lambda>l. l @ [nl]) lines) @ tail) = lines @ (if tail = [] then [] else [tail])"
    using plain by (intro splitlines_lines) auto
  then have before: "file_last_cursor C w name = last_cursor_of C (lines @ (if tail = [] then [] else [tail]))"
    using stored by (simp add: file_last_cursor_def)
  show ?thesis using codec by (simp add: now before last_cursor_of_snoc)
qed

definition demo_codec :: cursor_codec where
  "demo_codec = \<lparr> cursor_of = (\<lambda>l. if length l = 3 \<and> l ! 0 = 123 \<and> l ! 2 = 125 then Some (uint (l ! 1)) else None),
     dump_cursor = (\<lambda>r. [123, word_of_int (at_cursor r), 125]) \<rparr>"

definition demo_cursors :: bstore where
  "demo_cursors = \<lparr> dir_files = [(cursor_path ''0-of-2'', [123, 40, 125, 10, 123, 44])], objects = None,
     buffer_shards = False, commits = 0 \<rparr>"

theorem lane_cursor_append_witness:
  "file_last_cursor demo_codec (file_cursor_append demo_codec \<lparr> rollout_id = 9, sel_positions = [44, 46], at_cursor = 48 \<rparr>
     ''0-of-2'' demo_cursors) ''0-of-2'' = file_last_cursor demo_codec demo_cursors ''0-of-2''"
proof -
  have "dict_get (dir_files demo_cursors) (cursor_path ''0-of-2'') = Some (concat (map (\<lambda>l. l @ [nl]) [[123, 40, 125]]) @ [123, 44])"
    by (simp add: demo_cursors_def)
  from lane_cursor_append [OF this, of demo_codec "\<lparr> rollout_id = 9, sel_positions = [44, 46], at_cursor = 48 \<rparr>"]
  show ?thesis by (simp add: demo_codec_def)
qed

end
