(* ===== verification/Sample_Buffer.thy ===== *)
theory Sample_Buffer
  imports Buffer_Lanes "HOL-Library.Product_Lexorder"
begin

text \<open>
  The durable sample buffer (\<open>yeto/rl/engine/sample_buffer.py\<close>): the class \<open>FileSampleBuffer\<close>
  with its merge of the shards, the head's views \<open>UnmergedShards\<close> and \<open>CommittedBacklog\<close>, and the
  merger of a head (\<open>merge_shards\<close>).

  A method that may raise after it changed the buffer returns the changed state with the error;
  the lock of the buffer makes a method one step.  The clock is an argument, the arrival
  callbacks are counted by \<open>poll\<close>.  The threads of \<open>start_polling\<close> are not modelled.
\<close>

section \<open>The buffer\<close>

record buffer =
  index :: index
  shard :: "string option"
  lane :: "buffer_lane option"
  merging :: bool
  expected_shards :: "string list option"
  shard_of :: "string option list"
  shard_readers :: "(string, index) dict"
  shards_ended :: "string list"
  batch_size :: int
  arrival_window_s :: rat
  entries :: "sample_entry list"
  ended :: bool
  consumer :: "string option"
  read :: int
  watermark :: int
  polled :: int

fun absorb :: "idx_record list \<Rightarrow> buffer \<Rightarrow> buffer \<times> (buffer_error + unit)" where
  "absorb [] b = (b, Inr ())"
| "absorb (r # rs) b =
     (if r_schema r \<noteq> Some SCHEMA then (b, Inl OutOfOrder)
      else (case r_pos r of
          None \<Rightarrow> (b, Inl MissingField)
        | Some p \<Rightarrow>
            if p \<noteq> int (length (entries b)) then (b, Inl OutOfOrder)
            else if r_end r then absorb rs (b\<lparr> ended := True \<rparr>)
            else let b1 = b\<lparr> shard_of := shard_of b @ [r_shard r] \<rparr> in
              (case make_entry r of
                 Inl e \<Rightarrow> (b1, Inl e)
               | Inr e \<Rightarrow> absorb rs (b1\<lparr> entries := entries b1 @ [e] \<rparr>))))"

section \<open>Writing\<close>

definition buf_write_payload :: "bstore \<Rightarrow> buffer \<Rightarrow> string \<Rightarrow> bytes \<Rightarrow> buffer_error + bstore \<times> string" where
  "buf_write_payload w b sid data =
     (let name = safe_name sid @ ''.bin'' in
      if ix_has_payload w (index b) (''payloads/'' @ name) then Inl (PayloadExists name)
      else Inr (ix_write_payload w (index b) name data))"

definition MAX_CREATE_RACES :: nat where
  "MAX_CREATE_RACES = 1000"

text \<open>\<open>_write_record\<close>: the record of the next position, refused after the data end.\<close>

definition write_record ::
  "benv \<Rightarrow> (int \<Rightarrow> idx_record) \<Rightarrow> bstore \<Rightarrow> buffer \<Rightarrow> (bstore \<times> buffer) \<times> (buffer_error + unit)" where
  "write_record E produce w b =
     (let rec = (\<lambda>b'. if ended b' then Inl AfterDataEnd else Inr (produce (int (length (entries b'))))) in
      case index b of
        Jsonl j \<Rightarrow> (case jsonl_append_many E absorb (\<lambda>b'. rbind (rec b') (\<lambda>r. Inr [r])) w j b of
            ((w1, j1, b1), res) \<Rightarrow> ((w1, b1\<lparr> index := Jsonl j1 \<rparr>), res))
      | Objects o' \<Rightarrow> (case object_append MAX_CREATE_RACES E absorb rec w o' b of
            ((w1, o1, b1), res) \<Rightarrow> ((w1, b1\<lparr> index := Objects o1 \<rparr>), res)))"

definition buf_append ::
  "benv \<Rightarrow> rat \<Rightarrow> sample_entry \<Rightarrow> bstore \<Rightarrow> buffer \<Rightarrow> (bstore \<times> buffer) \<times> (buffer_error + unit)" where
  "buf_append E now e w b =
     (if payload_ref e \<noteq> [] \<and> \<not> ix_has_payload w (index b) (payload_ref e)
      then ((w, b), Inl (PayloadMissing (payload_ref e)))
      else let e1 = (if appended_at e = 0 then e\<lparr> appended_at := now \<rparr> else e)
           in write_record E (\<lambda>pos. \<lparr> r_schema = Some SCHEMA, r_pos = Some pos, r_end = False, r_entry = Some e1,
                r_shard = None, r_shard_pos = None \<rparr>) w b)"

definition mark_data_end :: "benv \<Rightarrow> bstore \<Rightarrow> buffer \<Rightarrow> (bstore \<times> buffer) \<times> (buffer_error + unit)" where
  "mark_data_end E w b =
     write_record E (\<lambda>pos. \<lparr> r_schema = Some SCHEMA, r_pos = Some pos, r_end = True, r_entry = None,
       r_shard = None, r_shard_pos = None \<rparr>) w b"

text \<open>\<open>_write_records\<close>: one write of the line file, one create per record of an object store.\<close>

definition number_records :: "idx_record list \<Rightarrow> buffer \<Rightarrow> buffer_error + idx_record list" where
  "number_records rs b =
     (if ended b then Inl AfterDataEnd
      else Inr (map (\<lambda>(i, r). r\<lparr> r_pos := Some (int (length (entries b) + i)) \<rparr>) (zip [0..<length rs] rs)))"

fun write_each ::
  "benv \<Rightarrow> idx_record list \<Rightarrow> bstore \<Rightarrow> buffer \<Rightarrow> (bstore \<times> buffer) \<times> (buffer_error + unit)" where
  "write_each E [] w b = ((w, b), Inr ())"
| "write_each E (r # rs) w b =
     (case write_record E (\<lambda>pos. r\<lparr> r_pos := Some pos \<rparr>) w b of
        ((w1, b1), Inl e) \<Rightarrow> ((w1, b1), Inl e)
      | ((w1, b1), Inr _) \<Rightarrow> write_each E rs w1 b1)"

definition write_records ::
  "benv \<Rightarrow> idx_record list \<Rightarrow> bstore \<Rightarrow> buffer \<Rightarrow> (bstore \<times> buffer) \<times> (buffer_error + unit)" where
  "write_records E rs w b =
     (case index b of
        Jsonl j \<Rightarrow> (case jsonl_append_many E absorb (number_records rs) w j b of
            ((w1, j1, b1), res) \<Rightarrow> ((w1, b1\<lparr> index := Jsonl j1 \<rparr>), res))
      | Objects _ \<Rightarrow> write_each E rs w b)"

section \<open>Merging the shards\<close>

text \<open>
  The new records of one shard: whether an end record was among them, and the samples with
  their shard and shard position.
\<close>

fun shard_records :: "string \<Rightarrow> idx_record list \<Rightarrow> bool \<Rightarrow> idx_record list \<Rightarrow> bool \<times> (buffer_error + idx_record list)" where
  "shard_records s [] fin acc = (fin, Inr acc)"
| "shard_records s (r # rs) fin acc =
     (if r_end r then shard_records s rs True acc
      else (case r_pos r of
          None \<Rightarrow> (fin, Inl MissingField)
        | Some p \<Rightarrow> shard_records s rs fin (acc @ [r\<lparr> r_shard := Some s, r_shard_pos := Some p \<rparr>])))"

definition end_shard :: "bool \<Rightarrow> string \<Rightarrow> buffer \<Rightarrow> buffer" where
  "end_shard fin s b = (if fin \<and> s \<notin> set (shards_ended b) then b\<lparr> shards_ended := s # shards_ended b \<rparr> else b)"

definition merged_count :: "string \<Rightarrow> buffer \<Rightarrow> nat" where
  "merged_count s b = length (filter (\<lambda>x. x = Some s) (shard_of b))"

definition read_shard :: "benv \<Rightarrow> bstore \<Rightarrow> string \<Rightarrow> buffer \<Rightarrow> buffer \<times> (buffer_error + idx_record list)" where
  "read_shard E w s b =
     (case (case dict_get (shard_readers b) s of
              Some rd \<Rightarrow> Inr rd
            | None \<Rightarrow> ix_shard_reader E w (index b) s (merged_count s b)) of
        Inl e \<Rightarrow> (b, Inl e)
      | Inr rd \<Rightarrow>
          (case ix_read_new E w rd of (rd1, res) \<Rightarrow>
             let b1 = b\<lparr> shard_readers := dict_set s rd1 (shard_readers b) \<rparr> in
             (case res of
                Inl e \<Rightarrow> (b1, Inl e)
              | Inr rs \<Rightarrow> (case shard_records s rs False [] of (fin, out) \<Rightarrow> (end_shard fin s b1, out)))))"

fun read_shards ::
  "benv \<Rightarrow> bstore \<Rightarrow> string list \<Rightarrow> buffer \<Rightarrow> idx_record list list \<Rightarrow> buffer \<times> (buffer_error + idx_record list list)" where
  "read_shards E w [] b new = (b, Inr new)"
| "read_shards E w (s # ss) b new =
     (case read_shard E w s b of
        (b1, Inl e) \<Rightarrow> (b1, Inl e)
      | (b1, Inr rs) \<Rightarrow> read_shards E w ss b1 (new @ [rs]))"

text \<open>The key \<open>(appended_at, shard)\<close> of the interleaving; a record without a time counts as 0.\<close>

definition merge_key :: "idx_record \<Rightarrow> rat \<times> string" where
  "merge_key r = ((case r_entry r of None \<Rightarrow> 0 | Some e \<Rightarrow> appended_at e), (case r_shard r of None \<Rightarrow> [] | Some s \<Rightarrow> s))"

definition end_record :: idx_record where
  "end_record = \<lparr> r_schema = Some SCHEMA, r_pos = None, r_end = True, r_entry = None, r_shard = None, r_shard_pos = None \<rparr>"

definition buf_merge_shards :: "benv \<Rightarrow> bstore \<Rightarrow> buffer \<Rightarrow> (bstore \<times> buffer) \<times> (buffer_error + unit)" where
  "buf_merge_shards E w b =
     (case read_shards E w (ix_shard_names w (index b)) b [] of
        (b1, Inl e) \<Rightarrow> ((w, b1), Inl e)
      | (b1, Inr new) \<Rightarrow>
          if ended b1 then ((w, b1), if concat new \<noteq> [] then Inl ShardAfterEnd else Inr ())
          else
            let expected = (case expected_shards b1 of None \<Rightarrow> map fst (shard_readers b1) | Some ss \<Rightarrow> ss);
                merged = heap_merge merge_key new
                  @ (if expected \<noteq> [] \<and> set expected \<subseteq> set (shards_ended b1) then [end_record] else [])
            in if merged \<noteq> [] then write_records E merged w b1 else ((w, b1), Inr ()))"

section \<open>Reading\<close>

definition refresh :: "benv \<Rightarrow> bstore \<Rightarrow> buffer \<Rightarrow> (bstore \<times> buffer) \<times> (buffer_error + nat)" where
  "refresh E w b =
     (case ix_read_new E w (index b) of
        (ix, Inl e) \<Rightarrow> ((w, b\<lparr> index := ix \<rparr>), Inl e)
      | (ix, Inr rs) \<Rightarrow>
          (case absorb rs (b\<lparr> index := ix \<rparr>) of
             (b1, Inl e) \<Rightarrow> ((w, b1), Inl e)
           | (b1, Inr _) \<Rightarrow>
               if merging b1 then
                 (case buf_merge_shards E w b1 of
                    ((w1, b2), Inl e) \<Rightarrow> ((w1, b2), Inl e)
                  | ((w1, b2), Inr _) \<Rightarrow> ((w1, b2), Inr (length (entries b2))))
               else ((w, b1), Inr (length (entries b1)))))"

definition open_buffer ::
  "benv \<Rightarrow> bstore \<Rightarrow> int \<Rightarrow> rat \<Rightarrow> string \<Rightarrow> bool \<Rightarrow> bool \<Rightarrow> string list option \<Rightarrow> buffer_lane option \<Rightarrow>
   bstore \<times> (buffer_error + buffer)" where
  "open_buffer E w batch window ix create_index merge expected lan =
     (if lan \<noteq> None \<and> merge \<and> \<not> merges_shards lan then (w, Inl NotPublisherLane)
      else if batch < 1 then (w, Inl BadBatchSize)
      else (case index_for w ix create_index of
          Inl e \<Rightarrow> (w, Inl e)
        | Inr (w1, idx) \<Rightarrow>
            (case (if ix \<noteq> INDEX then rbind (shard_of_index ix) (\<lambda>s. Inr (Some s)) else Inr None) of
               Inl e \<Rightarrow> (w1, Inl e)
             | Inr sh \<Rightarrow>
                 if merge \<and> sh \<noteq> None then (w1, Inl ShardWriterMerges)
                 else if expected \<noteq> None \<and> \<not> merge then (w1, Inl ExpectedNeedsMerge)
                 else (case (case expected of None \<Rightarrow> Inr None | Some ss \<Rightarrow> rbind (rmap shard_name ss) (\<lambda>ns. Inr (Some ns))) of
                     Inl e \<Rightarrow> (w1, Inl e)
                   | Inr ex \<Rightarrow>
                       (case refresh E w1 \<lparr> index = idx, shard = sh, lane = lan, merging = merge, expected_shards = ex,
                              shard_of = [], shard_readers = [], shards_ended = [], batch_size = batch,
                              arrival_window_s = window, entries = [], ended = False, consumer = None, read = 0,
                              watermark = 0, polled = 0 \<rparr> of
                          ((w2, b), Inl e) \<Rightarrow> (w2, Inl e)
                        | ((w2, b), Inr n) \<Rightarrow> (w2, Inr (b\<lparr> polled := int n \<rparr>)))))))"

definition open_trainer_buffer ::
  "benv \<Rightarrow> bstore \<Rightarrow> int \<Rightarrow> rat \<Rightarrow> buffer_lane option \<Rightarrow> bool \<Rightarrow> string list \<Rightarrow> bstore \<times> (buffer_error + buffer)" where
  "open_trainer_buffer E w batch window lan create_index named =
     (let merge = ((needs_shards w \<or> named \<noteq> []) \<and> merges_shards lan)
      in open_buffer E w batch window INDEX (create_index \<or> merge) merge
           (if merge \<and> named \<noteq> [] then Some named else None) lan)"

text \<open>\<open>Counter\<close> of a list, in key order.\<close>

definition counter :: "'k::linorder list \<Rightarrow> ('k, nat) dict" where
  "counter xs = map (\<lambda>k. (k, count_list xs k)) (sort (remdups xs))"

definition shard_positions :: "buffer \<Rightarrow> int \<Rightarrow> buffer_error + (string, nat) dict" where
  "shard_positions b cursor =
     (if \<not> (0 \<le> cursor \<and> cursor \<le> int (length (entries b))) then Inl (CursorOutside cursor (length (entries b)))
      else Inr (counter (List.map_filter id (take (nat cursor) (shard_of b)))))"

section \<open>Consuming\<close>

definition reset_to :: "benv \<Rightarrow> int \<Rightarrow> bstore \<Rightarrow> buffer \<Rightarrow> (bstore \<times> buffer) \<times> (buffer_error + unit)" where
  "reset_to E mark w b =
     (case refresh E w b of
        ((w1, b1), Inl e) \<Rightarrow> ((w1, b1), Inl e)
      | ((w1, b1), Inr n) \<Rightarrow>
          if \<not> (0 \<le> mark \<and> mark \<le> int (length (entries b1))) then ((w1, b1), Inl (WatermarkOutside mark (length (entries b1))))
          else ((w1, b1\<lparr> read := mark, watermark := mark \<rparr>), Inr ()))"

definition lane_takes :: "buffer_lane option \<Rightarrow> int \<Rightarrow> bool" where
  "lane_takes l pos \<longleftrightarrow> (case l of None \<Rightarrow> True | Some v \<Rightarrow> lane_owns v pos)"

text \<open>The loop of \<open>select\<close> and \<open>peek\<close> from position \<open>pos\<close>: the taken positions and where it stops.\<close>

function take_loop ::
  "buffer_lane option \<Rightarrow> sample_entry list \<Rightarrow> nat \<Rightarrow> nat \<Rightarrow> (nat \<times> sample_entry) list \<Rightarrow> (nat \<times> sample_entry) list \<times> nat" where
  "take_loop l es limit pos out =
     (if length out < limit \<and> pos < length es
      then take_loop l es limit (pos + 1) (if lane_takes l (int pos) then out @ [(pos, es ! pos)] else out)
      else (out, pos))"
  by pat_completeness auto
termination
  by (relation "measure (\<lambda>(l, es, limit, pos, out). length es - pos)") auto

declare take_loop.simps [simp del]

definition buf_select ::
  "benv \<Rightarrow> string \<Rightarrow> int \<Rightarrow> bstore \<Rightarrow> buffer \<Rightarrow> (bstore \<times> buffer) \<times> (buffer_error + (nat \<times> sample_entry) list)" where
  "buf_select E who limit w b =
     (if consumer b \<noteq> None \<and> consumer b \<noteq> Some who then ((w, b), Inl (OtherConsumer (the (consumer b))))
      else (case refresh E w (b\<lparr> consumer := Some who \<rparr>) of
          ((w1, b1), Inl e) \<Rightarrow> ((w1, b1), Inl e)
        | ((w1, b1), Inr n) \<Rightarrow>
            (case take_loop (lane b1) (entries b1) (nat limit) (nat (read b1)) [] of
               (out, pos) \<Rightarrow> ((w1, b1\<lparr> read := int pos \<rparr>), Inr out))))"

definition peek ::
  "benv \<Rightarrow> int \<Rightarrow> bstore \<Rightarrow> buffer \<Rightarrow> (bstore \<times> buffer) \<times> (buffer_error + (nat \<times> sample_entry) list)" where
  "peek E limit w b =
     (case refresh E w b of
        ((w1, b1), Inl e) \<Rightarrow> ((w1, b1), Inl e)
      | ((w1, b1), Inr n) \<Rightarrow> ((w1, b1), Inr (fst (take_loop (lane b1) (entries b1) (nat limit) (nat (read b1)) []))))"

definition commit_consumed :: "int \<Rightarrow> buffer \<Rightarrow> buffer_error + buffer" where
  "commit_consumed cursor b =
     (if \<not> (watermark b \<le> cursor \<and> cursor \<le> read b) then Inl (ConsumedOutside cursor)
      else Inr (b\<lparr> watermark := cursor \<rparr>))"

section \<open>Shards that are not merged yet\<close>

record unmerged_shards =
  u_readers :: "(string, object_index) dict"
  u_records :: "(string, sample_entry list) dict"
  u_dropped :: "(string, nat) dict"
  u_ended :: "string list"

abbreviation dict_or :: "'v \<Rightarrow> ('k, 'v) dict \<Rightarrow> 'k \<Rightarrow> 'v" where
  "dict_or d m k \<equiv> (case dict_get m k of None \<Rightarrow> d | Some v \<Rightarrow> v)"

text \<open>The records of one shard go into its list; the loop stops at a record without a sample.\<close>

fun add_unmerged :: "string \<Rightarrow> idx_record list \<Rightarrow> unmerged_shards \<Rightarrow> unmerged_shards \<times> (buffer_error + unit)" where
  "add_unmerged s [] u = (u, Inr ())"
| "add_unmerged s (r # rs) u =
     (if r_end r then add_unmerged s rs (u\<lparr> u_ended := s # u_ended u \<rparr>)
      else (case make_entry r of
          Inl e \<Rightarrow> (u, Inl e)
        | Inr e \<Rightarrow> add_unmerged s rs (u\<lparr> u_records := dict_set s (dict_or [] (u_records u) s @ [e]) (u_records u) \<rparr>)))"

definition pending_shard :: "benv \<Rightarrow> bstore \<Rightarrow> string \<Rightarrow> unmerged_shards \<Rightarrow> unmerged_shards \<times> (buffer_error + unit)" where
  "pending_shard E w s u =
     (case (case dict_get (u_readers u) s of
              Some rd \<Rightarrow> Inr (rd, u)
            | None \<Rightarrow> rbind (shard_prefix s) (\<lambda>p. Inr (object_open p 0,
                u\<lparr> u_records := dict_set s [] (u_records u), u_dropped := dict_set s 0 (u_dropped u) \<rparr>))) of
        Inl e \<Rightarrow> (u, Inl e)
      | Inr (rd, u1) \<Rightarrow>
          (case object_read_new E w rd of (rd1, res) \<Rightarrow>
             let u2 = u1\<lparr> u_readers := dict_set s rd1 (u_readers u1) \<rparr> in
             (case res of Inl e \<Rightarrow> (u2, Inl e) | Inr rs \<Rightarrow> add_unmerged s rs u2)))"

fun pending_shards :: "benv \<Rightarrow> bstore \<Rightarrow> string list \<Rightarrow> unmerged_shards \<Rightarrow> unmerged_shards \<times> (buffer_error + unit)" where
  "pending_shards E w [] u = (u, Inr ())"
| "pending_shards E w (s # ss) u =
     (case pending_shard E w s u of (u1, Inl e) \<Rightarrow> (u1, Inl e) | (u1, Inr _) \<Rightarrow> pending_shards E w ss u1)"

text \<open>\<open>del records[:done]\<close> of every shard.\<close>

definition drop_merged :: "(string, nat) dict \<Rightarrow> unmerged_shards \<Rightarrow> unmerged_shards" where
  "drop_merged merged u =
     (let cut = (\<lambda>s. dict_or 0 merged s - dict_or 0 (u_dropped u) s)
      in u\<lparr> u_records := map (\<lambda>(s, rs). (s, drop (cut s) rs)) (u_records u),
           u_dropped := map (\<lambda>(s, n). (s, n + cut s)) (u_dropped u) \<rparr>)"

definition unmerged_pending ::
  "benv \<Rightarrow> bstore \<Rightarrow> (string, nat) dict \<Rightarrow> unmerged_shards \<Rightarrow> unmerged_shards \<times> (buffer_error + sample_entry list \<times> bool)" where
  "unmerged_pending E w merged u =
     (let names = ix_shard_names w (Objects (object_open [] 0)) in
      case pending_shards E w names u of
        (u1, Inl e) \<Rightarrow> (u1, Inl e)
      | (u1, Inr _) \<Rightarrow>
          let u2 = drop_merged merged u1
          in (u2, Inr (concat (map snd (u_records u2)), names \<noteq> [] \<and> set names \<subseteq> set (u_ended u2))))"

section \<open>Backlog\<close>

record backlog_stats =
  batches :: rat
  samples :: nat
  oldest_version :: "int option"
  version_histogram :: "(int, nat) dict"
  arrival_rate :: rat
  data_ended :: bool
  max_version_gap :: "int option"

definition backlog_of ::
  "rat \<Rightarrow> int \<Rightarrow> buffer \<Rightarrow> int option \<Rightarrow> (sample_entry list \<times> bool) option \<Rightarrow> backlog_stats" where
  "backlog_of now current b start unmerged =
     (let extra = (case unmerged of None \<Rightarrow> [] | Some (es, _) \<Rightarrow> es);
          pend = drop (nat (case start of None \<Rightarrow> read b | Some s \<Rightarrow> max 0 s)) (entries b) @ extra;
          versions = counter (map behavior_version pend);
          old = (case versions of [] \<Rightarrow> None | (v, _) # _ \<Rightarrow> Some v);
          since = now - arrival_window_s b;
          recent = length (filter (\<lambda>e. appended_at e \<ge> since) (entries b @ extra))
      in \<lparr> batches = of_nat (length pend) / of_int (batch_size b), samples = length pend, oldest_version = old,
           version_histogram = versions, arrival_rate = of_nat recent / arrival_window_s b,
           data_ended = (ended b \<or> (case unmerged of None \<Rightarrow> False | Some (_, e) \<Rightarrow> e)),
           max_version_gap = map_option (\<lambda>v. current - v) old \<rparr>)"

definition backlog ::
  "benv \<Rightarrow> rat \<Rightarrow> int \<Rightarrow> int option \<Rightarrow> unmerged_shards option \<Rightarrow> bstore \<Rightarrow> buffer \<Rightarrow>
   (bstore \<times> buffer \<times> unmerged_shards option) \<times> (buffer_error + backlog_stats)" where
  "backlog E now current start unmerged w b =
     (case refresh E w b of
        ((w1, b1), Inl e) \<Rightarrow> ((w1, b1, unmerged), Inl e)
      | ((w1, b1), Inr n) \<Rightarrow>
          (case unmerged of
             None \<Rightarrow> ((w1, b1, None), Inr (backlog_of now current b1 start None))
           | Some u \<Rightarrow>
               (case shard_positions b1 (int (length (entries b1))) of
                  Inl e \<Rightarrow> ((w1, b1, Some u), Inl e)
                | Inr merged \<Rightarrow>
                    (case unmerged_pending E w1 merged u of
                       (u1, Inl e) \<Rightarrow> ((w1, b1, Some u1), Inl e)
                     | (u1, Inr extra) \<Rightarrow> ((w1, b1, Some u1), Inr (backlog_of now current b1 start (Some extra)))))))"

text \<open>\<open>CommittedBacklog\<close>: the head counts from the watermark of the newest cut and may not consume.\<close>

definition committed_backlog ::
  "benv \<Rightarrow> rat \<Rightarrow> int \<Rightarrow> int option \<Rightarrow> unmerged_shards option \<Rightarrow> bstore \<Rightarrow> buffer \<Rightarrow>
   (bstore \<times> buffer \<times> unmerged_shards option) \<times> (buffer_error + backlog_stats)" where
  "committed_backlog E now current mark unmerged w b =
     backlog E now current (Some (case mark of None \<Rightarrow> 0 | Some m \<Rightarrow> m)) unmerged w b"

definition committed_select :: "string \<Rightarrow> int \<Rightarrow> buffer_error + (nat \<times> sample_entry) list" where
  "committed_select who limit = Inl HeadOnly"

definition committed_commit :: "int \<Rightarrow> buffer_error + unit" where
  "committed_commit cursor = Inl HeadOnly"

definition poll :: "benv \<Rightarrow> bstore \<Rightarrow> buffer \<Rightarrow> (bstore \<times> buffer) \<times> (buffer_error + int \<times> bool)" where
  "poll E w b =
     (case refresh E w b of
        ((w1, b1), Inl e) \<Rightarrow> ((w1, b1), Inl e)
      | ((w1, b1), Inr n) \<Rightarrow>
          let new = int n - polled b1 in
          ((w1, b1\<lparr> polled := polled b1 + max new 0 \<rparr>), Inr (max new 0, new > 0)))"

section \<open>The merger of the head\<close>

text \<open>
  The records of the complete lines; blank lines are skipped, a bad line raises.
\<close>

definition ascii_space :: "byte \<Rightarrow> bool" where
  "ascii_space c \<longleftrightarrow> c = 32 \<or> 9 \<le> c \<and> c \<le> 13"

fun to_last_newline :: "bytes \<Rightarrow> bytes" where
  "to_last_newline [] = []"
| "to_last_newline (c # cs) = (if nl \<in> set (c # cs) then c # to_last_newline cs else [])"

definition complete_lines :: "benv \<Rightarrow> bytes \<Rightarrow> buffer_error + idx_record list" where
  "complete_lines E data =
     rmap (\<lambda>raw. case loads E raw of None \<Rightarrow> Inl (BadLine 0) | Some r \<Rightarrow> Inr r)
       (filter (\<lambda>raw. \<not> list_all ascii_space raw) (splitlines byte_ends (to_last_newline data)))"

definition shard_samples :: "benv \<Rightarrow> bstore \<Rightarrow> string \<Rightarrow> buffer_error + idx_record list" where
  "shard_samples E w s =
     rbind (shard_index s) (\<lambda>p.
       rbind (complete_lines E (dict_or [] (dir_files w) p)) (\<lambda>rs. Inr (filter (\<lambda>r. \<not> r_end r) rs)))"

definition shard_lengths :: "benv \<Rightarrow> bstore \<Rightarrow> string list \<Rightarrow> buffer_error + (string, nat) dict" where
  "shard_lengths E w shards =
     rfold (\<lambda>s d. rbind (shard_samples E w s) (\<lambda>rs. Inr (dict_set s (length rs) d))) shards []"

definition new_lines :: "benv \<Rightarrow> bstore \<Rightarrow> idx_record list \<Rightarrow> string \<Rightarrow> buffer_error + idx_record list" where
  "new_lines E w lines s =
     (let done' = count_list (map r_shard lines) (Some s) in
      rbind (shard_samples E w s) (\<lambda>rs.
        Inr (map (\<lambda>(i, r). r\<lparr> r_shard := Some s, r_shard_pos := Some (int i) \<rparr>)
              (drop done' (zip [0..<length rs] rs)))))"

definition sort_new :: "idx_record list \<Rightarrow> idx_record list" where
  "sort_new rs = sort_key (\<lambda>r. (merge_key r, case r_shard_pos r of None \<Rightarrow> 0 | Some p \<Rightarrow> p)) rs"

definition merge_shards :: "benv \<Rightarrow> string list \<Rightarrow> bstore \<Rightarrow> buffer_error + bstore \<times> nat" where
  "merge_shards E shards w =
     (let ix = to_last_newline (dict_or [] (dir_files w) INDEX) in
      rbind (complete_lines E ix) (\<lambda>lines.
        if \<exists>r \<in> set lines. r_end r then Inl MergeAfterEnd
        else rbind (rmap (new_lines E w lines) shards) (\<lambda>news.
          let new = sort_new (concat news) in
          if new = [] then Inr (w, 0)
          else Inr (w\<lparr> dir_files := dict_set INDEX
                        (ix @ encode_records E (map (\<lambda>(i, r). r\<lparr> r_pos := Some (int (length lines + i)) \<rparr>)
                           (zip [0..<length new] new))) (dir_files w) \<rparr>,
                    length new))))"

end
