(* ===== verification/Buffer_Cursors.thy ===== *)
theory Buffer_Cursors
  imports Sample_Buffer "HOL-Library.Sublist"
begin

text \<open>
  The cursors of the sample buffer.  The locale \<open>absorber\<close> is the contract of an index towards
  the buffer that writes through it: an index changes the buffer through its callback only.
  Every operation keeps the order watermark, read cursor, entries, and over every run of a
  reader the selected positions are those of its lane, in order and each once.
\<close>

section \<open>What an index may do to its buffer\<close>

locale absorber =
  fixes take_in :: "idx_record list \<Rightarrow> 'b \<Rightarrow> 'b \<times> (buffer_error + unit)"
    and R :: "'b \<Rightarrow> 'b \<Rightarrow> bool"
  assumes R_refl: "R b b"
    and R_trans: "R a b \<Longrightarrow> R b c \<Longrightarrow> R a c"
    and R_take_in: "R b (fst (take_in rs b))"
begin

lemma jsonl_append_many_R: "R b (snd (snd (fst (jsonl_append_many E take_in produce w j b))))"
proof -
  have "R b b2" if "take_in xs b = (b1, r1)" and "take_in ys b1 = (b2, r2)" for xs ys b1 b2 r1 r2
    using R_trans [OF R_take_in [of b xs] R_take_in [of "fst (take_in xs b)" ys]] that by simp
  moreover have "R b b1" if "take_in xs b = (b1, r1)" for xs b1 r1
    using R_take_in [of b xs] that by simp
  ultimately show ?thesis
    unfolding jsonl_append_many_def
    by (auto simp: Let_def R_refl split: option.splits prod.splits sum.splits)
qed

lemma object_append_R: "R b (snd (snd (fst (object_append n E take_in produce w o' b))))"
proof (induction n arbitrary: w o' b)
  case (Suc n)
  have two: "R b b2" if "take_in xs b = (b1, r1)" and "take_in ys b1 = (b2, r2)" for xs ys b1 b2 r1 r2
    using R_trans [OF R_take_in [of b xs] R_take_in [of "fst (take_in xs b)" ys]] that by simp
  have one: "R b b1" if "take_in xs b = (b1, r1)" for xs b1 r1
    using R_take_in [of b xs] that by simp
  have more: "R b (snd (snd (fst (object_append n E take_in produce w1 o1 b1))))"
    if "take_in xs b = (b1, r1)" for xs b1 r1 w1 o1
    using R_trans [OF one [OF that] Suc.IH] .
  show ?case
    by (auto simp: Let_def R_refl dest: one two intro: more split: prod.splits sum.splits)
qed (simp add: R_refl)

end

section \<open>What every operation keeps\<close>

text \<open>The entries grow at the end; the cursors and the settings of the buffer stay.\<close>

definition grown :: "buffer \<Rightarrow> buffer \<Rightarrow> bool" where
  "grown b b' \<longleftrightarrow> prefix (entries b) (entries b') \<and> prefix (shard_of b) (shard_of b')
     \<and> (length (entries b) \<le> length (shard_of b) \<longrightarrow> length (entries b') \<le> length (shard_of b'))
     \<and> (ended b \<longrightarrow> ended b')
     \<and> read b' = read b \<and> watermark b' = watermark b \<and> consumer b' = consumer b \<and> lane b' = lane b
     \<and> polled b' = polled b \<and> merging b' = merging b \<and> expected_shards b' = expected_shards b
     \<and> batch_size b' = batch_size b \<and> arrival_window_s b' = arrival_window_s b"

lemma grown_refl [simp]: "grown b b"
  by (simp add: grown_def)

lemma grown_trans [trans]: "grown a b \<Longrightarrow> grown b c \<Longrightarrow> grown a c"
  unfolding grown_def by (auto intro: prefix_order.order_trans)

lemma grown_frame [simp]:
  "grown b (b'\<lparr> index := ix \<rparr>) = grown b b'"
  "grown b (b'\<lparr> shard_readers := rd \<rparr>) = grown b b'"
  "grown b (b'\<lparr> shards_ended := es \<rparr>) = grown b b'"
  "grown (b\<lparr> index := ix \<rparr>) b' = grown b b'"
  by (simp_all add: grown_def)

lemma absorb_grown: "grown b (fst (absorb rs b))"
proof (induction rs b rule: absorb.induct)
  case (2 r rs b)
  show ?case
  proof (cases "r_schema r = Some SCHEMA \<and> (\<exists>p. r_pos r = Some p \<and> p = int (length (entries b)))")
    case False
    then show ?thesis by (auto split: option.splits)
  next
    case True
    then obtain p where p: "r_schema r = Some SCHEMA" "r_pos r = Some p" "p = int (length (entries b))" by auto
    show ?thesis
    proof (cases "r_end r")
      case True
      have "grown (b\<lparr> ended := True \<rparr>) (fst (absorb rs (b\<lparr> ended := True \<rparr>)))" using "2.IH"(1) p True by simp
      moreover have "grown b (b\<lparr> ended := True \<rparr>)" by (simp add: grown_def)
      ultimately show ?thesis using p True by (simp add: grown_trans)
    next
      case False
      let ?b1 = "b\<lparr> shard_of := shard_of b @ [r_shard r] \<rparr>"
      show ?thesis
      proof (cases "make_entry r")
        case (Inl e)
        then show ?thesis using p False by (simp add: grown_def)
      next
        case (Inr e)
        have "grown (?b1\<lparr> entries := entries ?b1 @ [e] \<rparr>) (fst (absorb rs (?b1\<lparr> entries := entries ?b1 @ [e] \<rparr>)))"
          using "2.IH"(2) p False Inr by simp
        moreover have "grown b (?b1\<lparr> entries := entries ?b1 @ [e] \<rparr>)" by (simp add: grown_def)
        ultimately show ?thesis using p False Inr by (simp add: Let_def grown_trans)
      qed
    qed
  qed
qed simp

interpretation ab: absorber absorb grown
  by unfold_locales (auto intro: grown_trans absorb_grown)

lemma write_record_grown: "grown b (snd (fst (write_record E produce w b)))"
proof (cases "index b")
  case (Jsonl j)
  show ?thesis
    using ab.jsonl_append_many_R [of b E "\<lambda>b'. rbind (if ended b' then Inl AfterDataEnd else Inr (produce (int (length (entries b'))))) (\<lambda>r. Inr [r])" w j]
    by (auto simp: write_record_def Jsonl Let_def split: prod.splits)
next
  case (Objects o')
  show ?thesis
    using ab.object_append_R [of b MAX_CREATE_RACES E "\<lambda>b'. if ended b' then Inl AfterDataEnd else Inr (produce (int (length (entries b'))))" w o']
    by (auto simp: write_record_def Objects Let_def split: prod.splits)
qed

lemma write_each_grown: "grown b (snd (fst (write_each E rs w b)))"
proof (induction E rs w b rule: write_each.induct)
  case (2 E r rs w b)
  obtain w1 b1 res where eq: "write_record E (\<lambda>pos. r\<lparr> r_pos := Some pos \<rparr>) w b = ((w1, b1), res)"
    by (metis surj_pair)
  have step: "grown b b1" using write_record_grown [of b E "\<lambda>pos. r\<lparr> r_pos := Some pos \<rparr>" w] eq by simp
  show ?case
  proof (cases res)
    case (Inr u)
    have "grown b1 (snd (fst (write_each E rs w1 b1)))" using "2.IH" eq Inr by fastforce
    then show ?thesis using eq Inr step by (simp add: grown_trans)
  qed (simp add: eq step)
qed simp

lemma write_records_grown: "grown b (snd (fst (write_records E rs w b)))"
proof (cases "index b")
  case (Jsonl j)
  show ?thesis using ab.jsonl_append_many_R [of b E "number_records rs" w j]
    by (auto simp: write_records_def Jsonl split: prod.splits)
next
  case (Objects o')
  show ?thesis by (simp add: write_records_def Objects write_each_grown)
qed

lemma read_shard_grown: "grown b (fst (read_shard E w s b))"
  by (auto simp: read_shard_def end_shard_def Let_def split: sum.splits prod.splits option.splits)

lemma read_shards_grown: "grown b (fst (read_shards E w ss b new))"
proof (induction E w ss b new rule: read_shards.induct)
  case (2 E w s ss b new)
  obtain b1 res where eq: "read_shard E w s b = (b1, res)" by (metis surj_pair)
  have step: "grown b b1" using read_shard_grown [of b E w s] eq by simp
  show ?case
  proof (cases res)
    case (Inr rs)
    have "grown b1 (fst (read_shards E w ss b1 (new @ [rs])))" using "2.IH" eq Inr by fastforce
    then show ?thesis using eq Inr step by (simp add: grown_trans)
  qed (simp add: eq step)
qed simp

lemma buf_merge_shards_grown: "grown b (snd (fst (buf_merge_shards E w b)))"
proof -
  have r: "grown b b1" if "read_shards E w ss b new = (b1, res)" for ss new b1 res
    using read_shards_grown [of b E w ss new] that by simp
  have wr: "grown b (snd (fst (write_records E rs w b1)))"
    if "read_shards E w ss b new = (b1, res)" for ss new b1 res rs
    using grown_trans [OF r [OF that] write_records_grown] .
  show ?thesis by (auto simp: buf_merge_shards_def Let_def split: prod.splits sum.splits dest: r intro: wr)
qed

lemma refresh_grown: "grown b (snd (fst (refresh E w b)))"
proof -
  have a: "grown b b1" if "absorb rs (b\<lparr> index := ix \<rparr>) = (b1, res)" for rs ix b1 res
    using absorb_grown [of "b\<lparr> index := ix \<rparr>" rs] that by simp
  have mg: "grown b b2" if "absorb rs (b\<lparr> index := ix \<rparr>) = (b1, res)"
    and "buf_merge_shards E w b1 = ((w1, b2), res')" for rs ix b1 res w1 b2 res'
    using grown_trans [OF a [OF that(1)] buf_merge_shards_grown [of b1 E w]] that(2) by simp
  show ?thesis by (auto simp: refresh_def split: prod.splits sum.splits dest: a mg)
qed

section \<open>The loop of a selection\<close>

abbreviation owned :: "buffer_lane option \<Rightarrow> nat \<Rightarrow> nat \<Rightarrow> nat list" where
  "owned l a b \<equiv> filter (\<lambda>p. lane_takes l (int p)) [a..<b]"

lemma take_loop_spec:
  assumes "take_loop l es n pos out = (out', pos')" and "pos \<le> length es"
  shows "pos \<le> pos' \<and> pos' \<le> length es \<and> out' = out @ map (\<lambda>p. (p, es ! p)) (owned l pos pos')
    \<and> (length out \<le> n \<longrightarrow> length out' \<le> n) \<and> (length out' < n \<longrightarrow> pos' = length es)"
  using assms
proof (induction l es n pos out rule: take_loop.induct)
  case (1 l es n pos out)
  show ?case
  proof (cases "length out < n \<and> pos < length es")
    case False
    then have "take_loop l es n pos out = (out, pos)" by (subst take_loop.simps) (simp only: if_False)
    then show ?thesis using 1(2,3) False by auto
  next
    case True
    define o1 where "o1 = (if lane_takes l (int pos) then out @ [(pos, es ! pos)] else out)"
    have "take_loop l es n (pos + 1) o1 = (out', pos')" unfolding o1_def
      using 1(2) True by (subst (asm) take_loop.simps) (simp only: if_True simp_thms)
    moreover have "pos + 1 \<le> length es" using True by simp
    ultimately have ih: "Suc pos \<le> pos'" "pos' \<le> length es" "out' = o1 @ map (\<lambda>p. (p, es ! p)) (owned l (Suc pos) pos')"
      "length o1 \<le> n \<longrightarrow> length out' \<le> n" "length out' < n \<longrightarrow> pos' = length es"
      using 1(1) [OF True] unfolding o1_def [symmetric] Suc_eq_plus1 by blast+
    have "[pos..<pos'] = pos # [Suc pos..<pos']" using ih(1) by (simp add: upt_conv_Cons)
    then have "out' = out @ map (\<lambda>p. (p, es ! p)) (owned l pos pos')" using ih(3) by (simp add: o1_def)
    moreover have "length o1 \<le> n" using True by (simp add: o1_def)
    moreover have "pos \<le> pos'" using ih(1) by simp
    ultimately show ?thesis using ih(2,4,5) by blast
  qed
qed

section \<open>Runs of a reader\<close>

datatype buf_event = Took "(nat \<times> sample_entry) list" | ResetTo int | Quiet

text \<open>
  One call on the buffer.  The store is arbitrary at every call: other processes write it in
  between.
\<close>

inductive buf_step :: "benv \<Rightarrow> buffer \<Rightarrow> buf_event \<Rightarrow> buffer \<Rightarrow> bool" for E where
  step_append: "buf_append E now e w b = ((w', b'), res) \<Longrightarrow> buf_step E b Quiet b'"
| step_end: "mark_data_end E w b = ((w', b'), res) \<Longrightarrow> buf_step E b Quiet b'"
| step_refresh: "refresh E w b = ((w', b'), res) \<Longrightarrow> buf_step E b Quiet b'"
| step_peek: "peek E n w b = ((w', b'), res) \<Longrightarrow> buf_step E b Quiet b'"
| step_poll: "poll E w b = ((w', b'), res) \<Longrightarrow> buf_step E b Quiet b'"
| step_backlog: "backlog E now v start u w b = ((w', b', u'), res) \<Longrightarrow> buf_step E b Quiet b'"
| step_commit: "commit_consumed c b = Inr b' \<Longrightarrow> buf_step E b Quiet b'"
| step_reset: "reset_to E m w b = ((w', b'), Inr ()) \<Longrightarrow> buf_step E b (ResetTo m) b'"
| step_reset_error: "reset_to E m w b = ((w', b'), Inl e) \<Longrightarrow> buf_step E b Quiet b'"
| step_select: "buf_select E who n w b = ((w', b'), Inr out) \<Longrightarrow> buf_step E b (Took out) b'"
| step_select_error: "buf_select E who n w b = ((w', b'), Inl e) \<Longrightarrow> buf_step E b Quiet b'"

inductive buf_run :: "benv \<Rightarrow> buffer \<Rightarrow> buf_event list \<Rightarrow> buffer \<Rightarrow> bool" for E where
  run_nil: "buf_run E b [] b"
| run_snoc: "buf_run E b evs b1 \<Longrightarrow> buf_step E b1 ev b2 \<Longrightarrow> buf_run E b (evs @ [ev]) b2"

definition cursors_ok :: "buffer \<Rightarrow> bool" where
  "cursors_ok b \<longleftrightarrow> 0 \<le> watermark b \<and> watermark b \<le> read b \<and> read b \<le> int (length (entries b))
     \<and> 0 \<le> polled b \<and> polled b \<le> int (length (entries b)) \<and> length (entries b) \<le> length (shard_of b)"

lemma grown_cursors: "grown b b' \<Longrightarrow> cursors_ok b \<Longrightarrow> cursors_ok b'"
  unfolding grown_def cursors_ok_def using prefix_length_le [of "entries b" "entries b'"] by auto

lemma refresh_count: "refresh E w b = ((w', b'), Inr n) \<Longrightarrow> n = length (entries b')"
  by (auto simp: refresh_def split: prod.splits sum.splits if_splits)

text \<open>What one step keeps and what a selection takes.\<close>

definition step_ok :: "buffer \<Rightarrow> buf_event \<Rightarrow> buffer \<Rightarrow> bool" where
  "step_ok b ev b' \<longleftrightarrow> cursors_ok b' \<and> prefix (entries b) (entries b') \<and> (ended b \<longrightarrow> ended b') \<and> lane b' = lane b
     \<and> (consumer b \<noteq> None \<longrightarrow> consumer b' = consumer b)
     \<and> (case ev of
          Quiet \<Rightarrow> read b' = read b \<and> watermark b \<le> watermark b'
        | ResetTo m \<Rightarrow> read b' = m \<and> watermark b' = m
        | Took out \<Rightarrow> read b \<le> read b' \<and> watermark b' = watermark b
            \<and> out = map (\<lambda>p. (p, entries b' ! p)) (owned (lane b) (nat (read b)) (nat (read b'))))"

lemma grown_step_ok: "grown b b' \<Longrightarrow> cursors_ok b \<Longrightarrow> step_ok b Quiet b'"
  using grown_cursors [of b b'] by (auto simp: step_ok_def grown_def)


lemma selection_ok:
  assumes "grown b b1" and "cursors_ok b" and "take_loop (lane b1) (entries b1) n (nat (read b1)) [] = (out, pos)"
  shows "step_ok b (Took out) (b1\<lparr> read := int pos \<rparr>)"
proof -
  have c: "cursors_ok b1" using assms(1,2) by (rule grown_cursors)
  have "nat (read b1) \<le> length (entries b1)" using c by (auto simp: cursors_ok_def)
  note spec = take_loop_spec [OF assms(3) this]
  have g: "read b1 = read b" "lane b1 = lane b" "watermark b1 = watermark b" "consumer b1 = consumer b"
    "prefix (entries b) (entries b1)" "ended b \<longrightarrow> ended b1" using assms(1) by (simp_all add: grown_def)
  have "nat (read b) \<le> pos" "pos \<le> length (entries b1)"
    and out: "out = map (\<lambda>p. (p, entries b1 ! p)) (owned (lane b) (nat (read b)) pos)"
    using spec unfolding g append_Nil by blast+
  moreover have "0 \<le> read b" using assms(2) by (simp add: cursors_ok_def)
  ultimately have "read b \<le> int pos" "pos \<le> length (entries b1)" by simp_all
  then have "cursors_ok (b1\<lparr> read := int pos \<rparr>)" using c g(1) by (simp add: cursors_ok_def)
  then show ?thesis using \<open>read b \<le> int pos\<close> g out unfolding step_ok_def by simp
qed

lemma commit_ok:
  assumes "commit_consumed c b = Inr b'" and "cursors_ok b"
  shows "step_ok b Quiet b'"
  using assms by (auto simp: commit_consumed_def step_ok_def cursors_ok_def split: if_splits)

lemma poll_ok:
  assumes "poll E w b = ((w', b'), res)" and ok: "cursors_ok b"
  shows "step_ok b Quiet b'"
proof -
  obtain w1 b1 r where r: "refresh E w b = ((w1, b1), r)" by (metis surj_pair)
  have g: "grown b b1" using refresh_grown [of b E w] r by simp
  have c: "cursors_ok b1" using g ok by (rule grown_cursors)
  show ?thesis
  proof (cases r)
    case (Inl e)
    then have "b' = b1" using assms(1) r by (simp add: poll_def)
    then show ?thesis using g ok by (simp add: grown_step_ok)
  next
    case (Inr n)
    have n: "n = length (entries b1)" using refresh_count [of E w b w1 b1 n] r Inr by simp
    have b': "b' = b1\<lparr> polled := polled b1 + max (int n - polled b1) 0 \<rparr>"
      using assms(1) r Inr by (auto simp: poll_def Let_def)
    show ?thesis using g c unfolding b' n step_ok_def cursors_ok_def grown_def by auto
  qed
qed

lemma reset_ok:
  assumes "reset_to E m w b = ((w', b'), res)" and ok: "cursors_ok b"
  shows "step_ok b (case res of Inl e \<Rightarrow> Quiet | Inr _ \<Rightarrow> ResetTo m) b'"
proof -
  obtain w1 b1 r where r: "refresh E w b = ((w1, b1), r)" by (metis surj_pair)
  have g: "grown b b1" using refresh_grown [of b E w] r by simp
  have c: "cursors_ok b1" using g ok by (rule grown_cursors)
  show ?thesis
  proof (cases "(\<exists>e. r = Inl e) \<or> \<not> (0 \<le> m \<and> m \<le> int (length (entries b1)))")
    case True
    then have "b' = b1 \<and> (\<exists>e. res = Inl e)" using assms(1) r by (auto simp: reset_to_def split: sum.splits if_splits)
    then show ?thesis using g ok by (auto simp: grown_step_ok)
  next
    case False
    then have b': "b' = b1\<lparr> read := m, watermark := m \<rparr>" "res = Inr ()"
      using assms(1) r by (auto simp: reset_to_def split: sum.splits if_splits)
    show ?thesis using g c False unfolding b' step_ok_def cursors_ok_def grown_def by auto
  qed
qed

lemma select_ok:
  assumes "buf_select E who n w b = ((w', b'), res)" and ok: "cursors_ok b"
  shows "step_ok b (case res of Inl e \<Rightarrow> Quiet | Inr out \<Rightarrow> Took out) b'"
proof (cases "consumer b \<noteq> None \<and> consumer b \<noteq> Some who")
  case True
  then have "b' = b \<and> (\<exists>e. res = Inl e)" using assms(1) by (auto simp: buf_select_def)
  then show ?thesis using grown_step_ok [OF grown_refl ok] by auto
next
  case False
  let ?b = "b\<lparr> consumer := Some who \<rparr>"
  obtain w1 b1 r where r: "refresh E w ?b = ((w1, b1), r)" by (metis surj_pair)
  have g: "grown ?b b1" using refresh_grown [of ?b E w] r by simp
  have okb: "cursors_ok ?b" using ok by (simp add: cursors_ok_def)
  have tob: "step_ok ?b ev b2 \<Longrightarrow> step_ok b ev b2" for ev b2
    using False by (auto simp: step_ok_def split: buf_event.splits)
  show ?thesis
  proof (cases r)
    case (Inl e)
    then have "b' = b1 \<and> res = Inl e" using assms(1) r False by (auto simp: buf_select_def)
    then show ?thesis using g okb by (auto intro: tob grown_step_ok)
  next
    case (Inr k)
    obtain out pos where t: "take_loop (lane b1) (entries b1) (nat n) (nat (read b1)) [] = (out, pos)"
      by (metis surj_pair)
    then have "b' = b1\<lparr> read := int pos \<rparr> \<and> res = Inr out" using assms(1) r False Inr by (auto simp: buf_select_def)
    then show ?thesis using selection_ok [OF g okb t] by (auto intro: tob)
  qed
qed

lemma step_step_ok: "buf_step E b ev b' \<Longrightarrow> cursors_ok b \<Longrightarrow> step_ok b ev b'"
proof (induction rule: buf_step.induct)
  case (step_append now e w b w' b' res)
  have "grown b (snd (fst (buf_append E now e w b)))" by (simp add: buf_append_def Let_def write_record_grown)
  then show ?case using step_append by (simp add: grown_step_ok)
next
  case (step_end w b w' b' res)
  have "grown b (snd (fst (mark_data_end E w b)))" by (simp add: mark_data_end_def write_record_grown)
  then show ?case using step_end by (simp add: grown_step_ok)
next
  case (step_refresh w b w' b' res)
  then show ?case using refresh_grown [of b E w] by (simp add: grown_step_ok)
next
  case (step_peek n w b w' b' res)
  then have "b' = snd (fst (refresh E w b))" by (auto simp: peek_def split: prod.splits sum.splits)
  then show ?case using refresh_grown [of b E w] step_peek by (simp add: grown_step_ok)
next
  case (step_backlog now v start u w b w' b' u' res)
  then have "b' = snd (fst (refresh E w b))"
    by (auto simp: backlog_def split: prod.splits sum.splits option.splits)
  then show ?case using refresh_grown [of b E w] step_backlog by (simp add: grown_step_ok)
next
  case (step_reset m w b w' b')
  then show ?case using reset_ok [of E m w b w' b' "Inr ()"] by simp
next
  case (step_reset_error m w b w' b' e)
  then show ?case using reset_ok [of E m w b w' b' "Inl e"] by simp
next
  case (step_select who n w b w' b' out)
  then show ?case using select_ok [of E who n w b w' b' "Inr out"] by simp
next
  case (step_select_error who n w b w' b' e)
  then show ?case using select_ok [of E who n w b w' b' "Inl e"] by simp
qed (auto intro: poll_ok commit_ok)


lemma run_ok:
  assumes "buf_run E b evs b'" and "cursors_ok b"
  shows "cursors_ok b' \<and> prefix (entries b) (entries b') \<and> (ended b \<longrightarrow> ended b') \<and> lane b' = lane b
    \<and> (consumer b \<noteq> None \<longrightarrow> consumer b' = consumer b)"
  using assms
proof (induction rule: buf_run.induct)
  case (run_snoc b evs b1 ev b2)
  then have "step_ok b1 ev b2" by (simp add: step_step_ok)
  then show ?case using run_snoc unfolding step_ok_def by (auto intro: prefix_order.order_trans)
qed simp







lemma open_ok:
  assumes "open_buffer E w batch win ix create mg ex lan = (w1, Inr b)"
  shows "cursors_ok b \<and> read b = 0 \<and> watermark b = 0 \<and> lane b = lan \<and> consumer b = None"
proof -
  obtain w0 idx sh exs b0 n where r: "refresh E w0 \<lparr> index = idx, shard = sh, lane = lan, merging = mg, expected_shards = exs,
      shard_of = [], shard_readers = [], shards_ended = [], batch_size = batch, arrival_window_s = win, entries = [],
      ended = False, consumer = None, read = 0, watermark = 0, polled = 0 \<rparr> = ((w1, b0), Inr n)"
      (is "refresh E w0 ?b = _") and b: "b = b0\<lparr> polled := int n \<rparr>"
    using assms unfolding open_buffer_def
    by (simp split: if_splits sum.splits prod.splits option.splits; fastforce)
  have g: "grown ?b b0" using refresh_grown [of ?b E w0] r by simp
  have n: "n = length (entries b0)" using refresh_count [OF r] .
  have ok: "cursors_ok b0" using grown_cursors [OF g] by (simp add: cursors_ok_def)
  then show ?thesis using g unfolding b n by (simp add: cursors_ok_def grown_def)
qed

section \<open>Properties\<close>

text \<open>
  C18. From the opening of a buffer over every run of calls, in any interleaving with other writers
  of its store, the consumed watermark is at most the read cursor, which is at most the number of
  entries; every entry keeps its position, and a data end stays.
\<close>

theorem buffer_cursors_invariant:
  assumes "open_buffer E w batch win ix create mg ex lan = (w1, Inr b)" and "buf_run E b evs b'"
  shows "cursors_ok b' \<and> prefix (entries b) (entries b') \<and> (ended b \<longrightarrow> ended b')"
  using run_ok [OF assms(2)] open_ok [OF assms(1)] by blast

definition demo_record :: "nat \<Rightarrow> idx_record" where
  "demo_record i = \<lparr> r_schema = Some SCHEMA, r_pos = Some (int i), r_end = False,
     r_entry = Some \<lparr> sample_id = [digit_char i], behavior_version = 3, payload_ref = [], tokens = 7, appended_at = 1,
       provenance = None, sampler_round = None \<rparr>,
     r_shard = None, r_shard_pos = None \<rparr>"

definition demo_env :: benv where
  "demo_env = \<lparr> loads = (\<lambda>x. if x = [1] then Some (demo_record 0) else if x = [2] then Some (demo_record 1) else None),
     dumps = (\<lambda>r. if r_pos r = Some 0 then [1] else [2]), others = (\<lambda>_ w. w) \<rparr>"

definition demo_store :: bstore where
  "demo_store = \<lparr> dir_files = [(INDEX, [1, 10, 2, 10])], objects = None, buffer_shards = False, commits = 0 \<rparr>"

definition demo_buffer :: "buffer_lane option \<Rightarrow> int \<Rightarrow> string option \<Rightarrow> buffer" where
  "demo_buffer lan r who = \<lparr> index = Jsonl \<lparr> path = INDEX, offset = 4, held = 0, uncommitted = False \<rparr>, shard = None,
     lane = lan, merging = False, expected_shards = None, shard_of = [None, None], shard_readers = [], shards_ended = [],
     batch_size = 1, arrival_window_s = 60, entries = map (\<lambda>i. the (r_entry (demo_record i))) [0, 1], ended = False,
     consumer = who, read = r, watermark = 0, polled = 2 \<rparr>"

lemma demo_open: "open_buffer demo_env demo_store 1 60 INDEX True False None lan = (demo_store, Inr (demo_buffer lan 0 None))"
  by (simp add: open_buffer_def index_for_def demo_store_def jsonl_open_def refresh_def ix_read_new_def jsonl_read_new_def
      read_lines_def demo_env_def demo_record_def make_entry_def demo_buffer_def)

lemma demo_refresh: "refresh demo_env demo_store (demo_buffer lan r who) = ((demo_store, demo_buffer lan r who), Inr 2)"
  by (simp add: demo_store_def refresh_def ix_read_new_def jsonl_read_new_def read_lines_def demo_buffer_def)

definition demo_took :: "buffer_lane option \<Rightarrow> (nat \<times> sample_entry) list" where
  "demo_took lan = map (\<lambda>p. (p, the (r_entry (demo_record p)))) (owned lan 0 2)"

lemma demo_select: "buf_select demo_env ''t'' 5 demo_store (demo_buffer lan 0 None)
  = ((demo_store, demo_buffer lan 2 (Some ''t'')), Inr (demo_took lan))"
proof -
  have "take_loop lan (map (\<lambda>i. the (r_entry (demo_record i))) [0, 1]) 5 0 [] = (demo_took lan, 2)"
    by (simp add: take_loop.simps demo_took_def upt_conv_Cons)
  moreover have "(demo_buffer lan 0 None)\<lparr> consumer := Some ''t'' \<rparr> = demo_buffer lan 0 (Some ''t'')"
    by (simp add: demo_buffer_def)
  moreover have "consumer (demo_buffer lan 0 None) = None" by (simp add: demo_buffer_def)
  ultimately show ?thesis
    unfolding buf_select_def by (simp add: demo_refresh) (simp add: demo_buffer_def)
qed

lemma demo_run: "buf_run demo_env (demo_buffer lan 0 None) [Took (demo_took lan)] (demo_buffer lan 2 (Some ''t''))"
  using run_snoc [OF run_nil step_select [OF demo_select]] by simp

theorem buffer_cursors_invariant_witness:
  "cursors_ok (demo_buffer None 2 (Some ''t'')) \<and> prefix (entries (demo_buffer None 0 None)) (entries (demo_buffer None 2 (Some ''t'')))"
  using buffer_cursors_invariant [OF demo_open [of None] demo_run [of None]] by blast




end
