(* ===== verification/Buffer_Log.thy ===== *)
theory Buffer_Log
  imports Buffer_Cursors
begin

text \<open>
  What a reader of an index sees.  The locale \<open>record_log\<close> is the contract of an index towards its
  readers: the store holds a log of records under a name, a read gives the records after the last
  one read, and the log of a store that grew starts with the log before.  The line file, the
  object index and their sum are interpretations.  On top of it: an append is seen by every
  reader, a crash in an append leaves a prefix of it, and the merger continues every shard where
  the merged index ends.
\<close>

section \<open>The contract\<close>

text \<open>The reads of one reader over a list of stores.\<close>

fun read_along ::
  "(bstore \<Rightarrow> 's \<Rightarrow> 's \<times> (buffer_error + idx_record list)) \<Rightarrow> bstore list \<Rightarrow> 's \<Rightarrow> 's \<times> (buffer_error + idx_record list)" where
  "read_along rd [] s = (s, Inr [])"
| "read_along rd (w # ws) s =
     (case rd w s of
        (s1, Inl e) \<Rightarrow> (s1, Inl e)
      | (s1, Inr rs) \<Rightarrow> (case read_along rd ws s1 of (s2, Inl e) \<Rightarrow> (s2, Inl e) | (s2, Inr rs') \<Rightarrow> (s2, Inr (rs @ rs'))))"

locale record_log =
  fixes read_new :: "bstore \<Rightarrow> 's \<Rightarrow> 's \<times> (buffer_error + idx_record list)"
    and name :: "'s \<Rightarrow> 'k"
    and log :: "bstore \<Rightarrow> 'k \<Rightarrow> idx_record list"
    and has_read :: "bstore \<Rightarrow> 's \<Rightarrow> nat \<Rightarrow> bool"
    and grows :: "bstore \<Rightarrow> bstore \<Rightarrow> 'k \<Rightarrow> bool"
  assumes read_suffix: "has_read w s n \<Longrightarrow>
      \<exists>s'. read_new w s = (s', Inr (drop n (log w (name s)))) \<and> has_read w s' (length (log w (name s))) \<and> name s' = name s"
    and has_read_le: "has_read w s n \<Longrightarrow> n \<le> length (log w (name s))"
    and grows_log: "grows w w' (name s) \<Longrightarrow> has_read w s n \<Longrightarrow> has_read w' s n \<and> prefix (log w (name s)) (log w' (name s))"
begin

lemma read_along_log:
  assumes "has_read w s n" and "successively (\<lambda>v v'. grows v v' (name s)) (w # ws)" and "ws \<noteq> []"
  shows "\<exists>s'. read_along read_new ws s = (s', Inr (drop n (log (last ws) (name s))))
    \<and> has_read (last ws) s' (length (log (last ws) (name s))) \<and> name s' = name s
    \<and> prefix (log w (name s)) (log (last ws) (name s))"
  using assms
proof (induction ws arbitrary: w s n)
  case (Cons v ws)
  have g: "grows w v (name s)" and chain: "successively (\<lambda>v v'. grows v v' (name s)) (v # ws)"
    using Cons.prems(2) by auto
  have v: "has_read v s n" and pre: "prefix (log w (name s)) (log v (name s))"
    using grows_log [OF g Cons.prems(1)] by blast+
  obtain s1 where s1: "read_new v s = (s1, Inr (drop n (log v (name s))))" "has_read v s1 (length (log v (name s)))"
    "name s1 = name s" using read_suffix [OF v] by blast
  show ?case
  proof (cases "ws = []")
    case True
    then show ?thesis using s1 pre by auto
  next
    case False
    have chain1: "successively (\<lambda>v v'. grows v v' (name s1)) (v # ws)" using chain s1(3) by simp
    obtain s2 where s2: "read_along read_new ws s1 = (s2, Inr (drop (length (log v (name s))) (log (last ws) (name s))))"
      "has_read (last ws) s2 (length (log (last ws) (name s)))" "name s2 = name s"
      and last: "prefix (log v (name s)) (log (last ws) (name s))"
      using Cons.IH [OF s1(2) chain1 False] s1(3) by auto
    have "drop n (log v (name s)) @ drop (length (log v (name s))) (log (last ws) (name s)) = drop n (log (last ws) (name s))"
      using has_read_le [OF v] last by (auto simp: prefix_def)
    then show ?thesis using s1(1) s2 False prefix_order.order_trans [OF pre last] by auto
  qed
qed simp

end

section \<open>The line file\<close>

definition file_lines :: "bytes \<Rightarrow> bytes list" where
  "file_lines d = butlast (split_on nl d)"

definition unlines :: "bytes list \<Rightarrow> bytes" where
  "unlines ls = concat (map (\<lambda>l. l @ [nl]) ls)"

lemma unlines_simps [simp]: "unlines [] = []" "unlines (l # ls) = l @ nl # unlines ls" "unlines (ks @ ls) = unlines ks @ unlines ls"
  by (simp_all add: unlines_def)

lemma split_on_parts: "split_on sep d = ls \<Longrightarrow> l \<in> set ls \<Longrightarrow> sep \<notin> set l"
  by (induction sep d arbitrary: ls l rule: split_on.induct) (auto split: list.splits if_splits)

lemma split_on_unlines: "\<forall>l \<in> set ls. nl \<notin> set l \<Longrightarrow> split_on nl (unlines ls @ d) = ls @ split_on nl d"
  by (induction ls) (simp_all add: split_on_append)

lemma file_lines_unlines: "\<forall>l \<in> set ls. nl \<notin> set l \<Longrightarrow> file_lines (unlines ls @ d) = ls @ file_lines d"
  by (simp add: file_lines_def split_on_unlines butlast_append)

lemma split_on_join: "unlines (butlast (split_on nl d)) @ last (split_on nl d) = d"
proof (induction d)
  case (Cons x d)
  show ?case
  proof (cases "split_on nl d")
    case (Cons l ls)
    then show ?thesis using Cons.IH by (cases ls) auto
  qed simp
qed simp

lemma file_split:
  obtains tail where "d = unlines (file_lines d) @ tail" and "nl \<notin> set tail" and "\<forall>l \<in> set (file_lines d). nl \<notin> set l"
proof
  show "d = unlines (file_lines d) @ last (split_on nl d)" by (simp add: file_lines_def split_on_join)
  show "nl \<notin> set (last (split_on nl d))" using split_on_parts [OF refl, of "last (split_on nl d)" nl d] by simp
  show "\<forall>l \<in> set (file_lines d). nl \<notin> set l"
    using split_on_parts [OF refl, of _ nl d] by (auto simp: file_lines_def dest: in_set_butlastD)
qed

definition lines_ok :: "benv \<Rightarrow> bytes \<Rightarrow> bool" where
  "lines_ok E d \<longleftrightarrow> list_all (\<lambda>l. loads E l \<noteq> None) (file_lines d)"

lemma lines_from_ok:
  assumes "list_all (\<lambda>l. loads E l \<noteq> None) (butlast ps)" and "ps \<noteq> []"
  shows "lines_from E off ps acc = (off + length (unlines (butlast ps)), Inr (acc @ map (\<lambda>l. the (loads E l)) (butlast ps)))"
  using assms by (induction E off ps acc rule: lines_from.induct) auto

lemma read_lines_ok:
  assumes "lines_ok E d" and n: "n \<le> length (file_lines d)"
  shows "read_lines E (length (unlines (take n (file_lines d)))) d
    = (length (unlines (file_lines d)), Inr (map (\<lambda>l. the (loads E l)) (drop n (file_lines d))))"
proof -
  let ?ls = "file_lines d" and ?off = "length (unlines (take n (file_lines d)))"
  obtain tail where d: "d = unlines ?ls @ tail" and t: "nl \<notin> set tail" and no: "\<forall>l \<in> set ?ls. nl \<notin> set l" by (rule file_split)
  have both: "unlines ?ls = unlines (take n ?ls) @ unlines (drop n ?ls)"
    by (metis append_take_drop_id unlines_simps(3))
  have "drop ?off d = unlines (drop n ?ls) @ tail" by (subst d) (simp add: both)
  moreover have "split_on nl (unlines (drop n ?ls) @ tail) = drop n ?ls @ [tail]"
    using no t by (subst split_on_unlines) (auto dest: in_set_dropD simp: split_on_no_sep)
  ultimately have "split_on nl (drop ?off d) = drop n ?ls @ [tail]" by simp
  then have "read_lines E ?off d = (?off + length (unlines (drop n ?ls)), Inr (map (\<lambda>l. the (loads E l)) (drop n ?ls)))"
    using assms(1) unfolding read_lines_def by (subst lines_from_ok) (auto simp: lines_ok_def list_all_iff dest: in_set_dropD)
  then show ?thesis using both by simp
qed

definition jsonl_log :: "benv \<Rightarrow> bstore \<Rightarrow> string \<Rightarrow> idx_record list" where
  "jsonl_log E w p = (case dict_get (dir_files w) p of None \<Rightarrow> [] | Some d \<Rightarrow> map (\<lambda>l. the (loads E l)) (file_lines d))"

definition jsonl_has_read :: "benv \<Rightarrow> bstore \<Rightarrow> jsonl_index \<Rightarrow> nat \<Rightarrow> bool" where
  "jsonl_has_read E w j n \<longleftrightarrow> (case dict_get (dir_files w) (path j) of
     None \<Rightarrow> n = 0 \<and> offset j = 0
   | Some d \<Rightarrow> lines_ok E d \<and> n \<le> length (file_lines d) \<and> offset j = length (unlines (take n (file_lines d))))"

text \<open>The file of a grown store has the lines of the file before, then more; it may be new.\<close>

definition jsonl_grows :: "benv \<Rightarrow> bstore \<Rightarrow> bstore \<Rightarrow> string \<Rightarrow> bool" where
  "jsonl_grows E w w' p \<longleftrightarrow> (case dict_get (dir_files w') p of
     None \<Rightarrow> dict_get (dir_files w) p = None
   | Some d' \<Rightarrow> lines_ok E d' \<and> (case dict_get (dir_files w) p of None \<Rightarrow> True | Some d \<Rightarrow> prefix (file_lines d) (file_lines d')))"

interpretation jl: record_log "jsonl_read_new E" path "jsonl_log E" "jsonl_has_read E" "jsonl_grows E" for E
proof
  show "\<exists>s'. jsonl_read_new E w s = (s', Inr (drop n (jsonl_log E w (path s))))
      \<and> jsonl_has_read E w s' (length (jsonl_log E w (path s))) \<and> path s' = path s"
    if "jsonl_has_read E w s n" for w s n
    using that read_lines_ok [of E _ n]
    by (auto simp: jsonl_read_new_def jsonl_log_def jsonl_has_read_def drop_map split: option.splits)
  show "n \<le> length (jsonl_log E w (path s))" if "jsonl_has_read E w s n" for w s n
    using that by (auto simp: jsonl_log_def jsonl_has_read_def split: option.splits)
  show "jsonl_has_read E w' s n \<and> prefix (jsonl_log E w (path s)) (jsonl_log E w' (path s))"
    if "jsonl_grows E w w' (path s)" and "jsonl_has_read E w s n" for w w' s n
    using that by (auto simp: jsonl_grows_def jsonl_has_read_def jsonl_log_def prefix_def split: option.splits)
qed

section \<open>The object index\<close>

lemma append_less [simp]: "(ps @ xs < ps @ ys) = (xs < (ys :: 'a :: linorder list))"
  by (induction ps) auto

lemma less_append: "length xs = length ys \<Longrightarrow> xs < ys \<Longrightarrow> xs @ us < ys @ (vs :: 'a :: linorder list)"
  by (induction xs ys rule: list_induct2) auto

lemma digit_char_less: "a < b \<Longrightarrow> b < 10 \<Longrightarrow> digit_char a < digit_char b"
  by (simp add: digit_char_def less_char_def)

lemma length_pad_nat [simp]: "length (pad_nat d n) = d"
  by (induction d arbitrary: n) auto

lemma pad_nat_less: "m < n \<Longrightarrow> n < 10 ^ d \<Longrightarrow> pad_nat d m < pad_nat d n"
proof (induction d arbitrary: m n)
  case (Suc d)
  show ?case
  proof (cases "m div 10 = n div 10")
    case True
    then have "m mod 10 < n mod 10" using Suc.prems(1) by (metis div_mult_mod_eq nat_add_left_cancel_less)
    then show ?thesis using True by (simp add: digit_char_less)
  next
    case False
    then have "m div 10 < n div 10" using Suc.prems(1) by (simp add: div_le_mono order_less_le)
    moreover have "n div 10 < 10 ^ d" using Suc.prems(2) by (simp add: less_mult_imp_div_less mult.commute)
    ultimately show ?thesis using Suc.IH by (simp add: less_append)
  qed
qed simp

abbreviation pos_limit :: nat where
  "pos_limit \<equiv> 10 ^ 12"

lemma obj_key_less: "i < j \<Longrightarrow> j < pos_limit \<Longrightarrow> obj_key p i < obj_key p j"
  unfolding obj_key_def by (simp add: less_append pad_nat_less del: pad_nat.simps)

lemma obj_key_less_iff: "i < pos_limit \<Longrightarrow> j < pos_limit \<Longrightarrow> obj_key p i < obj_key p j \<longleftrightarrow> i < j"
  by (metis obj_key_less less_asym not_less_iff_gr_or_eq)

lemma obj_key_inject: "i < pos_limit \<Longrightarrow> j < pos_limit \<Longrightarrow> obj_key p i = obj_key p j \<longleftrightarrow> i = j"
  by (metis obj_key_less less_irrefl linorder_neqE_nat)

lemma prefixed_obj_key [simp]: "prefixed p (obj_key p i)"
  by (simp add: prefixed_def obj_key_def)

lemma Nil_less_obj_key [simp]: "[] < obj_key p i"
  by (cases "obj_key p i") (simp_all add: obj_key_def)

text \<open>The keys under the prefix are those of the positions below a count, each with a readable record.\<close>

definition obj_count :: "bstore \<Rightarrow> string \<Rightarrow> nat" where
  "obj_count w p = length (filter (prefixed p) (map fst (objs w)))"

definition obj_ok :: "benv \<Rightarrow> bstore \<Rightarrow> string \<Rightarrow> bool" where
  "obj_ok E w p \<longleftrightarrow> distinct (map fst (objs w)) \<and> obj_count w p \<le> pos_limit
     \<and> {k \<in> set (map fst (objs w)). prefixed p k} = obj_key p ` {..<obj_count w p}
     \<and> (\<forall>i < obj_count w p. \<exists>raw. dict_get (objs w) (obj_key p i) = Some raw \<and> loads E raw \<noteq> None)"

definition obj_record :: "benv \<Rightarrow> bstore \<Rightarrow> string \<Rightarrow> nat \<Rightarrow> idx_record" where
  "obj_record E w p i = the (loads E (the (dict_get (objs w) (obj_key p i))))"

definition object_log :: "benv \<Rightarrow> bstore \<Rightarrow> string \<Rightarrow> idx_record list" where
  "object_log E w p = map (obj_record E w p) [0..<obj_count w p]"

abbreviation read_key :: "string \<Rightarrow> nat \<Rightarrow> string" where
  "read_key p n \<equiv> (if n = 0 then [] else obj_key p (n - 1))"

definition object_has_read :: "benv \<Rightarrow> bstore \<Rightarrow> object_index \<Rightarrow> nat \<Rightarrow> bool" where
  "object_has_read E w o' n \<longleftrightarrow> obj_ok E w (object_index.prefix o') \<and> n \<le> obj_count w (object_index.prefix o')
     \<and> next_pos o' = n \<and> last_key o' = read_key (object_index.prefix o') n"

definition object_grows :: "benv \<Rightarrow> bstore \<Rightarrow> bstore \<Rightarrow> string \<Rightarrow> bool" where
  "object_grows E w w' p \<longleftrightarrow> obj_ok E w' p
     \<and> (\<forall>k raw. prefixed p k \<and> dict_get (objs w) k = Some raw \<longrightarrow> dict_get (objs w') k = Some raw)"

lemma obj_list_keys:
  assumes ok: "obj_ok E w p" and n: "n \<le> obj_count w p"
  shows "obj_list w p (read_key p n) = map (obj_key p) [n..<obj_count w p]"
proof (rule sorted_distinct_set_unique)
  let ?N = "obj_count w p"
  have lim: "?N \<le> pos_limit" using ok by (simp add: obj_ok_def)
  show "sorted (obj_list w p (read_key p n))" by (simp add: obj_list_def)
  show "distinct (obj_list w p (read_key p n))" using ok by (simp add: obj_list_def obj_ok_def)
  have "sorted_wrt (<) (map (obj_key p) [n..<?N])"
    using lim by (auto simp: sorted_wrt_iff_nth_less intro!: obj_key_less)
  then show "sorted (map (obj_key p) [n..<?N])" and "distinct (map (obj_key p) [n..<?N])"
    by (simp_all add: strict_sorted_iff)
  have after: "read_key p n < obj_key p i \<longleftrightarrow> n \<le> i" if "i < ?N" for i
    using that n lim by (cases n) (auto simp: obj_key_less_iff)
  have keys: "{k \<in> set (map fst (objs w)). prefixed p k} = obj_key p ` {..<?N}" using ok by (simp add: obj_ok_def)
  have "set (obj_list w p (read_key p n)) = {k \<in> {k \<in> set (map fst (objs w)). prefixed p k}. read_key p n < k}"
    by (auto simp: obj_list_def)
  also have "\<dots> = obj_key p ` {i. i < ?N \<and> n \<le> i}" unfolding keys using after by blast
  also have "\<dots> = set (map (obj_key p) [n..<?N])" by auto
  finally show "set (obj_list w p (read_key p n)) = set (map (obj_key p) [n..<?N])" .
qed

lemma obj_ok_raw: "obj_ok E w p \<Longrightarrow> i < obj_count w p \<Longrightarrow> \<exists>raw. dict_get (objs w) (obj_key p i) = Some raw \<and> loads E raw \<noteq> None"
  unfolding obj_ok_def by blast

lemma object_read_ok:
  assumes ok: "obj_ok E w p" and "N \<le> obj_count w p" and "n \<le> N"
    and "object_index.prefix o' = p" and "next_pos o' = n" and "last_key o' = read_key p n"
  shows "object_read E w (map (obj_key p) [n..<N]) o' acc
    = (\<lparr> object_index.prefix = p, next_pos = N, last_key = read_key p N \<rparr>, Inr (acc @ map (obj_record E w p) [n..<N]))"
  using assms(2-)
proof (induction "N - n" arbitrary: n o' acc)
  case 0
  then show ?case by simp
next
  case (Suc k)
  then have n: "n < N" by simp
  obtain raw r where raw: "dict_get (objs w) (obj_key p n) = Some raw" "loads E raw = Some r"
    using obj_ok_raw [OF ok] n Suc.prems(1) by (metis option.exhaust order_less_le_trans)
  have r: "r = obj_record E w p n" using raw by (simp add: obj_record_def)
  have "object_read E w (map (obj_key p) [Suc n..<N]) (o'\<lparr> last_key := obj_key p n, next_pos := next_pos o' + 1 \<rparr>) (acc @ [r])
      = (\<lparr> object_index.prefix = p, next_pos = N, last_key = read_key p N \<rparr>,
         Inr ((acc @ [r]) @ map (obj_record E w p) [Suc n..<N]))"
    using Suc by (intro Suc.hyps(1)) auto
  then show ?case using n raw Suc.prems by (simp add: upt_conv_Cons r)
qed

lemma object_grows_log:
  assumes ok: "obj_ok E w p" and g: "object_grows E w w' p"
  shows "obj_count w p \<le> obj_count w' p \<and> prefix (object_log E w p) (object_log E w' p)"
proof -
  let ?N = "obj_count w p" and ?M = "obj_count w' p"
  have ok': "obj_ok E w' p" using g by (simp add: object_grows_def)
  have same: "dict_get (objs w') (obj_key p i) = dict_get (objs w) (obj_key p i)" if i: "i < ?N" for i
  proof -
    obtain raw where raw: "dict_get (objs w) (obj_key p i) = Some raw" using obj_ok_raw [OF ok i] by blast
    then show ?thesis using g by (auto simp: object_grows_def)
  qed
  have le: "?N \<le> ?M"
  proof (rule ccontr)
    assume "\<not> ?N \<le> ?M"
    then have M: "?M < ?N" by simp
    obtain raw where "dict_get (objs w) (obj_key p ?M) = Some raw" using obj_ok_raw [OF ok M] by blast
    then have "obj_key p ?M \<in> set (map fst (objs w'))" using same [OF M] by (force dest: map_of_SomeD)
    then have "obj_key p ?M \<in> obj_key p ` {..<?M}" using ok' prefixed_obj_key [of p ?M] unfolding obj_ok_def by blast
    moreover have "?N \<le> pos_limit" using ok by (simp add: obj_ok_def)
    ultimately show False using M by (auto simp: obj_key_inject)
  qed
  have "object_log E w' p = map (obj_record E w' p) [0..<?N] @ map (obj_record E w' p) [?N..<?M]"
    using upt_add_eq_append [of 0 ?N "?M - ?N"] le by (simp add: object_log_def flip: map_append)
  moreover have "map (obj_record E w' p) [0..<?N] = object_log E w p"
    using same by (simp add: object_log_def obj_record_def)
  ultimately show ?thesis using le by simp
qed

interpretation ol: record_log "object_read_new E" object_index.prefix "object_log E" "object_has_read E" "object_grows E" for E
proof
  show "\<exists>s'. object_read_new E w s = (s', Inr (drop n (object_log E w (object_index.prefix s))))
      \<and> object_has_read E w s' (length (object_log E w (object_index.prefix s))) \<and> object_index.prefix s' = object_index.prefix s"
    if h: "object_has_read E w s n" for w s n
  proof -
    let ?p = "object_index.prefix s"
    have ok: "obj_ok E w ?p" and n: "n \<le> obj_count w ?p" and s: "next_pos s = n" "last_key s = read_key ?p n"
      using h by (auto simp: object_has_read_def)
    have "object_read_new E w s = object_read E w (map (obj_key ?p) [n..<obj_count w ?p]) s []"
      unfolding object_read_new_def s(2) obj_list_keys [OF ok n] ..
    also have "\<dots> = (\<lparr> object_index.prefix = ?p, next_pos = obj_count w ?p, last_key = read_key ?p (obj_count w ?p) \<rparr>,
        Inr ([] @ map (obj_record E w ?p) [n..<obj_count w ?p]))"
      using ok n s by (intro object_read_ok) auto
    finally show ?thesis using ok by (simp add: object_log_def object_has_read_def drop_map)
  qed
  show "n \<le> length (object_log E w (object_index.prefix s))" if "object_has_read E w s n" for w s n
    using that by (simp add: object_log_def object_has_read_def)
  show "object_has_read E w' s n
      \<and> Sublist.prefix (object_log E w (object_index.prefix s)) (object_log E w' (object_index.prefix s))"
    if g: "object_grows E w w' (object_index.prefix s)" and h: "object_has_read E w s n" for w w' s n
    using object_grows_log [OF _ g] g h by (auto simp: object_has_read_def object_grows_def)
qed

section \<open>Either layout\<close>

fun ix_name :: "index \<Rightarrow> string + string" where
  "ix_name (Jsonl j) = Inl (path j)"
| "ix_name (Objects o') = Inr (object_index.prefix o')"

definition ix_log :: "benv \<Rightarrow> bstore \<Rightarrow> string + string \<Rightarrow> idx_record list" where
  "ix_log E w k = (case k of Inl p \<Rightarrow> jsonl_log E w p | Inr p \<Rightarrow> object_log E w p)"

fun ix_has_read :: "benv \<Rightarrow> bstore \<Rightarrow> index \<Rightarrow> nat \<Rightarrow> bool" where
  "ix_has_read E w (Jsonl j) n = jsonl_has_read E w j n"
| "ix_has_read E w (Objects o') n = object_has_read E w o' n"

definition ix_grows :: "benv \<Rightarrow> bstore \<Rightarrow> bstore \<Rightarrow> string + string \<Rightarrow> bool" where
  "ix_grows E w w' k = (case k of Inl p \<Rightarrow> jsonl_grows E w w' p | Inr p \<Rightarrow> object_grows E w w' p)"

interpretation il: record_log "ix_read_new E" ix_name "ix_log E" "ix_has_read E" "ix_grows E" for E
proof
  show "\<exists>s'. ix_read_new E w s = (s', Inr (drop n (ix_log E w (ix_name s))))
      \<and> ix_has_read E w s' (length (ix_log E w (ix_name s))) \<and> ix_name s' = ix_name s"
    if h: "ix_has_read E w s n" for w s n
  proof (cases s)
    case (Jsonl j)
    obtain j' where "jsonl_read_new E w j = (j', Inr (drop n (jsonl_log E w (path j))))"
      "jsonl_has_read E w j' (length (jsonl_log E w (path j)))" "path j' = path j"
      using jl.read_suffix [of E w j n] h Jsonl by auto
    then show ?thesis by (intro exI [of _ "Jsonl j'"]) (simp add: Jsonl ix_read_new_def ix_log_def)
  next
    case (Objects o')
    obtain o1 where "object_read_new E w o' = (o1, Inr (drop n (object_log E w (object_index.prefix o'))))"
      "object_has_read E w o1 (length (object_log E w (object_index.prefix o')))" "object_index.prefix o1 = object_index.prefix o'"
      using ol.read_suffix [of E w o' n] h Objects by auto
    then show ?thesis by (intro exI [of _ "Objects o1"]) (simp add: Objects ix_read_new_def ix_log_def)
  qed
  show "n \<le> length (ix_log E w (ix_name s))" if "ix_has_read E w s n" for w s n
    using that jl.has_read_le ol.has_read_le by (cases s) (auto simp: ix_log_def)
  show "ix_has_read E w' s n \<and> Sublist.prefix (ix_log E w (ix_name s)) (ix_log E w' (ix_name s))"
    if "ix_grows E w w' (ix_name s)" and "ix_has_read E w s n" for w w' s n
    using that jl.grows_log ol.grows_log by (cases s) (auto simp: ix_log_def ix_grows_def)
qed

section \<open>Appends and crashes\<close>

text \<open>The JSON codec on some records: \<open>loads\<close> inverts \<open>dumps\<close>, whose text has no newline.\<close>

definition record_codec :: "benv \<Rightarrow> idx_record list \<Rightarrow> bool" where
  "record_codec E rs \<longleftrightarrow> (\<forall>r \<in> set rs. loads E (dumps E r) = Some r \<and> nl \<notin> set (dumps E r))"

definition numbered :: "nat \<Rightarrow> idx_record list \<Rightarrow> idx_record list" where
  "numbered N rs = map (\<lambda>(i, r). r\<lparr> r_pos := Some (int (N + i)) \<rparr>) (zip [0..<length rs] rs)"

lemma encode_unlines: "encode_records E rs = unlines (map (dumps E) rs)"
  by (simp add: encode_records_def unlines_def comp_def)

lemma file_lines_append:
  assumes "\<forall>l \<in> set ls. nl \<notin> set l" and "nl \<notin> set t"
  shows "file_lines (unlines (file_lines d) @ unlines ls @ t) = file_lines d @ ls"
proof -
  have no: "\<forall>l \<in> set (file_lines d). nl \<notin> set l" by (rule file_split [of d])
  have "file_lines (unlines ls @ t) = ls" using assms by (simp add: file_lines_unlines) (simp add: file_lines_def split_on_no_sep)
  then show ?thesis using file_lines_unlines [OF no] by simp
qed

lemma take_unlines: "\<exists>q t. take k (unlines ls) = unlines (take q ls) @ t \<and> prefix t (unlines (drop q ls)) \<and> nl \<notin> set t"
  if "\<forall>l \<in> set ls. nl \<notin> set l"
  using that
proof (induction ls arbitrary: k)
  case (Cons l ls)
  show ?case
  proof (cases "k \<le> length l")
    case True
    then show ?thesis using Cons.prems
      by (intro exI [of _ 0] exI [of _ "take k l"]) (auto dest: in_set_takeD intro: take_is_prefix prefix_order.order_trans)
  next
    case False
    then obtain m where k: "k = Suc (length l + m)" by (metis add_Suc_right less_natE not_le)
    obtain q t where "take m (unlines ls) = unlines (take q ls) @ t" "prefix t (unlines (drop q ls))" "nl \<notin> set t"
      using Cons.IH [of m] Cons.prems by auto
    then show ?thesis by (intro exI [of _ "Suc q"] exI [of _ t]) (simp add: k)
  qed
qed simp

lemma jsonl_append_many_ok:
  assumes d: "dict_get (dir_files w) (path j) = Some d"
    and h: "jsonl_has_read E w j n" and app: "jsonl_append_many E tk produce w j b = ((w', j', b'), Inr ())"
  shows "\<exists>b1 new. produce b1 = Inr new \<and> dict_get (dir_files w') (path j) = Some (unlines (file_lines d) @ encode_records E new)"
proof -
  let ?off = "length (unlines (file_lines d))"
  have off: "read_lines E (offset j) d = (?off, Inr (map (\<lambda>l. the (loads E l)) (drop n (file_lines d))))"
    using h d read_lines_ok [of E d n] by (simp add: jsonl_has_read_def)
  obtain tail where split: "d = unlines (file_lines d) @ tail" by (rule file_split)
  have cut: "take ?off d = unlines (file_lines d)" by (subst (2) split) simp
  show ?thesis
    using app unfolding jsonl_append_many_def
    by (auto simp: d off cut Let_def split: prod.splits sum.splits if_splits) blast+
qed


text \<open>What a reader gets from a store whose file has more lines after those it had.\<close>

lemma read_more:
  assumes codec: "record_codec E new" and d: "dict_get (dir_files w) p = Some d"
    and h: "jsonl_has_read E w rd m" and p: "path rd = p" and t: "nl \<notin> set t"
    and d': "dict_get (dir_files w') p = Some (unlines (file_lines d) @ encode_records E new @ t)"
  shows "snd (jsonl_read_new E w' rd) = Inr (drop m (jsonl_log E w p) @ new)"
proof -
  let ?d = "unlines (file_lines d) @ encode_records E new @ t"
  have lines: "file_lines ?d = file_lines d @ map (dumps E) new"
    unfolding encode_unlines using codec t by (intro file_lines_append) (auto simp: record_codec_def)
  have ok: "lines_ok E d" and m: "m \<le> length (file_lines d)" using h d p by (auto simp: jsonl_has_read_def)
  have "lines_ok E ?d" using ok codec by (auto simp: lines_ok_def lines record_codec_def list_all_iff)
  then have "jsonl_grows E w w' p" using d d' lines by (simp add: jsonl_grows_def)
  then have "jsonl_has_read E w' rd m" using jl.grows_log [of E w w' rd m] h p by simp
  then have "snd (jsonl_read_new E w' rd) = Inr (drop m (jsonl_log E w' p))" using jl.read_suffix [of E w' rd m] p by auto
  moreover have "jsonl_log E w' p = jsonl_log E w p @ new"
    using codec d d' by (simp add: jsonl_log_def lines record_codec_def comp_def map_idI)
  moreover have "m \<le> length (jsonl_log E w p)" using d m by (simp add: jsonl_log_def)
  ultimately show ?thesis by simp
qed

section \<open>Properties\<close>

text \<open>
  C9. An append of records to the line file is durable and atomic for every reader.  After it, each
  reader of the file, wherever it stood, reads the records it had left and then exactly the appended
  ones, numbered from the length of the index.  A crash while the bytes are written leaves a
  file from which each reader reads a prefix of the appended records, whatever the torn line is.
\<close>

theorem append_read_back:
  assumes codec: "\<And>N. record_codec E (numbered N rs)" and j: "index b = Jsonl j" and d: "dict_get (dir_files w) (path j) = Some d"
    and h: "jsonl_has_read E w j n" and app: "write_records E rs w b = ((w', b'), Inr ())"
  shows "\<exists>N d' new. new = numbered N rs \<and> dict_get (dir_files w') (path j) = Some d'
    \<and> (\<forall>rd m. path rd = path j \<and> jsonl_has_read E w rd m \<longrightarrow>
        snd (jsonl_read_new E w' rd) = Inr (drop m (jsonl_log E w (path j)) @ new)
        \<and> (\<forall>k \<ge> length (unlines (file_lines d)). \<exists>q.
             snd (jsonl_read_new E (w\<lparr> dir_files := dict_set (path j) (take k d') (dir_files w) \<rparr>) rd)
               = Inr (drop m (jsonl_log E w (path j)) @ take q new)))"
proof -
  obtain j' b2 where "jsonl_append_many E absorb (number_records rs) w j b = ((w', j', b2), Inr ())"
    using app by (auto simp: write_records_def j split: prod.splits)
  from jsonl_append_many_ok [OF d h this] obtain b1 new where
    new: "number_records rs b1 = Inr new" and d': "dict_get (dir_files w') (path j) = Some (unlines (file_lines d) @ encode_records E new)"
    by blast
  then have N: "new = numbered (length (entries b1)) rs" by (simp add: number_records_def numbered_def split: if_splits)
  then have codec: "record_codec E new" using codec by simp
  let ?d = "unlines (file_lines d) @ encode_records E new"
  have "\<exists>q. snd (jsonl_read_new E (w\<lparr> dir_files := dict_set (path j) (take k ?d) (dir_files w) \<rparr>) rd)
      = Inr (drop m (jsonl_log E w (path j)) @ take q new)"
    if p: "path rd = path j" and r: "jsonl_has_read E w rd m" and k: "length (unlines (file_lines d)) \<le> k" for rd m k
  proof -
    have "\<forall>l \<in> set (map (dumps E) new). nl \<notin> set l" using codec by (auto simp: record_codec_def)
    from take_unlines [OF this] obtain q t where
      "take (k - length (unlines (file_lines d))) (encode_records E new) = encode_records E (take q new) @ t" and t: "nl \<notin> set t"
      by (metis encode_unlines take_map)
    then have "take k ?d = unlines (file_lines d) @ encode_records E (take q new) @ t" using k by simp
    moreover have "record_codec E (take q new)" using codec by (auto simp: record_codec_def dest: in_set_takeD)
    ultimately show ?thesis by (intro exI [of _ q] read_more [OF _ d r p t]) simp_all
  qed
  moreover have "snd (jsonl_read_new E w' rd) = Inr (drop m (jsonl_log E w (path j)) @ new)"
    if "path rd = path j" and "jsonl_has_read E w rd m" for rd m
    using read_more [OF codec d that(2,1), of "[]" w'] d' by simp
  ultimately show ?thesis using N d'
    by (intro exI [of _ "length (entries b1)"] exI [of _ ?d] exI [of _ new]) blast
qed


text \<open>A codec that writes the position of one record as that many bytes.\<close>

definition unary_env :: benv where
  "unary_env = \<lparr> loads = (\<lambda>x. Some ((demo_record 0)\<lparr> r_pos := Some (int (length x)) \<rparr>)),
     dumps = (\<lambda>r. replicate (nat (the (r_pos r))) 49), others = (\<lambda>_ w. w) \<rparr>"

definition torn_store :: "bytes \<Rightarrow> nat \<Rightarrow> bstore" where
  "torn_store d n = \<lparr> dir_files = [(INDEX, d)], objects = None, buffer_shards = False, commits = n \<rparr>"

abbreviation fresh_index :: jsonl_index where
  "fresh_index \<equiv> \<lparr> path = INDEX, offset = 0, held = 0, uncommitted = False \<rparr>"

definition fresh_buffer :: buffer where
  "fresh_buffer = (demo_buffer None 0 None)\<lparr> index := Jsonl fresh_index, shard_of := [], entries := [] \<rparr>"

lemma torn_write:
  "write_records unary_env [demo_record 0] (torn_store [10, 49, 49] 0) fresh_buffer
    = ((torn_store [10, 49, 10] 1, fresh_buffer\<lparr> index := Jsonl (fresh_index\<lparr> offset := 3 \<rparr>), shard_of := [None, None],
         entries := [the (r_entry (demo_record 0)), the (r_entry (demo_record 0))] \<rparr>), Inr ())"
  by (simp add: write_records_def fresh_buffer_def demo_buffer_def jsonl_append_many_def torn_store_def read_lines_def
      unary_env_def make_entry_def demo_record_def number_records_def encode_records_def)

theorem append_read_back_witness:
  "\<exists>new. snd (jsonl_read_new unary_env (torn_store [10, 49, 10] 1) fresh_index)
     = Inr (jsonl_log unary_env (torn_store [10, 49, 49] 0) INDEX @ new)"
proof -
  have codec: "record_codec unary_env (numbered N [demo_record 0])" for N
    by (simp add: record_codec_def numbered_def unary_env_def)
  have h: "jsonl_has_read unary_env (torn_store [10, 49, 49] 0) fresh_index 0"
    by (simp add: jsonl_has_read_def torn_store_def lines_ok_def unary_env_def list_all_iff)
  have "dict_get (dir_files (torn_store [10, 49, 49] 0)) (path fresh_index) = Some [10, 49, 49]"
    and "index fresh_buffer = Jsonl fresh_index" by (simp_all add: torn_store_def fresh_buffer_def)
  from append_read_back [OF codec this(2,1) h torn_write] h show ?thesis by fastforce
qed


text \<open>
  C17. A reader opened on an index, in either layout, reads every record of the log exactly once and in
  order, however its reads interleave with the appends of other processes.
\<close>

theorem index_read_once:
  assumes "index_for w0 ix create = Inr (w, idx)" and "ix_has_read E w idx 0"
    and "successively (\<lambda>v v'. ix_grows E v v' (ix_name idx)) (w # ws)" and "ws \<noteq> []"
  shows "\<exists>idx'. read_along (ix_read_new E) ws idx = (idx', Inr (ix_log E (last ws) (ix_name idx)))"
  using il.read_along_log [OF assms(2,3,4)] by auto

theorem index_read_once_witness:
  "\<exists>idx'. read_along (ix_read_new unary_env) [torn_store [10, 49, 49] 0, torn_store [10, 49, 10] 1] (Jsonl fresh_index)
     = (idx', Inr [(demo_record 0)\<lparr> r_pos := Some 0 \<rparr>, (demo_record 0)\<lparr> r_pos := Some 1 \<rparr>])"
proof -
  let ?ws = "[torn_store [10, 49, 49] 0, torn_store [10, 49, 10] 1]"
  have log: "ix_log unary_env (last ?ws) (ix_name (Jsonl fresh_index)) = [(demo_record 0)\<lparr> r_pos := Some 0 \<rparr>, (demo_record 0)\<lparr> r_pos := Some 1 \<rparr>]"
    by (simp add: ix_log_def jsonl_log_def torn_store_def file_lines_def unary_env_def)
  have "index_for (torn_store [10, 49, 49] 0) INDEX True = Inr (torn_store [10, 49, 49] 0, Jsonl fresh_index)"
    by (simp add: index_for_def torn_store_def jsonl_open_def)
  moreover have "ix_has_read unary_env (torn_store [10, 49, 49] 0) (Jsonl fresh_index) 0"
    by (simp add: jsonl_has_read_def torn_store_def lines_ok_def unary_env_def list_all_iff)
  moreover have "successively (\<lambda>v v'. ix_grows unary_env v v' (ix_name (Jsonl fresh_index))) (torn_store [10, 49, 49] 0 # ?ws)"
    by (simp add: ix_grows_def jsonl_grows_def torn_store_def lines_ok_def unary_env_def list_all_iff file_lines_def)
  ultimately have "\<exists>idx'. read_along (ix_read_new unary_env) ?ws (Jsonl fresh_index)
      = (idx', Inr (ix_log unary_env (last ?ws) (ix_name (Jsonl fresh_index))))"
    by (rule index_read_once) simp
  then show ?thesis unfolding log .
qed

end
