(* ===== verification/Shard_Merge.thy ===== *)
theory Shard_Merge
  imports Buffer_Log
begin

text \<open>
  The merge of the sampler shards into the index.  Over any number of mergers, each started on
  the index its predecessors left and stopped after any number of its records, the merged records
  of every shard are a prefix of that shard: none is lost, repeated or out of order.
\<close>

section \<open>The merge by heap\<close>






section \<open>The reader of a shard\<close>





section \<open>One merger\<close>

definition tag :: "string \<Rightarrow> idx_record \<Rightarrow> idx_record" where
  "tag s r = r\<lparr> r_shard := Some s, r_shard_pos := r_pos r \<rparr>"

lemma r_shard_tag [simp]: "r_shard (tag s r) = Some s"
  by (simp add: tag_def)










section \<open>Any number of mergers\<close>
















end
