(* ===== verification/Trainer_Scheduler.thy ===== *)
theory Trainer_Scheduler
  imports Sample_Buffer
begin

text \<open>
  When a trainer starts and stops: the lifecycle states of \<open>yeto/rl/engine/trainer_lifecycle.py\<close>
  and the ski-rental scheduler of \<open>yeto/rl/engine/trainer_scheduler.py\<close> over the backlog of the
  sample buffer, with its journal record and its restore after a restart of the head.

  Times are rationals and the clock is an argument of each decision.  The journal of the
  controller is the list of its records; records of other kinds carry their kind only.
\<close>

section \<open>Lifecycle\<close>

datatype lifecycle_state = COLD | ACQUIRING | JOINING | RESTORING | WARMING | TRAINING | DRAINING | STOPPED

definition lifecycle_order :: "lifecycle_state list" where
  "lifecycle_order = [COLD, ACQUIRING, JOINING, RESTORING, WARMING, TRAINING, DRAINING, STOPPED]"

definition allowed_transition :: "lifecycle_state \<Rightarrow> lifecycle_state \<Rightarrow> bool" where
  "allowed_transition old new =
     (if new = STOPPED then old \<noteq> STOPPED
      else index_of new lifecycle_order = index_of old lifecycle_order + 1)"

datatype leave_reason = FINISHED | LEASE_EXPIRED | LEAVE_STOPPED | PREEMPTED | INFRA_FAILED | TRAINING_FAILED
  | CONFIG_MISMATCH | FENCED

datatype decision = Start | Hold | Stop leave_reason

record trainer_handle =
  h_incarnation :: int
  h_state :: lifecycle_state
  history :: "(lifecycle_state \<times> rat) list"

datatype lifecycle_error = BadTransition int lifecycle_state lifecycle_state

definition TrainerHandle :: "int \<Rightarrow> rat \<Rightarrow> trainer_handle" where
  "TrainerHandle inc now = \<lparr> h_incarnation = inc, h_state = COLD, history = [(COLD, now)] \<rparr>"

definition handle_advance :: "rat \<Rightarrow> lifecycle_state \<Rightarrow> trainer_handle \<Rightarrow> lifecycle_error + trainer_handle" where
  "handle_advance now new h =
     (if \<not> allowed_transition (h_state h) new then Inl (BadTransition (h_incarnation h) (h_state h) new)
      else Inr (h\<lparr> h_state := new, history := history h @ [(new, now)] \<rparr>))"

text \<open>\<open>AlwaysOnScheduler\<close>: start once.\<close>

definition always_on_decide :: "backlog_stats \<Rightarrow> lifecycle_state \<Rightarrow> decision" where
  "always_on_decide b st =
     (if st = COLD then Start
      else if data_ended b \<and> samples b = 0 then Stop FINISHED
      else Hold)"

section \<open>The ski-rental scheduler\<close>

record s1_config =
  a_hard :: int
  cfg_start_seconds :: rat
  alpha :: "rat option"
  batch_seconds :: "rat option"
  fixed_start_seconds :: bool

datatype config_error = BadAHard int | BadStartSeconds rat | BadAlpha rat | AlphaNeedsBatchSeconds

definition S1Config :: "s1_config \<Rightarrow> config_error + s1_config" where
  "S1Config c =
     (if a_hard c < 0 then Inl (BadAHard (a_hard c))
      else if cfg_start_seconds c < 0 then Inl (BadStartSeconds (cfg_start_seconds c))
      else (case alpha c of
          None \<Rightarrow> Inr c
        | Some a \<Rightarrow>
            if \<not> (0 < a \<and> a \<le> 1) then Inl (BadAlpha a)
            else (case batch_seconds c of
                None \<Rightarrow> Inl AlphaNeedsBatchSeconds
              | Some t \<Rightarrow> if t \<le> 0 then Inl AlphaNeedsBatchSeconds else Inr c)))"

text \<open>A start-phase event: its name and its \<open>total_s\<close>.\<close>

type_synonym start_event = "string \<times> rat option"

definition last_start_seconds :: "start_event list \<Rightarrow> rat option" where
  "last_start_seconds evs = foldl (\<lambda>l (e, t). if e = ''trainer_start_summary'' \<and> t \<noteq> None then t else l) None evs"

definition start_seconds :: "s1_config \<Rightarrow> start_event list option \<Rightarrow> rat" where
  "start_seconds c evs =
     (let measured = (if fixed_start_seconds c then None else (case evs of None \<Rightarrow> None | Some es \<Rightarrow> last_start_seconds es))
      in case measured of None \<Rightarrow> cfg_start_seconds c | Some t \<Rightarrow> t)"

definition q_on :: "s1_config \<Rightarrow> rat \<Rightarrow> int" where
  "q_on c t_s = (case alpha c of
     None \<Rightarrow> a_hard c + 1
   | Some a \<Rightarrow> min (\<lceil>t_s * (1 - a) / (a * (case batch_seconds c of None \<Rightarrow> 0 | Some t \<Rightarrow> t))\<rceil>) (a_hard c + 1))"

definition startable :: "lifecycle_state \<Rightarrow> bool" where
  "startable st \<longleftrightarrow> st = COLD \<or> st = STOPPED"

text \<open>The decision and the idle start it leaves.\<close>

definition s1_decide ::
  "backlog_stats \<Rightarrow> lifecycle_state \<Rightarrow> rat \<Rightarrow> rat \<Rightarrow> int \<Rightarrow> rat option \<Rightarrow> decision \<times> rat option" where
  "s1_decide b st now t_s q idle =
     (if data_ended b \<and> batches b < 1 then
        (if st \<noteq> TRAINING \<and> \<not> startable st then (Hold, idle) else (Stop FINISHED, None))
      else if startable st then
        (if batches b \<ge> of_int q \<or> data_ended b then Start else Hold, None)
      else if st \<noteq> TRAINING then (Hold, idle)
      else if batches b \<ge> 1 then (Hold, None)
      else let since = (case idle of None \<Rightarrow> now | Some t \<Rightarrow> t)
           in if now - since \<ge> t_s then (Stop LEAVE_STOPPED, None) else (Hold, Some since))"

record scheduler_inputs =
  at_time :: rat
  in_state :: lifecycle_state
  in_batches :: rat
  in_samples :: nat
  in_data_ended :: bool
  in_start_seconds :: rat
  in_q_on :: int
  in_measured :: "rat option option"

datatype controller_record =
    SchedulerState "rat option" scheduler_inputs decision
  | OtherRecord string

record s1_scheduler =
  config :: s1_config
  idle_since :: "rat option"

definition S1Scheduler :: "s1_config \<Rightarrow> s1_scheduler" where
  "S1Scheduler c = \<lparr> config = c, idle_since = None \<rparr>"

definition s1_journal ::
  "start_event list option \<Rightarrow> backlog_stats \<Rightarrow> lifecycle_state \<Rightarrow> rat \<Rightarrow> rat \<Rightarrow> int \<Rightarrow> decision \<Rightarrow> rat option \<Rightarrow>
   s1_scheduler \<Rightarrow> controller_record list" where
  "s1_journal evs b st now t_s q d before s =
     (if idle_since s = before \<and> d = Hold then []
      else [SchedulerState (idle_since s) \<lparr> at_time = now, in_state = st, in_batches = batches b, in_samples = samples b,
              in_data_ended = data_ended b, in_start_seconds = t_s, in_q_on = q,
              in_measured = (if fixed_start_seconds (config s)
                 then Some (case evs of None \<Rightarrow> None | Some es \<Rightarrow> last_start_seconds es) else None) \<rparr> d])"

text \<open>\<open>decide\<close> with a journal writer: the decision, the scheduler and what it wrote.\<close>

definition decide ::
  "start_event list option \<Rightarrow> backlog_stats \<Rightarrow> lifecycle_state \<Rightarrow> rat \<Rightarrow> s1_scheduler \<Rightarrow>
   decision \<times> s1_scheduler \<times> controller_record list" where
  "decide evs b st now s =
     (let t_s = start_seconds (config s) evs;
          q = q_on (config s) t_s
      in case s1_decide b st now t_s q (idle_since s) of
           (d, idle) \<Rightarrow>
             let s1 = s\<lparr> idle_since := idle \<rparr>
             in (d, s1, s1_journal evs b st now t_s q d (idle_since s) s1))"

fun last_state :: "controller_record list \<Rightarrow> rat option option \<Rightarrow> rat option option" where
  "last_state [] found = found"
| "last_state (r # rs) found = last_state rs (case r of SchedulerState i _ _ \<Rightarrow> Some i | OtherRecord _ \<Rightarrow> found)"

definition restore :: "controller_record list \<Rightarrow> s1_scheduler \<Rightarrow> s1_scheduler \<times> bool" where
  "restore records s = (case last_state records None of
     None \<Rightarrow> (s, False) | Some i \<Rightarrow> (s\<lparr> idle_since := i \<rparr>, True))"

section \<open>Restart of the head\<close>

text \<open>A scheduler with its journal; other parts of the controller write records in between.\<close>

inductive sched_run :: "s1_config \<Rightarrow> s1_scheduler \<Rightarrow> controller_record list \<Rightarrow> bool" for c where
  sched_start: "sched_run c (S1Scheduler c) []"
| sched_decide: "sched_run c s j \<Longrightarrow> decide evs b st now s = (d, s', recs) \<Longrightarrow> sched_run c s' (j @ recs)"
| sched_other: "sched_run c s j \<Longrightarrow> sched_run c s (j @ [OtherRecord k])"

lemma last_state_append: "last_state (xs @ ys) f = last_state ys (last_state xs f)"
  by (induction xs f rule: last_state.induct) auto

lemma decide_journal:
  assumes "decide evs b st now s = (d, s', recs)"
  shows "config s' = config s \<and> (recs = [] \<and> idle_since s' = idle_since s \<or> (\<exists>i. recs = [SchedulerState (idle_since s') i d]))"
  using assms by (auto simp: decide_def s1_journal_def Let_def split: prod.splits if_splits)

lemma sched_run_last:
  assumes "sched_run c s j"
  shows "config s = c \<and> (case last_state j None of None \<Rightarrow> idle_since s = None | Some i \<Rightarrow> i = idle_since s)"
  using assms
proof (induction rule: sched_run.induct)
  case sched_start
  show ?case by (simp add: S1Scheduler_def)
next
  case (sched_decide s j evs b st now d s' recs)
  then show ?case using decide_journal [OF sched_decide.hyps(2)] by (auto simp: last_state_append split: option.splits)
next
  case (sched_other s j k)
  then show ?case by (simp add: last_state_append)
qed

text \<open>
  C22. A head that restarts and restores its scheduler from the controller journal has exactly the
  scheduler it had before, the idle time already spent included, so it decides the same from there.
\<close>

theorem scheduler_restart_same:
  assumes "sched_run c s j"
  shows "fst (restore j (S1Scheduler c)) = s"
  using sched_run_last [OF assms] by (auto simp: restore_def S1Scheduler_def split: option.splits)

definition demo_config :: s1_config where
  "demo_config = \<lparr> a_hard = 3, cfg_start_seconds = 20, alpha = None, batch_seconds = None, fixed_start_seconds = False \<rparr>"

definition demo_backlog :: backlog_stats where
  "demo_backlog = \<lparr> batches = 1 / 2, samples = 2, oldest_version = Some 4, version_histogram = [(4, 2)], arrival_rate = 0,
     data_ended = False, max_version_gap = Some 1 \<rparr>"

lemma demo_decide:
  "\<exists>i. decide None demo_backlog TRAINING 100 (S1Scheduler demo_config)
     = (Hold, \<lparr> config = demo_config, idle_since = Some 100 \<rparr>, [SchedulerState (Some 100) i Hold])"
  by (simp add: decide_def s1_decide_def s1_journal_def S1Scheduler_def demo_config_def demo_backlog_def start_seconds_def
      startable_def)

theorem scheduler_restart_same_witness:
  "\<exists>j. fst (restore (j @ [OtherRecord ''auto_state'']) (S1Scheduler demo_config)) = \<lparr> config = demo_config, idle_since = Some 100 \<rparr>"
proof -
  obtain i where d: "decide None demo_backlog TRAINING 100 (S1Scheduler demo_config)
      = (Hold, \<lparr> config = demo_config, idle_since = Some 100 \<rparr>, [SchedulerState (Some 100) i Hold])"
    using demo_decide by blast
  show ?thesis using scheduler_restart_same [OF sched_other [OF sched_decide [OF sched_start d]]] by blast
qed

section \<open>Ski rental\<close>

text \<open>The decisions of a sequence of calls.\<close>

fun decisions :: "(start_event list option \<times> backlog_stats \<times> lifecycle_state \<times> rat) list \<Rightarrow> s1_scheduler \<Rightarrow> decision list \<times> s1_scheduler" where
  "decisions [] s = ([], s)"
| "decisions ((evs, b, st, now) # xs) s =
     (case decide evs b st now s of (d, s1, _) \<Rightarrow> (case decisions xs s1 of (ds, s2) \<Rightarrow> (d # ds, s2)))"

definition idle_call :: "rat \<Rightarrow> s1_config \<Rightarrow> start_event list option \<times> backlog_stats \<times> lifecycle_state \<times> rat \<Rightarrow> bool" where
  "idle_call t_s c x = (case x of (evs, b, st, now) \<Rightarrow>
     st = TRAINING \<and> batches b < 1 \<and> \<not> data_ended b \<and> start_seconds c evs = t_s)"

lemma idle_decide:
  assumes "idle_call t_s (config s) (evs, b, st, now)"
  shows "\<exists>recs. decide evs b st now s =
    (let since = (case idle_since s of None \<Rightarrow> now | Some t \<Rightarrow> t)
     in if now - since \<ge> t_s then (Stop LEAVE_STOPPED, s\<lparr> idle_since := None \<rparr>, recs) else (Hold, s\<lparr> idle_since := Some since \<rparr>, recs))"
  using assms by (simp add: idle_call_def decide_def s1_decide_def Let_def startable_def)

lemma idle_hold:
  assumes "\<forall>x \<in> set xs. idle_call t_s c x \<and> snd (snd (snd x)) - t0 < t_s" and "config s = c" and "idle_since s = Some t0"
  shows "decisions xs s = (map (\<lambda>_. Hold) xs, s)"
  using assms
proof (induction xs)
  case (Cons x xs)
  obtain evs b st now where x: "x = (evs, b, st, now)" by (metis prod_cases4)
  have "idle_call t_s (config s) (evs, b, st, now)" using Cons.prems x by simp
  from idle_decide [OF this] obtain recs where "decide evs b st now s = (Hold, s, recs)"
    using Cons.prems x by (auto simp: Let_def)
  then show ?case using Cons x by simp
qed simp

text \<open>
  C40. The ski-rental stop.  From a first idle decision at time \<open>t0\<close>, a trainer that stays idle (less
  than one batch, the data not ended) is held at every decision before \<open>t0 + T_s\<close>, and
  stopped at the first decision from \<open>t0 + T_s\<close> on, where \<open>T_s\<close> is the measured or configured start time.
\<close>

theorem ski_rental_stop:
  assumes idle: "\<forall>x \<in> set (x0 # xs @ [y]). idle_call t_s c x" and s: "config s = c" "idle_since s = None"
    and early: "\<forall>x \<in> set (x0 # xs). snd (snd (snd x)) - snd (snd (snd x0)) < t_s"
    and late: "snd (snd (snd y)) - snd (snd (snd x0)) \<ge> t_s"
  shows "decisions (x0 # xs @ [y]) s = (map (\<lambda>_. Hold) (x0 # xs) @ [Stop LEAVE_STOPPED], s)"
proof -
  obtain evs b st t0 where x0: "x0 = (evs, b, st, t0)" by (metis prod_cases4)
  obtain evs' b' st' t1 where y: "y = (evs', b', st', t1)" by (metis prod_cases4)
  let ?s = "s\<lparr> idle_since := Some t0 \<rparr>"
  have "idle_call t_s (config s) (evs, b, st, t0)" using idle s x0 by simp
  from idle_decide [OF this] obtain r0 where d0: "decide evs b st t0 s = (Hold, ?s, r0)"
    using s early x0 by (auto simp: Let_def)
  have mid: "decisions xs ?s = (map (\<lambda>_. Hold) xs, ?s)"
    using idle early s x0 by (intro idle_hold [of _ t_s c t0]) auto
  have "idle_call t_s (config ?s) (evs', b', st', t1)" using idle s y by simp
  from idle_decide [OF this] obtain r1 where "decide evs' b' st' t1 ?s = (Stop LEAVE_STOPPED, ?s\<lparr> idle_since := None \<rparr>, r1)"
    using late x0 y by (auto simp: Let_def)
  moreover have "?s\<lparr> idle_since := None \<rparr> = s" using s by simp
  ultimately have last: "decisions [y] ?s = ([Stop LEAVE_STOPPED], s)" by (simp add: y)
  have app: "decisions (us @ vs) r = (case decisions us r of (ds, r1) \<Rightarrow> (case decisions vs r1 of (es, r2) \<Rightarrow> (ds @ es, r2)))" for us vs r
    by (induction us r rule: decisions.induct) (auto split: prod.splits)
  show ?thesis using d0 mid last by (simp add: x0 app)
qed

theorem ski_rental_stop_witness:
  "decisions [(None, demo_backlog, TRAINING, 100), (None, demo_backlog, TRAINING, 115), (None, demo_backlog, TRAINING, 121)]
     (S1Scheduler demo_config) = ([Hold, Hold, Stop LEAVE_STOPPED], S1Scheduler demo_config)"
  using ski_rental_stop [of "(None, demo_backlog, TRAINING, 100)" "[(None, demo_backlog, TRAINING, 115)]"
      "(None, demo_backlog, TRAINING, 121)" 20 demo_config "S1Scheduler demo_config"]
  by (simp add: idle_call_def demo_backlog_def demo_config_def start_seconds_def S1Scheduler_def)

end
