(* ===== verification/Incarnation_Lease.thy ===== *)
theory Incarnation_Lease
  imports Sample_Buffer
begin

text \<open>
  The incarnation lease of a sampler island (\<open>yeto/rl/engine/incarnation_lease.py\<close>): a
  replacement claims the lease, the superseded incarnation fences itself before it writes, and
  the trainer's gate refuses what a superseded incarnation wrote after the claim.

  The store holds one lease record per sampler; \<open>readable\<close> says for which samplers a read
  succeeds (\<open>read_record\<close> answers None on an error).  The round record of an entry is the part
  of \<open>sampler_round\<close> the code reads.  The clocks are arguments.
\<close>

section \<open>Records\<close>

record lease =
  l_sampler :: string
  l_incarnation :: string
  claimed_at :: rat
  generation :: int
  superseded :: "string list"
  sealed :: "(string, nat) dict"

record lease_store =
  leases :: "(string, lease) dict"
  readable :: "string \<Rightarrow> bool"

definition read_lease :: "lease_store \<Rightarrow> string \<Rightarrow> lease option" where
  "read_lease w sampler = (if readable w sampler then dict_get (leases w) sampler else None)"




section \<open>The sampler\<close>

record incarnation_lease =
  sampler :: string
  incarnation :: string
  write_check_s :: rat
  lease_holder :: "string option"
  fenced_by :: "string option"
  read_failures :: nat
  reads :: nat
  checked_at :: "rat option"




definition lease_poll :: "rat \<Rightarrow> lease_store \<Rightarrow> incarnation_lease \<Rightarrow> incarnation_lease \<times> bool" where
  "lease_poll now w l =
     (let l1 = l\<lparr> checked_at := Some now \<rparr> in
      if fenced_by l1 \<noteq> None then (l1, True)
      else let l2 = l1\<lparr> reads := reads l1 + 1 \<rparr> in
        (case read_lease w (sampler l2) of
           None \<Rightarrow> (l2\<lparr> read_failures := read_failures l2 + 1 \<rparr>, False)
         | Some r \<Rightarrow>
             let h = l_incarnation r;
                 l3 = l2\<lparr> lease_holder := Some h \<rparr>;
                 l4 = (if h \<noteq> incarnation l3 then l3\<lparr> fenced_by := Some h \<rparr> else l3)
             in (l4, fenced_by l4 \<noteq> None)))"

definition check_before_write :: "rat \<Rightarrow> lease_store \<Rightarrow> incarnation_lease \<Rightarrow> incarnation_lease \<times> bool" where
  "check_before_write now w l =
     (if fenced_by l \<noteq> None then (l, True)
      else if (case checked_at l of None \<Rightarrow> False | Some t \<Rightarrow> now - t < write_check_s l) then (l, False)
      else lease_poll now w l)"

section \<open>The gate of the buffer reader\<close>








section \<open>A sequence of claims\<close>











end
