(* ===== verification/Cut_Interval.thy ===== *)
theory Cut_Interval
  imports Complex_Main Yeto_Prelude
begin

text \<open>
  When a round cut is due (\<open>yeto/rl/engine/cut_interval.py\<close>): every N rounds, or by wall time
  with the interval \<open>sqrt (2 * C * MTBF)\<close> of a measured cut cost C.

  Floats are real numbers; the clock is an argument of the operations that read it.
\<close>

datatype cut_error = BadEvery int | BadFirstCut real | BadMtbf real | BadMaxInterval real | BadMinInterval real
  | BadCostShare real | MaxNeedsAuto | EveryAndAuto

abbreviation DEFAULT_MAX_INTERVAL_S :: real where "DEFAULT_MAX_INTERVAL_S \<equiv> 3600"
abbreviation DEFAULT_MTBF_S :: real where "DEFAULT_MTBF_S \<equiv> 21600"
abbreviation DEFAULT_MAX_COST_SHARE :: real where "DEFAULT_MAX_COST_SHARE \<equiv> 5 / 100"
abbreviation DEFAULT_FIRST_CUT_S :: real where "DEFAULT_FIRST_CUT_S \<equiv> 1800"
abbreviation COST_WINDOW :: nat where "COST_WINDOW \<equiv> 4"

definition check_every :: "int \<Rightarrow> cut_error + int" where
  "check_every n = (if n < 1 then Inl (BadEvery n) else Inr n)"

text \<open>\<open>resume.should_cut\<close>.\<close>

definition should_cut :: "int \<Rightarrow> int \<Rightarrow> bool \<Rightarrow> bool \<Rightarrow> cut_error + bool" where
  "should_cut rollout n fin stop =
     (if n < 1 then Inl (BadEvery n) else Inr (rollout > 0 \<and> (fin \<or> stop \<or> rollout mod n = 0)))"

record auto_cut =
  mtbf_s :: real
  max_interval_s :: real
  min_interval_s :: real
  max_cost_share :: "real option"
  first_cut_s :: real
  costs :: "(int \<times> real) list"
  started :: "real option"
  last_cut :: "(int \<times> real) option"
  decided :: "(int \<times> bool) option"
  every :: int

definition AutoCutInterval :: "real \<Rightarrow> real \<Rightarrow> real \<Rightarrow> real option \<Rightarrow> real \<Rightarrow> cut_error + auto_cut" where
  "AutoCutInterval mtbf hi lo share first =
     (if \<not> first \<ge> 0 then Inl (BadFirstCut first)
      else if \<not> mtbf > 0 then Inl (BadMtbf mtbf)
      else if \<not> hi > 0 then Inl (BadMaxInterval hi)
      else if \<not> (0 \<le> lo \<and> lo \<le> hi) then Inl (BadMinInterval lo)
      else if (case share of None \<Rightarrow> False | Some s \<Rightarrow> \<not> (0 < s \<and> s \<le> 1)) then Inl (BadCostShare (the share))
      else Inr \<lparr> mtbf_s = mtbf, max_interval_s = hi, min_interval_s = lo, max_cost_share = share, first_cut_s = first,
                 costs = [], started = None, last_cut = None, decided = None, every = 1 \<rparr>)"

definition cost_s :: "auto_cut \<Rightarrow> real option" where
  "cost_s a = (if costs a = [] then None else Some (sum_list (map snd (costs a)) / real (length (costs a))))"

definition interval_s :: "auto_cut \<Rightarrow> real option" where
  "interval_s a = (case cost_s a of
     None \<Rightarrow> None
   | Some c0 \<Rightarrow>
       let c = max c0 0;
           optimum = sqrt (2 * c * mtbf_s a);
           interval = min (max optimum (min_interval_s a)) (max_interval_s a)
       in Some (case max_cost_share a of None \<Rightarrow> interval | Some s \<Rightarrow> max interval (c / s)))"

definition auto_due :: "real \<Rightarrow> int \<Rightarrow> bool \<Rightarrow> auto_cut \<Rightarrow> auto_cut \<times> bool" where
  "auto_due now rollout fin a =
     (if rollout \<le> 0 then (a, False)
      else if fin then (a, True)
      else if (case decided a of None \<Rightarrow> False | Some (r, _) \<Rightarrow> r = rollout) then (a, snd (the (decided a)))
      else let start = (case started a of None \<Rightarrow> now | Some t \<Rightarrow> t);
               due = (case (interval_s a, last_cut a) of
                        (Some i, Some (_, t)) \<Rightarrow> now - t \<ge> i
                      | _ \<Rightarrow> now - start \<ge> first_cut_s a)
           in (a\<lparr> started := Some start, decided := Some (rollout, due) \<rparr>, due))"

text \<open>\<open>deque(maxlen=COST_WINDOW)\<close>: the oldest cost falls out.\<close>

definition push_cost :: "int \<times> real \<Rightarrow> (int \<times> real) list \<Rightarrow> (int \<times> real) list" where
  "push_cost c cs = (let cs' = cs @ [c] in drop (length cs' - COST_WINDOW) cs')"

definition record_cut :: "real \<Rightarrow> int \<Rightarrow> real \<Rightarrow> auto_cut \<Rightarrow> auto_cut" where
  "record_cut now rollout cost a =
     (let n = (case last_cut a of None \<Rightarrow> every a | Some (r, _) \<Rightarrow> if rollout > r then rollout - r else every a)
      in a\<lparr> every := n, last_cut := Some (rollout, now), costs := push_cost (rollout, max cost 0) (costs a) \<rparr>)"

definition add_cost :: "int \<Rightarrow> real \<Rightarrow> auto_cut \<Rightarrow> auto_cut" where
  "add_cost rollout cost a =
     a\<lparr> costs := map (\<lambda>(r, c). if r = rollout then (r, c + max cost 0) else (r, c)) (costs a) \<rparr>"

datatype cut_interval = Fixed int | Auto auto_cut

definition cut_interval_for :: "int option \<Rightarrow> real option \<Rightarrow> real option \<Rightarrow> cut_error + cut_interval" where
  "cut_interval_for ev mtbf cap = (case mtbf of
     None \<Rightarrow>
       if cap \<noteq> None then Inl MaxNeedsAuto
       else (case ev of
           None \<Rightarrow> rbind (AutoCutInterval DEFAULT_MTBF_S DEFAULT_MAX_INTERVAL_S 0 (Some DEFAULT_MAX_COST_SHARE) DEFAULT_FIRST_CUT_S)
             (\<lambda>a. Inr (Auto a))
         | Some n \<Rightarrow> rbind (check_every n) (\<lambda>k. Inr (Fixed k)))
   | Some m \<Rightarrow>
       if ev \<noteq> None then Inl EveryAndAuto
       else rbind (AutoCutInterval m (case cap of None \<Rightarrow> DEFAULT_MAX_INTERVAL_S | Some c \<Rightarrow> c) 0 None 0) (\<lambda>a. Inr (Auto a)))"

definition interval_due :: "real \<Rightarrow> int \<Rightarrow> bool \<Rightarrow> cut_interval \<Rightarrow> cut_error + cut_interval \<times> bool" where
  "interval_due now rollout fin i = (case i of
     Fixed n \<Rightarrow> rbind (should_cut rollout n fin False) (\<lambda>d. Inr (Fixed n, d))
   | Auto a \<Rightarrow> (case auto_due now rollout fin a of (a1, d) \<Rightarrow> Inr (Auto a1, d)))"

section \<open>The interval\<close>

text \<open>
  The share of the wall time that cuts cost with interval \<open>T\<close>, plus the share that interruptions
  every \<open>M\<close> seconds lose (half an interval each).
\<close>

definition overhead :: "real \<Rightarrow> real \<Rightarrow> real \<Rightarrow> real" where
  "overhead c M T = c / T + T / (2 * M)"

lemma overhead_diff:
  assumes "0 < M" and "0 < T" and "0 < T'"
  shows "overhead c M T' - overhead c M T = (T' - T) * (T * T' - 2 * c * M) / (2 * M * T * T')"
  using assms by (simp add: overhead_def field_simps)

lemma overhead_le:
  assumes "0 < M" and "0 < T" and "0 < T'" and "0 \<le> (T' - T) * (T * T' - 2 * c * M)"
  shows "overhead c M T \<le> overhead c M T'"
proof -
  have "0 \<le> overhead c M T' - overhead c M T"
    unfolding overhead_diff [OF assms(1-3)] using assms by (intro divide_nonneg_pos) simp_all
  then show ?thesis by simp
qed

lemma clamped_optimal:
  assumes c: "0 < c" and M: "0 < M" and T: "T = min (max (sqrt (2 * c * M)) lo) hi"
    and range: "0 \<le> lo" "lo \<le> hi" "0 < hi" and T': "lo \<le> T'" "T' \<le> hi" "0 < T'"
  shows "overhead c M T \<le> overhead c M T'"
proof (rule overhead_le [OF M _ T'(3)])
  show "0 < T" unfolding T using c M range(3) by (simp add: less_max_iff_disj)
  define q where "q = sqrt (2 * c * M)"
  have q: "0 < q" "2 * c * M = q * q" using c M by (simp_all add: q_def)
  consider "T = q" | "T = lo" "q \<le> lo" | "T = hi" "hi \<le> q"
    using T range(2) unfolding q_def [symmetric] by (auto simp: min_def max_def split: if_splits)
  then show "0 \<le> (T' - T) * (T * T' - 2 * c * M)" unfolding q(2)
  proof cases
    case 1
    have eq: "(T' - q) * (q * T' - q * q) = q * ((T' - q) * (T' - q))" by (simp add: algebra_simps)
    show "0 \<le> (T' - T) * (T * T' - q * q)" unfolding 1 eq using q(1) by simp
  next
    case 2
    have "q * q \<le> T * T'" using 2 T'(1) q(1) by (intro mult_mono) auto
    then show "0 \<le> (T' - T) * (T * T' - q * q)" using 2 T'(1) by (intro mult_nonneg_nonneg) simp_all
  next
    case 3
    have "T * T' \<le> q * q" using 3 T' q(1) by (intro mult_mono) auto
    then show "0 \<le> (T' - T) * (T * T' - q * q)" using 3 T'(2) by (intro mult_nonpos_nonpos) simp_all
  qed
qed

section \<open>Runs\<close>

inductive auto_run :: "auto_cut \<Rightarrow> auto_cut \<Rightarrow> bool" for a where
  auto_start: "auto_run a a"
| auto_ask: "auto_run a a1 \<Longrightarrow> auto_due now rollout fin a1 = (a2, d) \<Longrightarrow> auto_run a a2"
| auto_cut: "auto_run a a1 \<Longrightarrow> auto_run a (record_cut now rollout cost a1)"
| auto_cost: "auto_run a a1 \<Longrightarrow> auto_run a (add_cost rollout cost a1)"

lemma auto_run_settings:
  assumes "auto_run a a'"
  shows "mtbf_s a' = mtbf_s a \<and> max_interval_s a' = max_interval_s a \<and> min_interval_s a' = min_interval_s a
    \<and> max_cost_share a' = max_cost_share a"
  using assms
  by (induction rule: auto_run.induct)
    (auto simp: auto_due_def record_cut_def add_cost_def Let_def split: if_splits option.splits)

text \<open>
  C21. Once a cut is measured, the interval between cuts is the best one: of all intervals within the
  bounds (raised to the floor that the cost share sets) none has a lower overhead of cutting and
  of the work an interruption loses; and with a cost share the cuts cost at most that share.
\<close>

theorem cut_interval_optimal:
  assumes new: "AutoCutInterval mtbf hi lo share first = Inr a0" and run: "auto_run a0 a"
    and cost: "cost_s a = Some c" "0 < c"
  shows "\<exists>T. interval_s a = Some T \<and> 0 < T
    \<and> (\<forall>s. share = Some s \<longrightarrow> c \<le> s * T)
    \<and> (let raise_to = (case share of None \<Rightarrow> 0 | Some s \<Rightarrow> c / s) in
         max lo raise_to \<le> T \<and> T \<le> max hi raise_to
         \<and> (\<forall>T'. max lo raise_to \<le> T' \<and> T' \<le> max hi raise_to \<and> 0 < T' \<longrightarrow> overhead c mtbf T \<le> overhead c mtbf T'))"
proof -
  have p: "0 < mtbf" "0 < hi" "0 \<le> lo" "lo \<le> hi" and sh: "share = None \<or> (\<exists>s. share = Some s \<and> 0 < s \<and> s \<le> 1)"
    and a0: "mtbf_s a0 = mtbf" "max_interval_s a0 = hi" "min_interval_s a0 = lo" "max_cost_share a0 = share"
    using new by (auto simp: AutoCutInterval_def split: if_splits option.splits)
  let ?o = "sqrt (2 * c * mtbf)"
  define fl where "fl = (case share of None \<Rightarrow> 0 | Some s \<Rightarrow> c / s)"
  define T where "T = min (max ?o (max lo fl)) (max hi fl)"
  have fl: "0 \<le> fl" using sh cost(2) by (auto simp: fl_def)
  have o: "0 < ?o" using p cost(2) by simp
  have "interval_s a = Some (case share of None \<Rightarrow> min (max ?o lo) hi | Some s \<Rightarrow> max (min (max ?o lo) hi) (c / s))"
    using cost auto_run_settings [OF run] a0 by (simp add: interval_s_def Let_def max_absorb1)
  also have "(case share of None \<Rightarrow> min (max ?o lo) hi | Some s \<Rightarrow> max (min (max ?o lo) hi) (c / s)) = T"
    using p o unfolding T_def fl_def by (cases share) (auto simp: max_def min_def)
  finally have i: "interval_s a = Some T" .
  have T: "max lo fl \<le> T" "T \<le> max hi fl" "0 < T" using p cost(2) fl by (auto simp: T_def less_max_iff_disj)
  have "overhead c mtbf T \<le> overhead c mtbf T'" if "max lo fl \<le> T'" "T' \<le> max hi fl" "0 < T'" for T'
    using p fl that by (intro clamped_optimal [OF cost(2) p(1) T_def]) auto
  moreover have "c \<le> s * T" if "share = Some s" for s
  proof -
    have "0 < s" "c / s \<le> T" using sh that T(1) by (auto simp: fl_def)
    then show ?thesis by (simp add: divide_le_eq mult.commute)
  qed
  ultimately show ?thesis using i T by (intro exI [of _ T]) (simp add: fl_def [symmetric] Let_def)
qed

definition demo_auto :: auto_cut where
  "demo_auto = \<lparr> mtbf_s = 21600, max_interval_s = 3600, min_interval_s = 0, max_cost_share = Some (5 / 100), first_cut_s = 1800,
     costs = [], started = None, last_cut = None, decided = None, every = 1 \<rparr>"

theorem cut_interval_optimal_witness:
  "\<exists>T. interval_s (record_cut 2000 1 75 demo_auto) = Some T \<and> 75 \<le> 5 / 100 * T"
proof -
  have "AutoCutInterval 21600 3600 0 (Some (5 / 100)) 1800 = Inr demo_auto" by (simp add: AutoCutInterval_def demo_auto_def)
  moreover have "cost_s (record_cut 2000 1 75 demo_auto) = Some 75"
    by (simp add: cost_s_def record_cut_def push_cost_def demo_auto_def)
  ultimately show ?thesis using cut_interval_optimal [OF _ auto_cut [OF auto_start]] by fastforce
qed

end
