(* ===== verification/Spec2Isabelle.thy ===== *)
theory Spec2Isabelle
  imports Batch_Ledger_Props Sample_Pool Recovery_Machine Membership Dispense_Props Data_Split Version_Segments Fleet_Plan
    Island_Topology Shard_Merge Trainer_Scheduler Incarnation_Lease Cut_Interval
begin

text \<open>
  \<^bold>\<open>Yeto: the coordination core, verified.\<close>

  Yeto trains one policy on several islands (groups of GPUs at different sites).  A syncer, written
  in Rust, merges what the islands learn, keeps the membership and gives out tasks; the islands
  and the head that controls them are written in Python.  Islands are preempted, restarted and
  replaced, stores are shared directories or buckets, and messages are repeated.  The parts
  modelled here are the ones that keep the training account right under all of that: which
  samples were trained, which were given to whom, what is durable, who is fenced.

  \<^bold>\<open>How the parts interact.\<close>  The driver of an island takes task positions from the dispenser of the
  syncer, or reads its rows by its data slot; samplers write groups to the durable sample
  buffer, which trainers read in lanes; the driver settles every batch in the batch ledger, whose
  records are in an append-only journal.  The syncer admits islands by incarnation, fences the ones
  that left, helps a restarted island to a snapshot of a peer, and normalises the weights of a
  merge.  The head decides when a trainer starts and stops, how GPUs are placed, and which fleet
  to rent.

  \<^bold>\<open>Theories and sources.\<close>  Paths are under \<open>src/\<close>; \<open>engine\<close> is \<open>yeto/rl/engine\<close>.

  \<^item> \<open>Yeto_Prelude\<close>, \<open>Py_Base\<close>: results with errors, dictionaries in insertion order, sorted maps,
    decimal text, lists cut at a separator; Python integers, strings, slices and JSON values.
  \<^item> \<open>Journal\<close> (\<open>engine/journal.py\<close>): the line journal, its parser, epochs with compare and swap, the
    pool events.
  \<^item> \<open>Batch_Ledger\<close>, \<open>Batch_Ledger_Props\<close> (\<open>engine/ledger.py\<close>, the settling loop of
    \<open>engine/driver.py\<close>): record \<open>ledger\<close> with one operation per method, \<open>rebase\<close>, and the runs of a
    driver with restarts.
  \<^item> \<open>Island_Ledger\<close>, \<open>Sample_Pool\<close> (\<open>engine/island_ledger.py\<close>, \<open>engine/sample_pool.py\<close>): verdicts on
    sample groups, pending and carried deltas, the outer step, the index of the pool.
  \<^item> \<open>Wire_Format\<close>, \<open>Recovery_Wire\<close>, \<open>Recovery_Machine\<close> (\<open>yeto/recovery_protocol.py\<close>,
    \<open>syncer/src/recovery.rs\<close>): both ends of the recovery messages, byte for byte, and the donor
    search of the syncer.
  \<^item> \<open>Members\<close>, \<open>Membership\<close> (\<open>syncer/src/members.rs\<close>, \<open>membership.rs\<close>): incarnations, leases, fencing,
    quorum rules, the persisted record.
  \<^item> \<open>Dispense\<close>, \<open>Dispense_Positions\<close>, \<open>Dispense_Admit\<close>, \<open>Dispense_Claims\<close>, \<open>Dispense_Reports\<close>,
    \<open>Dispense_Props\<close> (\<open>syncer/src/dispense.rs\<close>): the task dispenser with streams, claims, reports, requeues
    and repeated requests.  Positions carry their stream in the high bits, as in the source.
  \<^item> \<open>Data_Split\<close>, \<open>Version_Segments\<close>, \<open>Island_Topology\<close>, \<open>Cut_Interval\<close> (\<open>engine/data_split.py\<close>,
    \<open>version_segments.py\<close>, \<open>multinode.py\<close>, \<open>cut_interval.py\<close>) and \<open>Fleet_Plan\<close> (\<open>yeto/shape/ilp.py\<close>).
  \<^item> \<open>Buffer_Index\<close>, \<open>Buffer_Lanes\<close>, \<open>Sample_Buffer\<close> (\<open>engine/sample_buffer.py\<close>,
    \<open>engine/merged_release.py\<close>): both layouts of the buffer index, the lanes and their cursors, the buffer
    and the mergers; \<open>Buffer_Cursors\<close>, \<open>Buffer_Log\<close> and \<open>Shard_Merge\<close> hold their lemmas.
  \<^item> \<open>Trainer_Scheduler\<close> (\<open>engine/trainer_scheduler.py\<close>, parts of \<open>trainer_lifecycle.py\<close>) and
    \<open>Incarnation_Lease\<close> (\<open>engine/incarnation_lease.py\<close>).

  A Python class is a record and a function per method that returns the changed record; an
  exception is \<open>Inl\<close> of a constructor, next to the state when the method changed something before
  it raised.  Floats are rationals (reals where the code takes a square root), Rust integers are
  words where they may wrap.  Clocks, hash functions, the JSON codec, \<open>math.exp\<close> and the writes of
  other processes are arguments.

  \<^bold>\<open>Interfaces.\<close>  The locale \<open>journaled\<close> is what a component that replays a journal promises,
  \<open>sample_judge\<close> the contract of a verdict, \<open>wire_reader\<close> that of a message reader (interpreted for
  the Python and the Rust reader), \<open>absorber\<close> what an index may do to the buffer that writes through
  it, \<open>record_log\<close> what an index shows its readers (interpreted for the line file, the objects
  and their sum).

  \<^bold>\<open>What is shown.\<close>  Training: no group is trained in two rounds over every run with restarts; a
  restart rebuilds the ledger; a crash in a write loses the torn record only.  Tasks: over
  every run of the dispenser each position is settled, queued or held exactly once, and a repeated
  request is answered again and applied once.  Samples: N lanes take each position of the
  buffer exactly once, appends are seen by every reader and survive a crash as a prefix, the
  merged records of a shard stay a prefix of it over any number of mergers.  Membership: a
  generation that left stays fenced, a superseded sampler is fenced twice, recovery asks finitely many
  donors and never hands out an older snapshot.  Plans: the branch and bound of the fleet plan
  returns an optimal plan, the cut interval minimises the expected overhead, placements give each
  GPU one role, a pass reads every row once.  Messages of one end are read by the other.

  \<^bold>\<open>Bounds and fuel.\<close>  Loops are structural or have a measure.  \<open>object_append\<close> counts down the 1000
  tries of the source and then raises as the source does; the donor search counts down
  \<open>max_donor_tries\<close>; the object index names positions below \<open>10 ^ 12\<close>, as its key format does.

  \<^bold>\<open>Not modelled.\<close>  The adapters of the training engines (\<open>yeto/rl/adapters\<close>, \<open>megatron\<close>, \<open>mlx\<close>,
  \<open>diffusion\<close>), kernels and losses: numeric code on tensors.  Sockets, threads and
  processes (\<open>protocol.py\<close>, \<open>syncer/src/server.rs\<close>, the launchers, cloud and dashboard code): they call the
  modelled parts and otherwise perform input and output.  The text of error messages and
  log events, where a constructor stands for it.  Ray, object store and file system semantics beyond what the
  operations state.
\<close>

end
